(* ===== verification/Prelude.thy ===== *)
theory Prelude
  imports Main "HOL-Library.Word" "HOL-Library.Sublist"
begin

text \<open>
  Shared vocabulary of the development: the Go types the two state packages and the trie
  package exchange (bytes, \<open>common.Hash\<close>, \<open>common.Address\<close>, \<open>uint64\<close>, \<open>error\<close>, run-time
  panics), the third-party functions they call (one record of parameters, \<open>geth\<close>), Go's
  \<open>sort.Search\<close>, the rule for ranging over a Go map, and the generic lemmas on lists, maps
  and sums the component theories use.
\<close>

named_theorems obj_simps \<open>field-level facts about state objects\<close>
named_theorems view_simps \<open>how an operation changes what is observable of a state\<close>
named_theorems wf_intros \<open>preservation of the well-formedness invariants\<close>

section \<open>Go types\<close>

type_synonym byte = "8 word"
type_synonym bytes = "byte list"

text \<open>
  \<open>common.Hash\<close> is a 32-byte and \<open>common.Address\<close> a 20-byte array; both are words of that
  width, and slicing an array (\<open>h[:]\<close>, \<open>h.Bytes()\<close>) is the big-endian list of its bytes.
\<close>

type_synonym hash = "256 word"
type_synonym address = "160 word"
type_synonym u64 = "64 word"

fun be_bytes :: "nat \<Rightarrow> nat \<Rightarrow> bytes" where
  "be_bytes 0 x = []"
| "be_bytes (Suc n) x = be_bytes n (x div 256) @ [word_of_nat (x mod 256)]"

definition be_nat :: "bytes \<Rightarrow> nat" where
  "be_nat bs = foldl (\<lambda>a b. a * 256 + unat b) 0 bs"

definition hash_bytes :: "hash \<Rightarrow> bytes" where
  "hash_bytes h = be_bytes 32 (unat h)"

definition address_bytes :: "address \<Rightarrow> bytes" where
  "address_bytes a = be_bytes 20 (unat a)"

text \<open>A Go \<open>error\<close>: a message, or a message wrapped around another error.\<close>

datatype goerr = Err string | Wrap string bytes goerr

text \<open>Run-time panics, those of the language and those the code raises itself.\<close>

datatype panic =
    IndexOutOfRange
  | NilDereference
  | PanicMsg string
  | RefundBelowZero u64 u64
  | RevisionCannotBeReverted int

section \<open>Third-party functions\<close>

text \<open>
  Functions of go-ethereum the sources call but do not contain. \<open>rlpSplit\<close> and its
  relatives return the error as an option beside the values, as Go does. \<open>EncoderBuffer\<close>
  is used in one way only: \<open>List\<close>, writes, \<open>ListEnd\<close>; its effect is \<open>rlpList\<close> on the
  concatenation of what was written in between, and \<open>WriteBytes\<close> is \<open>rlpString\<close>.
\<close>

datatype rlp_kind = RlpByte | RlpString | RlpList

record geth =
  keccak256 :: "bytes \<Rightarrow> hash"
  BytesToHash :: "bytes \<Rightarrow> hash"
  EmptyRootHash :: hash
  EmptyCodeHash :: hash
  rlpString :: "bytes \<Rightarrow> bytes"
  rlpList :: "bytes \<Rightarrow> bytes"
  rlpEmptyString :: bytes
  rlpSplit :: "bytes \<Rightarrow> rlp_kind \<times> bytes \<times> bytes \<times> goerr option"
  rlpSplitString :: "bytes \<Rightarrow> bytes \<times> bytes \<times> goerr option"
  rlpSplitList :: "bytes \<Rightarrow> bytes \<times> bytes \<times> goerr option"
  rlpCountValues :: "bytes \<Rightarrow> nat"

text \<open>
  What the sources rely on in \<open>common\<close> and \<open>types\<close>: a hash survives the trip through its
  32 bytes, and the empty-code hash is the hash of no bytes.
\<close>

definition common_laws :: "geth \<Rightarrow> bool" where
  "common_laws G \<longleftrightarrow>
     (\<forall>h. BytesToHash G (hash_bytes h) = h) \<and>
     EmptyCodeHash G = keccak256 G []"

section \<open>Ranging over a map\<close>

text \<open>
  \<open>for k := range m\<close> visits the keys of \<open>m\<close> once each, in an order the language leaves
  open. A loop over a map takes that order as an argument, constrained by \<open>range_of\<close>.
\<close>

definition range_of :: "'k list \<Rightarrow> 'k set \<Rightarrow> bool" where
  "range_of ks S \<longleftrightarrow> distinct ks \<and> set ks = S"

lemma range_ofD [dest]: "range_of ks S \<Longrightarrow> distinct ks \<and> set ks = S"
  by (simp add: range_of_def)

section \<open>Go's sort.Search\<close>

text \<open>
  The binary search of the standard library: the least \<open>i\<close> in \<open>[lo, hi)\<close> with \<open>f i\<close>, or
  \<open>hi\<close>, when \<open>f\<close> is false on a prefix and true on the rest.
\<close>

function search_between :: "(nat \<Rightarrow> bool) \<Rightarrow> nat \<Rightarrow> nat \<Rightarrow> nat" where
  "search_between f i j =
     (if i < j then
        (let h = (i + j) div 2
         in if \<not> f h then search_between f (h + 1) j else search_between f i h)
      else i)"
  by pat_completeness auto
termination
  by (relation "measure (\<lambda>(f, i, j). j - i)") auto

declare search_between.simps [simp del]

definition sort_Search :: "nat \<Rightarrow> (nat \<Rightarrow> bool) \<Rightarrow> nat" where
  "sort_Search n f = search_between f 0 n"

lemma search_between_least:
  assumes mono: "\<And>a b. a \<le> b \<Longrightarrow> b < n \<Longrightarrow> f a \<Longrightarrow> f b"
    and "i \<le> j" and "j \<le> n" and "\<And>k. k < i \<Longrightarrow> \<not> f k"
    and "\<And>k. j \<le> k \<Longrightarrow> k < n \<Longrightarrow> f k" and r: "r = search_between f i j"
  shows "r \<le> n \<and> (\<forall>k < r. \<not> f k) \<and> (\<forall>k. r \<le> k \<longrightarrow> k < n \<longrightarrow> f k)"
  using assms(2-)
proof (induction "j - i" arbitrary: i j rule: less_induct)
  case less
  define h where "h = (i + j) div 2"
  consider (stop) "\<not> i < j" | (left) "i < j" "f h" | (right) "i < j" "\<not> f h" by blast
  then show ?case
  proof cases
    case stop
    then have "search_between f i j = i" by (simp add: search_between.simps [of f i j])
    then have "r = i" using less.prems by simp
    with stop less.prems show ?thesis by simp
  next
    case left
    have b: "i \<le> h" "h < j" using left by (auto simp: h_def)
    have r: "r = search_between f i h"
      using less.prems left by (simp add: search_between.simps [of f i j] Let_def h_def)
    have "f k" if "h \<le> k" "k < n" for k using mono [OF that] left by simp
    with less.hyps [of h i] r b less.prems show ?thesis by auto
  next
    case right
    have b: "i \<le> h" "h < j" using right by (auto simp: h_def)
    have r: "r = search_between f (h + 1) j"
      using less.prems right by (simp add: search_between.simps [of f i j] Let_def h_def)
    have "\<not> f k" if "k < h + 1" for k
      using mono [of k h] that right b less.prems(2) by fastforce
    with less.hyps [of j "h + 1"] r b less.prems show ?thesis by auto
  qed
qed

lemma sort_Search_least:
  assumes "\<And>a b. a \<le> b \<Longrightarrow> b < n \<Longrightarrow> f a \<Longrightarrow> f b"
  shows "sort_Search n f \<le> n" and "k < sort_Search n f \<Longrightarrow> \<not> f k"
    and "sort_Search n f \<le> k \<Longrightarrow> k < n \<Longrightarrow> f k"
  using search_between_least [where n = n and f = f and i = 0 and j = n, OF assms _ _ _ _ refl]
  by (auto simp: sort_Search_def)

lemma sort_Search_eqI:
  assumes "\<And>a b. a \<le> b \<Longrightarrow> b < n \<Longrightarrow> f a \<Longrightarrow> f b" and "i \<le> n"
    and "\<And>k. k < i \<Longrightarrow> \<not> f k" and "i < n \<Longrightarrow> f i"
  shows "sort_Search n f = i"
proof (rule linorder_cases [of "sort_Search n f" i])
  assume lt: "sort_Search n f < i"
  have "f (sort_Search n f)"
    by (rule sort_Search_least(3) [where n = n and f = f]) (use assms(1,2) lt in auto)
  with assms(3) [OF lt] show ?thesis by simp
next
  assume gt: "i < sort_Search n f"
  have "sort_Search n f \<le> n" 
    by (rule sort_Search_least(1) [where n = n and f = f]) (use assms(1) in auto)
  moreover have "\<not> f i" 
    by (rule sort_Search_least(2) [where n = n and f = f]) (use assms(1) gt in auto)
  ultimately show ?thesis using gt assms(4) by simp
qed

section \<open>Lists, options and words\<close>

lemma length_be_bytes [simp]: "length (be_bytes n x) = n"
  by (induction n arbitrary: x) auto

lemma be_nat_snoc [simp]: "be_nat (bs @ [b]) = be_nat bs * 256 + unat b"
  by (simp add: be_nat_def)

lemma be_nat_Nil [simp]: "be_nat [] = 0"
  by (simp add: be_nat_def)

lemma unat_byte_of_nat: "x < 256 \<Longrightarrow> unat (word_of_nat x :: byte) = x"
  by (simp add: unsigned_of_nat take_bit_nat_eq_self)

lemma be_nat_be_bytes: "x < 256 ^ n \<Longrightarrow> be_nat (be_bytes n x) = x"
proof (induction n arbitrary: x)
  case (Suc n)
  have "x div 256 < 256 ^ n" using Suc.prems by (simp add: less_mult_imp_div_less mult.commute)
  with Suc.IH have "be_nat (be_bytes n (x div 256)) = x div 256" by simp
  then show ?case by (simp add: unat_byte_of_nat)
qed simp

lemma length_hash_bytes [simp]: "length (hash_bytes h) = 32"
  by (simp add: hash_bytes_def)

lemma length_address_bytes [simp]: "length (address_bytes a) = 20"
  by (simp add: address_bytes_def)

lemma be_nat_hash_bytes [simp]: "be_nat (hash_bytes h) = unat h"
proof -
  have "unat h < 256 ^ 32" using unsigned_less [of h, where 'a = nat] by simp
  then show ?thesis unfolding hash_bytes_def by (rule be_nat_be_bytes)
qed

lemma be_nat_address_bytes [simp]: "be_nat (address_bytes a) = unat a"
proof -
  have "unat a < 256 ^ 20" using unsigned_less [of a, where 'a = nat] by simp
  then show ?thesis unfolding address_bytes_def by (rule be_nat_be_bytes)
qed

lemma hash_bytes_inject [simp]: "hash_bytes g = hash_bytes h \<longleftrightarrow> g = h"
  by (metis be_nat_hash_bytes word_unat_eq_iff)

lemma address_bytes_inject [simp]: "address_bytes g = address_bytes h \<longleftrightarrow> g = h"
  by (metis be_nat_address_bytes word_unat_eq_iff)

lemma common_laws_BytesToHash [simp]: "common_laws G \<Longrightarrow> BytesToHash G (hash_bytes h) = h"
  by (simp add: common_laws_def)

section \<open>Loops that may stop with an error\<close>

text \<open>\<open>foldE f s xs\<close> runs \<open>f\<close> over a slice with the state \<open>s\<close>, stopping at the first error.\<close>

fun foldE :: "('s \<Rightarrow> 'a \<Rightarrow> 'e + 's) \<Rightarrow> 's \<Rightarrow> 'a list \<Rightarrow> 'e + 's" where
  "foldE f s [] = Inr s"
| "foldE f s (x # xs) = (case f s x of Inl e \<Rightarrow> Inl e | Inr s' \<Rightarrow> foldE f s' xs)"

lemma foldE_append:
  "foldE f s (xs @ ys) = (case foldE f s xs of Inl e \<Rightarrow> Inl e | Inr s' \<Rightarrow> foldE f s' ys)"
  by (induction xs arbitrary: s) (auto split: sum.splits)

lemma foldE_cong [fundef_cong]:
  "s = t \<Longrightarrow> xs = ys \<Longrightarrow> (\<And>u x. x \<in> set ys \<Longrightarrow> f u x = g u x) \<Longrightarrow> foldE f s xs = foldE g t ys"
  by (induction xs arbitrary: s t ys) (auto split: sum.split)

lemma map_sum_eq_Inr [simp]: "map_sum f g z = Inr y \<longleftrightarrow> (\<exists>x. z = Inr x \<and> y = g x)"
  by (cases z) auto

text \<open>\<open>mapE f xs\<close> applies \<open>f\<close> to every element in order, stopping at the first error.\<close>

fun mapE :: "('a \<Rightarrow> 'e + 'b) \<Rightarrow> 'a list \<Rightarrow> 'e + 'b list" where
  "mapE f [] = Inr []"
| "mapE f (x # xs) =
     (case f x of Inl e \<Rightarrow> Inl e
      | Inr y \<Rightarrow> (case mapE f xs of Inl e \<Rightarrow> Inl e | Inr ys \<Rightarrow> Inr (y # ys)))"

lemma mapE_cong [fundef_cong]:
  "xs = ys \<Longrightarrow> (\<And>x. x \<in> set ys \<Longrightarrow> f x = g x) \<Longrightarrow> mapE f xs = mapE g ys"
  by (induction xs arbitrary: ys) (auto split: sum.split)

lemma mapE_Inr: "(\<And>x. x \<in> set xs \<Longrightarrow> f x = Inr (g x)) \<Longrightarrow> mapE f xs = Inr (map g xs)"
  by (induction xs) auto

lemma mapE_append:
  "mapE f (xs @ ys) = (case mapE f xs of Inl e \<Rightarrow> Inl e
     | Inr us \<Rightarrow> (case mapE f ys of Inl e \<Rightarrow> Inl e | Inr vs \<Rightarrow> Inr (us @ vs)))"
  by (induction xs) (auto split: sum.split)

lemma mapE_Inr_iff: "mapE f xs = Inr ys \<longleftrightarrow> list_all2 (\<lambda>x y. f x = Inr y) xs ys"
proof (induction xs arbitrary: ys)
  case (Cons x xs)
  show ?case
  proof (cases "mapE f xs")
    case (Inl e)
    then have "\<not> list_all2 (\<lambda>x y. f x = Inr y) xs zs" for zs using Cons [of zs] by simp
    with Inl show ?thesis by (auto simp: list_all2_Cons1 split: sum.split)
  next
    case (Inr zs)
    then have "list_all2 (\<lambda>x y. f x = Inr y) xs us \<longleftrightarrow> us = zs" for us using Cons [of us] by auto
    with Inr show ?thesis by (auto simp: list_all2_Cons1 split: sum.split)
  qed
qed auto

section \<open>Calls that may panic or not return\<close>

type_synonym 'a res = "(panic + 'a) option"

definition bindR :: "'a res \<Rightarrow> ('a \<Rightarrow> 'b res) \<Rightarrow> 'b res" where
  "bindR m k = (case m of None \<Rightarrow> None | Some (Inl p) \<Rightarrow> Some (Inl p) | Some (Inr a) \<Rightarrow> k a)"

abbreviation okR :: "'a \<Rightarrow> 'a res" where
  "okR a \<equiv> Some (Inr a)"

lemma bindR_simps [simp]:
  "bindR None k = None" "bindR (Some (Inl p)) k = Some (Inl p)" "bindR (okR a) k = k a"
  by (simp_all add: bindR_def)

lemma bindR_okR: "bindR m k = okR b \<longleftrightarrow> (\<exists>a. m = okR a \<and> k a = okR b)"
  by (auto simp: bindR_def split: option.splits sum.splits)

lemma bindR_cong [fundef_cong]:
  "m = m' \<Longrightarrow> (\<And>a. m' = okR a \<Longrightarrow> k a = k' a) \<Longrightarrow> bindR m k = bindR m' k'"
  by (auto simp: bindR_def split: option.splits sum.splits)

text \<open>A loop over a slice whose body may fail or not return.\<close>

fun foldR :: "('s \<Rightarrow> 'a \<Rightarrow> 's res) \<Rightarrow> 's \<Rightarrow> 'a list \<Rightarrow> 's res" where
  "foldR f s [] = okR s"
| "foldR f s (x # xs) = bindR (f s x) (\<lambda>s'. foldR f s' xs)"

text \<open>Both are monotone, so that recursive calls may occur under them in a \<open>partial_function\<close>.\<close>

lemma bindR_mono [partial_function_mono]:
  assumes "mono_option B" and "\<And>a. mono_option (\<lambda>f. C a f)"
  shows "mono_option (\<lambda>f. bindR (B f) (\<lambda>a. C a f))"
proof -
  have "mono_option (\<lambda>f. case r of Inl p \<Rightarrow> Some (Inl p) | Inr a \<Rightarrow> C a f)" for r
    using assms(2) by (cases r) (auto intro: partial_function_mono)
  moreover have "bindR m k = Option.bind m (\<lambda>r. case r of Inl p \<Rightarrow> Some (Inl p) | Inr a \<Rightarrow> k a)" for m :: "'c res" and k :: "'c \<Rightarrow> 'd res"
    by (simp add: bindR_def split: option.split sum.split)
  ultimately show ?thesis by (simp add: bind_mono assms(1))
qed

lemma foldR_mono [partial_function_mono]:
  assumes "\<And>s x. mono_option (\<lambda>f. B s x f)"
  shows "mono_option (\<lambda>f. foldR (\<lambda>s x. B s x f) s xs)"
proof (induction xs arbitrary: s)
  case (Cons x xs)
  show ?case by (simp, intro bindR_mono assms Cons)
qed (auto intro: partial_function_mono)

lemma size_nth [termination_simp]: "i < length xs \<Longrightarrow> f (xs ! i) < Suc (size_list f xs)"
  by (rule le_imp_less_Suc, rule size_list_estimation' [OF nth_mem]) auto

lemma size_in_take [termination_simp]: "x \<in> set (take n xs) \<Longrightarrow> f x < Suc (size_list f xs)"
  by (auto dest!: in_set_takeD simp: less_Suc_eq_le intro: size_list_estimation')

end
