(* ===== verification/AccessList.thy ===== *)
theory AccessList
  imports Prelude
begin

text \<open>
  \<open>trie_by_cid/state/access_list.go\<close>, the EIP-2929 access list (the copy in
  \<open>direct_by_leaf/access_list.go\<close> has the same code, so these definitions serve both
  packages). An address maps to \<open>-1\<close> (no slots) or to the position of its slot set in a
  slice. The invariant \<open>al_wf\<close> says that positions are in range, not shared and never
  name an empty set; the operations keep it, agree with a plain set of addresses and
  (address, slot) pairs, and the two delete operations undo the two add operations.
\<close>

record accessList =
  addresses :: "address \<rightharpoonup> int"
  slots :: "hash set list"

definition newAccessList :: accessList where
  "newAccessList = \<lparr>addresses = Map.empty, slots = []\<rparr>"

definition ContainsAddress :: "accessList \<Rightarrow> address \<Rightarrow> bool" where
  "ContainsAddress al a \<longleftrightarrow> addresses al a \<noteq> None"

text \<open>Reading \<open>al.slots[idx]\<close> outside the slice panics.\<close>

definition slotmap_at :: "accessList \<Rightarrow> int \<Rightarrow> panic + hash set" where
  "slotmap_at al idx =
     (if 0 \<le> idx \<and> nat idx < length (slots al) then Inr (slots al ! nat idx) else Inl IndexOutOfRange)"

definition Contains :: "accessList \<Rightarrow> address \<Rightarrow> hash \<Rightarrow> panic + (bool \<times> bool)" where
  "Contains al a slot =
     (case addresses al a of
        None \<Rightarrow> Inr (False, False)
      | Some idx \<Rightarrow>
          (if idx = -1 then Inr (True, False)
           else case slotmap_at al idx of
                  Inl p \<Rightarrow> Inl p
                | Inr m \<Rightarrow> Inr (True, slot \<in> m)))"

text \<open>The copy is element by element; as values it equals its source.\<close>

definition Copy :: "accessList \<Rightarrow> accessList" where
  "Copy al = \<lparr>addresses = addresses al, slots = map (\<lambda>m. m) (slots al)\<rparr>"

definition AddAddress :: "accessList \<Rightarrow> address \<Rightarrow> bool \<times> accessList" where
  "AddAddress al a =
     (if addresses al a \<noteq> None then (False, al)
      else (True, al\<lparr>addresses := (addresses al)(a \<mapsto> -1)\<rparr>))"

definition AddSlot :: "accessList \<Rightarrow> address \<Rightarrow> hash \<Rightarrow> panic + (bool \<times> bool \<times> accessList)" where
  "AddSlot al a slot =
     (case addresses al a of
        None \<Rightarrow> Inr (True, True, al\<lparr>addresses := (addresses al)(a \<mapsto> int (length (slots al))),
                                  slots := slots al @ [{slot}]\<rparr>)
      | Some idx \<Rightarrow>
          (if idx = -1 then
             Inr (False, True, al\<lparr>addresses := (addresses al)(a \<mapsto> int (length (slots al))),
                                 slots := slots al @ [{slot}]\<rparr>)
           else case slotmap_at al idx of
                  Inl p \<Rightarrow> Inl p
                | Inr m \<Rightarrow>
                    (if slot \<notin> m
                     then Inr (False, True, al\<lparr>slots := (slots al)[nat idx := insert slot m]\<rparr>)
                     else Inr (False, False, al))))"

definition DeleteSlot :: "accessList \<Rightarrow> address \<Rightarrow> hash \<Rightarrow> panic + accessList" where
  "DeleteSlot al a slot =
     (case addresses al a of
        None \<Rightarrow> Inl (PanicMsg ''reverting slot change, address not present in list'')
      | Some idx \<Rightarrow>
          (case slotmap_at al idx of
             Inl p \<Rightarrow> Inl p
           | Inr m \<Rightarrow>
               (let al' = al\<lparr>slots := (slots al)[nat idx := m - {slot}]\<rparr>
                in if m - {slot} = {}
                   then Inr (al'\<lparr>slots := take (nat idx) (slots al'), addresses := (addresses al')(a \<mapsto> -1)\<rparr>)
                   else Inr al')))"

definition DeleteAddress :: "accessList \<Rightarrow> address \<Rightarrow> accessList" where
  "DeleteAddress al a = al\<lparr>addresses := (addresses al)(a := None)\<rparr>"

section \<open>Invariant\<close>

definition al_wf :: "accessList \<Rightarrow> bool" where
  "al_wf al \<longleftrightarrow>
     (\<forall>a i. addresses al a = Some i \<and> i \<noteq> -1 \<longrightarrow>
        0 \<le> i \<and> nat i < length (slots al) \<and> slots al ! nat i \<noteq> {}) \<and>
     (\<forall>a b i. addresses al a = Some i \<and> addresses al b = Some i \<and> i \<noteq> -1 \<longrightarrow> a = b)"

lemma al_wfD:
  assumes "al_wf al" and "addresses al a = Some i" and "i \<noteq> -1"
  shows "0 \<le> i" "nat i < length (slots al)" "slots al ! nat i \<noteq> {}"
  using assms by (auto simp: al_wf_def)

lemma al_wf_inj:
  "al_wf al \<Longrightarrow> addresses al a = Some i \<Longrightarrow> addresses al b = Some i \<Longrightarrow> i \<noteq> -1 \<Longrightarrow> a = b"
  unfolding al_wf_def by blast

lemma slotmap_at_wf [simp]:
  "al_wf al \<Longrightarrow> addresses al a = Some i \<Longrightarrow> i \<noteq> -1 \<Longrightarrow> slotmap_at al i = Inr (slots al ! nat i)"
  by (simp add: slotmap_at_def al_wfD)

lemma al_wf_new [wf_intros]: "al_wf newAccessList"
  by (simp add: al_wf_def newAccessList_def)

lemma al_wf_Copy [simp]: "Copy al = al"
  by (simp add: Copy_def)

lemma al_wf_AddAddress [wf_intros]: "al_wf al \<Longrightarrow> al_wf (snd (AddAddress al a))"
  by (auto simp: al_wf_def AddAddress_def)

text \<open>The two shapes of a successful \<open>AddSlot\<close>: a new slot set, or a slot joining one.\<close>

lemma AddSlot_cases:
  assumes "al_wf al"
  obtains (fresh) "addresses al a = None \<or> addresses al a = Some (-1)"
      "AddSlot al a slot = Inr (addresses al a = None, True,
         al\<lparr>addresses := (addresses al)(a \<mapsto> int (length (slots al))), slots := slots al @ [{slot}]\<rparr>)"
    | (join) i where "addresses al a = Some i" "i \<noteq> -1" "0 \<le> i" "nat i < length (slots al)"
      "slot \<notin> slots al ! nat i" "slots al ! nat i \<noteq> {}"
      "AddSlot al a slot = Inr (False, True, al\<lparr>slots := (slots al)[nat i := insert slot (slots al ! nat i)]\<rparr>)"
    | (present) i where "addresses al a = Some i" "i \<noteq> -1" "slot \<in> slots al ! nat i"
      "AddSlot al a slot = Inr (False, False, al)"
proof (cases "addresses al a")
  case None
  then show ?thesis using fresh by (simp add: AddSlot_def)
next
  case (Some i)
  then show ?thesis
    using assms fresh join present by (cases "i = -1") (auto simp: AddSlot_def al_wfD)
qed

lemma al_wf_fresh:
  assumes wf: "al_wf al" and a: "addresses al a = None \<or> addresses al a = Some (-1)"
  shows "al_wf (al\<lparr>addresses := (addresses al)(a \<mapsto> int (length (slots al))), slots := slots al @ [{slot}]\<rparr>)"
proof -
  have lt: "nat i < length (slots al)" if "addresses al b = Some i" "i \<noteq> -1" for b i
    using al_wfD [OF wf that] by simp
  show ?thesis
    using wf lt unfolding al_wf_def by (fastforce simp: nth_append split: if_splits)
qed

lemma al_wf_AddSlot [wf_intros]:
  assumes "al_wf al" and "AddSlot al a slot = Inr (x, y, al')"
  shows "al_wf al'"
proof -
  from assms(1) show ?thesis
  proof (cases rule: AddSlot_cases [where a = a and slot = slot])
    case fresh
    with assms show ?thesis using al_wf_fresh by auto
  next
    case (join i)
    with assms show ?thesis
      by (auto simp: al_wf_def nth_list_update split: if_splits)
  next
    case (present i)
    with assms show ?thesis by simp
  qed
qed

lemma AddSlot_total: "al_wf al \<Longrightarrow> \<exists>x y al'. AddSlot al a slot = Inr (x, y, al')"
  by (erule AddSlot_cases [where a = a and slot = slot]) auto

section \<open>The list as a set of addresses and a set of slots\<close>

definition al_addrs :: "accessList \<Rightarrow> address set" where
  "al_addrs al = dom (addresses al)"

definition al_pairs :: "accessList \<Rightarrow> (address \<times> hash) set" where
  "al_pairs al = {(a, s). \<exists>i. addresses al a = Some i \<and> i \<noteq> -1 \<and> s \<in> slots al ! nat i}"

lemma Contains_spec:
  "al_wf al \<Longrightarrow> Contains al a s = Inr (a \<in> al_addrs al, (a, s) \<in> al_pairs al)"
  by (auto simp: Contains_def al_addrs_def al_pairs_def split: option.split)

lemma ContainsAddress_spec: "ContainsAddress al a \<longleftrightarrow> a \<in> al_addrs al"
  by (auto simp: ContainsAddress_def al_addrs_def)

lemma AddAddress_spec:
  "fst (AddAddress al a) = (a \<notin> al_addrs al)"
  "al_addrs (snd (AddAddress al a)) = insert a (al_addrs al)"
  "al_pairs (snd (AddAddress al a)) = al_pairs al"
  by (auto simp: AddAddress_def al_addrs_def al_pairs_def split: if_splits)

lemma al_pairs_fresh:
  assumes wf: "al_wf al" and a: "addresses al a = None \<or> addresses al a = Some (-1)"
  shows "al_pairs (al\<lparr>addresses := (addresses al)(a \<mapsto> int (length (slots al))), slots := slots al @ [{s}]\<rparr>)
    = insert (a, s) (al_pairs al)"
proof -
  have "nat i < length (slots al)" if "addresses al b = Some i" "i \<noteq> -1" for b i
    using al_wfD [OF wf that] by simp
  then show ?thesis
    using a by (fastforce simp: al_pairs_def nth_append split: if_splits)
qed

lemma al_pairs_join:
  assumes wf: "al_wf al" and a: "addresses al a = Some i" "i \<noteq> -1"
  shows "al_pairs (al\<lparr>slots := (slots al)[nat i := insert s (slots al ! nat i)]\<rparr>) = insert (a, s) (al_pairs al)"
    (is "al_pairs ?al = _")
proof (rule set_eqI)
  fix p :: "address \<times> hash"
  obtain b t where p: "p = (b, t)" by (cases p)
  have i: "0 \<le> i" "nat i < length (slots al)" using al_wfD [OF wf a] by auto
  show "p \<in> al_pairs ?al \<longleftrightarrow> p \<in> insert (a, s) (al_pairs al)"
  proof (cases "b = a")
    case True
    with p a i show ?thesis by (simp add: al_pairs_def)
  next
    case False
    have "nat j \<noteq> nat i" if "addresses al b = Some j" "j \<noteq> -1" for j
      using that al_wfD(1) [OF wf that] i(1) al_wf_inj [OF wf a(1)] False a(2)
      by (metis eq_nat_nat_iff)
    with p False show ?thesis by (auto simp: al_pairs_def)
  qed
qed

lemma AddSlot_spec:
  assumes "al_wf al" and "AddSlot al a s = Inr (x, y, al')"
  shows "x = (a \<notin> al_addrs al)" "y = ((a, s) \<notin> al_pairs al)"
    and "al_addrs al' = insert a (al_addrs al)" "al_pairs al' = insert (a, s) (al_pairs al)"
proof -
  from assms(1) have "x = (a \<notin> al_addrs al) \<and> y = ((a, s) \<notin> al_pairs al)
    \<and> al_addrs al' = insert a (al_addrs al) \<and> al_pairs al' = insert (a, s) (al_pairs al)"
  proof (cases rule: AddSlot_cases [where a = a and slot = s])
    case fresh
    with assms al_pairs_fresh [OF assms(1) fresh(1), of s] show ?thesis
      by (auto simp: al_addrs_def al_pairs_def)
  next
    case (join i)
    with assms al_pairs_join [OF assms(1) join(1,2), of s] show ?thesis
      by (auto simp: al_addrs_def al_pairs_def)
  next
    case (present i)
    with assms show ?thesis by (auto simp: al_addrs_def al_pairs_def)
  qed
  then show "x = (a \<notin> al_addrs al)" "y = ((a, s) \<notin> al_pairs al)"
    "al_addrs al' = insert a (al_addrs al)" "al_pairs al' = insert (a, s) (al_pairs al)" by auto
qed

section \<open>Deletion undoes addition\<close>

lemma DeleteAddress_AddAddress: "AddAddress al a = (True, al') \<Longrightarrow> DeleteAddress al' a = al"
  by (auto simp: AddAddress_def DeleteAddress_def fun_upd_idem split: if_splits)

lemma DeleteSlot_AddSlot_eq:
  assumes "al_wf al" and "AddSlot al a s = Inr (x, True, al')"
  shows "DeleteSlot al' a s = Inr (if x then snd (AddAddress al a) else al)" and "x = (addresses al a = None)"
proof -
  have "DeleteSlot al' a s = Inr (if x then snd (AddAddress al a) else al) \<and> x = (addresses al a = None)"
    using assms(1)
  proof (cases rule: AddSlot_cases [where a = a and slot = s])
    case fresh
    with assms show ?thesis
      by (auto simp: DeleteSlot_def slotmap_at_def AddAddress_def nth_append fun_upd_idem)
  next
    case (join i)
    then have "insert s (slots al ! nat i) - {s} = slots al ! nat i" by blast
    with join assms show ?thesis by (simp add: DeleteSlot_def slotmap_at_def)
  next
    case (present i)
    with assms show ?thesis by simp
  qed
  then show "DeleteSlot al' a s = Inr (if x then snd (AddAddress al a) else al)" and "x = (addresses al a = None)"
    by blast+
qed

lemma DeleteSlot_AddSlot:
  assumes "al_wf al" and "AddSlot al a s = Inr (x, True, al')"
  shows "\<exists>al''. DeleteSlot al' a s = Inr al'' \<and> (if x then DeleteAddress al'' a else al'') = al"
  using DeleteSlot_AddSlot_eq [OF assms] by (auto simp: AddAddress_def DeleteAddress_def fun_upd_idem)

lemma AddSlot_no_change:
  "al_wf al \<Longrightarrow> AddSlot al a s = Inr (x, False, al') \<Longrightarrow> \<not> x \<and> al' = al"
  by (erule AddSlot_cases [where a = a and slot = s]) auto

section \<open>The interface the state databases rely on\<close>

text \<open>
  What \<open>StateDB\<close> uses of an access list: the list as two growing sets, and exact undo in the
  order the journal replays it.
\<close>

locale access_list_spec =
  fixes invar :: "'al \<Rightarrow> bool" and addrs :: "'al \<Rightarrow> address set" and pairs :: "'al \<Rightarrow> (address \<times> hash) set"
    and new :: 'al and addA :: "'al \<Rightarrow> address \<Rightarrow> bool \<times> 'al"
    and addS :: "'al \<Rightarrow> address \<Rightarrow> hash \<Rightarrow> panic + (bool \<times> bool \<times> 'al)"
    and delA :: "'al \<Rightarrow> address \<Rightarrow> 'al" and delS :: "'al \<Rightarrow> address \<Rightarrow> hash \<Rightarrow> panic + 'al"
  assumes new: "invar new" "addrs new = {}" "pairs new = {}"
    and addA: "invar al \<Longrightarrow> invar (snd (addA al a))" "fst (addA al a) = (a \<notin> addrs al)"
      "addrs (snd (addA al a)) = insert a (addrs al)" "pairs (snd (addA al a)) = pairs al"
    and addS_total: "invar al \<Longrightarrow> \<exists>x y al'. addS al a s = Inr (x, y, al')"
    and addS: "invar al \<Longrightarrow> addS al a s = Inr (x, y, al') \<Longrightarrow> invar al'"
      "invar al \<Longrightarrow> addS al a s = Inr (x, y, al') \<Longrightarrow> addrs al' = insert a (addrs al)"
      "invar al \<Longrightarrow> addS al a s = Inr (x, y, al') \<Longrightarrow> pairs al' = insert (a, s) (pairs al)"
    and undoA: "addA al a = (True, al') \<Longrightarrow> delA al' a = al"
    and undoS: "invar al \<Longrightarrow> addS al a s = Inr (x, True, al') \<Longrightarrow>
      \<exists>al''. delS al' a s = Inr al'' \<and> (if x then delA al'' a else al'') = al"
begin

lemma fold_addA:
  "invar al \<Longrightarrow> invar (foldl (\<lambda>al a. snd (addA al a)) al as)
    \<and> addrs (foldl (\<lambda>al a. snd (addA al a)) al as) = addrs al \<union> set as
    \<and> pairs (foldl (\<lambda>al a. snd (addA al a)) al as) = pairs al"
  by (induction as arbitrary: al) (auto simp: addA)

text \<open>One entry of a transaction's access list: the address, then its storage keys.\<close>

lemma fold_addS:
  assumes "invar al"
  shows "\<exists>al'. foldE (\<lambda>al k. case addS al a k of Inl p \<Rightarrow> Inl p | Inr (_, _, al') \<Rightarrow> Inr al') al ks = Inr al'
    \<and> invar al' \<and> addrs al' = addrs al \<union> (if ks = [] then {} else {a})
    \<and> pairs al' = pairs al \<union> {a} \<times> set ks"
  using assms
proof (induction ks arbitrary: al)
  case (Cons k ks)
  obtain x y al1 where s: "addS al a k = Inr (x, y, al1)" using addS_total [OF Cons.prems] by blast
  with addS [OF Cons.prems s] Cons.IH [of al1] show ?case by auto
qed simp

end

interpretation acl: access_list_spec al_wf al_addrs al_pairs newAccessList AddAddress AddSlot
  DeleteAddress DeleteSlot
proof unfold_locales
  show "al_addrs newAccessList = {}" "al_pairs newAccessList = {}"
    by (simp_all add: al_addrs_def al_pairs_def newAccessList_def)
qed (auto intro: wf_intros simp: AddAddress_spec AddSlot_spec AddSlot_total
    DeleteAddress_AddAddress DeleteSlot_AddSlot)

section \<open>Properties\<close>

text \<open>C29: On a well-formed access list \<open>AddSlot\<close> never panics, keeps the list well formed, makes
  exactly the given address and slot warm, reports exactly the memberships it created, and
  \<open>Contains\<close> answers membership in the resulting sets for every address and slot.\<close>

theorem AddSlot_refines_sets:
  assumes "al_wf al"
  shows "\<exists>al'. AddSlot al a s = Inr (a \<notin> al_addrs al, (a, s) \<notin> al_pairs al, al') \<and> al_wf al'
    \<and> (\<forall>b t. Contains al' b t =
          Inr (b = a \<or> b \<in> al_addrs al, (b, t) = (a, s) \<or> (b, t) \<in> al_pairs al))"
proof -
  obtain x y al' where add: "AddSlot al a s = Inr (x, y, al')" using AddSlot_total [OF assms] by blast
  then have "al_wf al'" using assms by (rule al_wf_AddSlot [rotated])
  then show ?thesis using AddSlot_spec [OF assms add] add by (auto simp: Contains_spec)
qed

theorem AddSlot_refines_sets_witness:
  "al_wf newAccessList \<and>
   (\<exists>al'. AddSlot newAccessList 7 9
        = Inr (7 \<notin> al_addrs newAccessList, (7, 9) \<notin> al_pairs newAccessList, al') \<and> al_wf al'
    \<and> (\<forall>b t. Contains al' b t =
          Inr (b = 7 \<or> b \<in> al_addrs newAccessList, (b, t) = (7, 9) \<or> (b, t) \<in> al_pairs newAccessList)))"
  using AddSlot_refines_sets [OF al_wf_new, of 7 9] al_wf_new by blast

text \<open>C30: Reverting in journal order undoes the access list exactly: after an \<open>AddSlot\<close> that
  changed something, \<open>DeleteSlot\<close> (followed by \<open>DeleteAddress\<close> when the address was new too)
  gives back the very same list, and after an effective \<open>AddAddress\<close> so does \<open>DeleteAddress\<close>.\<close>

theorem access_list_undo:
  assumes "al_wf al"
  shows "(AddAddress al a = (True, al1) \<longrightarrow> DeleteAddress al1 a = al) \<and>
    (AddSlot al a s = Inr (x, True, al2) \<longrightarrow>
      (\<exists>al3. DeleteSlot al2 a s = Inr al3 \<and> (if x then DeleteAddress al3 a else al3) = al))"
  using acl.undoA acl.undoS [OF assms] by blast

theorem access_list_undo_witness:
  "al_wf newAccessList \<and>
   DeleteAddress (snd (AddAddress newAccessList 7)) 7 = newAccessList \<and>
   (\<exists>al3. DeleteSlot \<lparr>addresses = [7 \<mapsto> 0], slots = [{9}]\<rparr> 7 9 = Inr al3 \<and> DeleteAddress al3 7 = newAccessList)"
proof -
  have a: "AddAddress newAccessList 7 = (True, snd (AddAddress newAccessList 7))"
    by (simp add: AddAddress_def newAccessList_def)
  have b: "AddSlot newAccessList 7 9 = Inr (True, True, \<lparr>addresses = [7 \<mapsto> 0], slots = [{9}]\<rparr>)"
    by (simp add: AddSlot_def newAccessList_def)
  show ?thesis using access_list_undo [OF al_wf_new] a b al_wf_new by fastforce
qed

end
