(* ===== verification/TransientStorage.thy ===== *)
theory TransientStorage
  imports Prelude
begin

text \<open>
  \<open>trie_by_cid/state/transient_storage.go\<close>, EIP-1153 transient storage (the copy in
  \<open>direct_by_leaf/transient_storage.go\<close> has the same code): a map of per-account maps, and the
  \<open>Storage\<close> type of \<open>state_object.go\<close> it is built from.
\<close>

type_synonym Storage = "hash \<rightharpoonup> hash"

text \<open>A missing key of a Go map reads as the zero value.\<close>

definition storage_at :: "Storage \<Rightarrow> hash \<Rightarrow> hash" where
  "storage_at m k = (case m k of None \<Rightarrow> 0 | Some v \<Rightarrow> v)"

definition Storage_Copy :: "Storage \<Rightarrow> Storage" where
  "Storage_Copy s = (\<lambda>key. case s key of None \<Rightarrow> None | Some v \<Rightarrow> Some v)"

type_synonym transientStorage = "address \<rightharpoonup> Storage"

definition newTransientStorage :: transientStorage where
  "newTransientStorage = Map.empty"

definition Set :: "transientStorage \<Rightarrow> address \<Rightarrow> hash \<Rightarrow> hash \<Rightarrow> transientStorage" where
  "Set t a key v =
     (let t' = (if t a = None then t(a \<mapsto> Map.empty) else t)
      in t'(a \<mapsto> (the (t' a))(key \<mapsto> v)))"

definition Get :: "transientStorage \<Rightarrow> address \<Rightarrow> hash \<Rightarrow> hash" where
  "Get t a key = (case t a of None \<Rightarrow> 0 | Some m \<Rightarrow> storage_at m key)"

definition transient_Copy :: "transientStorage \<Rightarrow> transientStorage" where
  "transient_Copy t = (\<lambda>key. map_option Storage_Copy (t key))"

lemma storage_at_upd [simp]: "storage_at (m(k \<mapsto> v)) j = (if j = k then v else storage_at m j)"
  by (simp add: storage_at_def)

lemma Get_new [simp]: "Get newTransientStorage a k = 0"
  by (simp add: Get_def newTransientStorage_def)

lemma Get_Set [simp]: "Get (Set t a k v) b j = (if b = a \<and> j = k then v else Get t b j)"
  by (auto simp: Get_def Set_def Let_def storage_at_def split: option.splits)

lemma Storage_Copy_id [simp]: "Storage_Copy s = s"
  by (rule ext) (simp add: Storage_Copy_def split: option.split)

lemma transient_Copy_id [simp]: "transient_Copy t = t"
  by (rule ext) (simp add: transient_Copy_def map_option_idI)

end
