(* ===== verification/Journal.thy ===== *)
theory Journal
  imports Prelude
begin

text \<open>
  The journal of state modifications, \<open>journal.go\<close> of both state packages: the entry types
  (the same fourteen structs in both), which address an entry dirties, and the journal with
  its count of changes per dirty address. A \<open>resetObjectChange\<close> holds the replaced object;
  the objects of the two packages differ, so entries take the object type as a parameter.
  How an entry is reverted depends on the state and is defined with it; the generic
  argument that replaying a log backwards undoes what was logged is the locale
  \<open>undo_log\<close> here.
\<close>

datatype 'o journalEntry =
    createObjectChange address
  | resetObjectChange 'o bool
  | suicideChange address bool int
  | balanceChange address int
  | nonceChange address u64
  | storageChange address hash hash
  | codeChange address "bytes option" bytes
  | refundChange u64
  | addLogChange hash
  | addPreimageChange hash
  | touchChange address
  | accessListAddAccountChange address
  | accessListAddSlotChange address hash
  | transientStorageChange address hash hash

fun dirtied :: "'o journalEntry \<Rightarrow> address option" where
  "dirtied (createObjectChange a) = Some a"
| "dirtied (resetObjectChange _ _) = None"
| "dirtied (suicideChange a _ _) = Some a"
| "dirtied (balanceChange a _) = Some a"
| "dirtied (nonceChange a _) = Some a"
| "dirtied (storageChange a _ _) = Some a"
| "dirtied (codeChange a _ _) = Some a"
| "dirtied (refundChange _) = None"
| "dirtied (addLogChange _) = None"
| "dirtied (addPreimageChange _) = None"
| "dirtied (touchChange a) = Some a"
| "dirtied (accessListAddAccountChange _) = None"
| "dirtied (accessListAddSlotChange _ _) = None"
| "dirtied (transientStorageChange _ _ _) = None"

definition ripemd :: address where
  "ripemd = 3"

record 'o journal =
  entries :: "'o journalEntry list"
  dirties :: "address \<rightharpoonup> int"

definition newJournal :: "'o journal" where
  "newJournal = \<lparr>entries = [], dirties = Map.empty\<rparr>"

text \<open>\<open>m[k]++\<close> on a Go map: a missing key counts from zero.\<close>

definition incr :: "(address \<rightharpoonup> int) \<Rightarrow> address \<Rightarrow> (address \<rightharpoonup> int)" where
  "incr m a = m(a \<mapsto> (case m a of None \<Rightarrow> 0 | Some n \<Rightarrow> n) + 1)"

definition append :: "'o journal \<Rightarrow> 'o journalEntry \<Rightarrow> 'o journal" where
  "append j entry =
     (let j' = j\<lparr>entries := entries j @ [entry]\<rparr>
      in case dirtied entry of
           None \<Rightarrow> j'
         | Some a \<Rightarrow> j'\<lparr>dirties := incr (dirties j') a\<rparr>)"

definition dirty :: "'o journal \<Rightarrow> address \<Rightarrow> 'o journal" where
  "dirty j a = j\<lparr>dirties := incr (dirties j) a\<rparr>"

definition journal_length :: "'o journal \<Rightarrow> nat" where
  "journal_length j = length (entries j)"

text \<open>
  The dirty bookkeeping of one iteration of \<open>journal.revert\<close>:
  \<open>if j.dirties[*addr]--; j.dirties[*addr] == 0 { delete(j.dirties, *addr) }\<close>.
\<close>

definition undirty :: "'o journalEntry \<Rightarrow> 'o journal \<Rightarrow> 'o journal" where
  "undirty entry j =
     (case dirtied entry of
        None \<Rightarrow> j
      | Some a \<Rightarrow>
          (let n = (case dirties j a of None \<Rightarrow> 0 | Some n \<Rightarrow> n) - 1
           in if n = 0 then j\<lparr>dirties := (dirties j)(a := None)\<rparr>
              else j\<lparr>dirties := (dirties j)(a \<mapsto> n)\<rparr>))"

section \<open>Counting changes\<close>

text \<open>
  The invariant of \<open>dirties\<close>: it counts, for every address, the entries that dirty it.
  \<open>ripemd\<close> is the exception the code makes on purpose: \<open>dirty\<close> counts it once more, so
  its count may exceed its entries.
\<close>

definition change_count :: "'o journalEntry list \<Rightarrow> address \<Rightarrow> nat" where
  "change_count es a = length (filter (\<lambda>e. dirtied e = Some a) es)"

definition counts_ok :: "(address \<rightharpoonup> int) \<Rightarrow> 'o journalEntry list \<Rightarrow> bool" where
  "counts_ok d es \<longleftrightarrow>
     (\<forall>a. a \<noteq> ripemd \<longrightarrow> d a = (if change_count es a = 0 then None else Some (int (change_count es a)))) \<and>
     (case d ripemd of None \<Rightarrow> change_count es ripemd = 0
      | Some n \<Rightarrow> 0 < n \<and> int (change_count es ripemd) \<le> n)"

definition journal_wf :: "'o journal \<Rightarrow> bool" where
  "journal_wf j \<longleftrightarrow> counts_ok (dirties j) (entries j)"

lemma change_count_simps [simp]:
  "change_count [] a = 0"
  "change_count (es @ fs) a = change_count es a + change_count fs a"
  "change_count [e] a = (if dirtied e = Some a then 1 else 0)"
  by (simp_all add: change_count_def)

lemma entries_append [simp]: "entries (append j e) = entries j @ [e]"
  by (simp add: append_def Let_def split: option.split)

lemma entries_dirty [simp]: "entries (dirty j a) = entries j"
  by (simp add: dirty_def)

lemma entries_undirty [simp]: "entries (undirty e j) = entries j"
  by (simp add: undirty_def Let_def split: option.split)

lemma entries_newJournal [simp]: "entries newJournal = []"
  by (simp add: newJournal_def)

lemma dirties_append:
  "dirties (append j e) = (case dirtied e of None \<Rightarrow> dirties j | Some a \<Rightarrow> incr (dirties j) a)"
  by (simp add: append_def Let_def split: option.split)

lemma journal_wf_new [wf_intros]: "journal_wf newJournal"
  by (simp add: journal_wf_def counts_ok_def newJournal_def)

lemma journal_wf_append [wf_intros]: "journal_wf j \<Longrightarrow> journal_wf (append j e)"
  unfolding journal_wf_def counts_ok_def dirties_append entries_append
  by (cases "dirtied e") (auto simp: incr_def split: option.splits)

lemma journal_wf_dirty [wf_intros]: "journal_wf j \<Longrightarrow> journal_wf (dirty j ripemd)"
  by (auto simp: journal_wf_def counts_ok_def dirty_def incr_def split: option.splits)

text \<open>Reverting the last entry takes back what counting it added.\<close>

lemma counts_ok_undirty:
  "counts_ok (dirties j) (es @ [e]) \<Longrightarrow> counts_ok (dirties (undirty e j)) es"
  by (cases "dirtied e") (auto simp: counts_ok_def undirty_def Let_def split: option.splits if_splits)

definition journal_revert :: "nat \<Rightarrow> 'o journal \<Rightarrow> 'o journal" where
  "journal_revert snapshot j =
     (foldl (\<lambda>j e. undirty e j) j (rev (drop snapshot (entries j))))
       \<lparr>entries := take snapshot (entries j)\<rparr>"

lemma counts_ok_revert:
  "counts_ok (dirties j) (es @ fs) \<Longrightarrow> counts_ok (dirties (foldl (\<lambda>j e. undirty e j) j (rev fs))) es"
  by (induction fs arbitrary: j rule: rev_induct)
    (auto simp flip: append_assoc dest: counts_ok_undirty)

lemma entries_foldl_undirty: "entries (foldl (\<lambda>j e. undirty e j) j es) = entries j"
  by (induction es arbitrary: j) auto

lemma entries_journal_revert [simp]: "entries (journal_revert n j) = take n (entries j)"
  by (simp add: journal_revert_def)

lemma journal_wf_revert [wf_intros]: "journal_wf j \<Longrightarrow> journal_wf (journal_revert n j)"
  using counts_ok_revert [of j "take n (entries j)" "drop n (entries j)"]
  by (simp add: journal_wf_def journal_revert_def)

lemma journal_wf_dirties_eq:
  "journal_wf j \<Longrightarrow> journal_wf k \<Longrightarrow> entries j = entries k \<Longrightarrow> a \<noteq> ripemd \<Longrightarrow> dirties j a = dirties k a"
  by (simp add: journal_wf_def counts_ok_def)

section \<open>Replaying a log backwards\<close>

text \<open>
  The part of the snapshot argument that does not depend on what the entries are. \<open>undo\<close>
  takes one entry back on an abstract state, \<open>good\<close> is what every state on the way must
  satisfy. \<open>undoes es w w0\<close> says that undoing \<open>es\<close>, its last entry first, from \<open>w\<close> succeeds,
  passes through good states only and ends in \<open>w0\<close>.
\<close>

locale undo_log =
  fixes undo :: "'e \<Rightarrow> 'w \<Rightarrow> panic + 'w" and good :: "'w \<Rightarrow> bool"
begin

fun undoes_rev :: "'e list \<Rightarrow> 'w \<Rightarrow> 'w \<Rightarrow> bool" where
  "undoes_rev [] w w0 \<longleftrightarrow> w = w0"
| "undoes_rev (e # es) w w0 \<longleftrightarrow> (\<exists>w'. undo e w = Inr w' \<and> good w' \<and> undoes_rev es w' w0)"

definition undoes :: "'e list \<Rightarrow> 'w \<Rightarrow> 'w \<Rightarrow> bool" where
  "undoes es w w0 \<longleftrightarrow> undoes_rev (rev es) w w0"

lemma undoes_rev_append:
  "undoes_rev (es @ fs) w w0 \<longleftrightarrow> (\<exists>w1. undoes_rev es w w1 \<and> undoes_rev fs w1 w0)"
  by (induction es arbitrary: w) auto

lemma undoes_Nil [simp]: "undoes [] w w0 \<longleftrightarrow> w = w0"
  by (simp add: undoes_def)

lemma undoes_single: "undoes [e] w w0 \<longleftrightarrow> undo e w = Inr w0 \<and> good w0"
  by (auto simp: undoes_def)

lemma undoes_append: "undoes (es @ fs) w2 w0 \<longleftrightarrow> (\<exists>w1. undoes fs w2 w1 \<and> undoes es w1 w0)"
  by (simp add: undoes_def undoes_rev_append)

lemma undoes_trans: "undoes fs w2 w1 \<Longrightarrow> undoes es w1 w0 \<Longrightarrow> undoes (es @ fs) w2 w0"
  by (auto simp: undoes_append)

lemma undoes_rev_fold: "undoes_rev es w w0 \<Longrightarrow> foldE (\<lambda>w e. undo e w) w es = Inr w0"
  by (induction es arbitrary: w) auto

lemma undoes_fold: "undoes es w w0 \<Longrightarrow> foldE (\<lambda>w e. undo e w) w (rev es) = Inr w0"
  by (simp add: undoes_def undoes_rev_fold)

lemma undoes_functional: "undoes es w u \<Longrightarrow> undoes es w v \<Longrightarrow> u = v"
  by (metis Inr_inject undoes_fold)

lemma undoes_good: "undoes es w w0 \<Longrightarrow> es \<noteq> [] \<Longrightarrow> good w0"
  by (induction es arbitrary: w rule: rev_induct)
    (auto simp: undoes_append undoes_single, metis undoes_Nil)

text \<open>Undoing a whole log stops at every earlier length on the way.\<close>

lemma undoes_drop:
  assumes "undoes es w w0" and "n \<le> length es"
  obtains w1 where "undoes (drop n es) w w1" "undoes (take n es) w1 w0"
  using assms by (metis append_take_drop_id undoes_append)

end

end
