(* ===== verification/StateCommon.thy ===== *)
theory StateCommon
  imports AccessList TransientStorage Journal
begin

text \<open>
  What the two \<open>StateDB\<close> packages have in common: accounts, logs, the fields of a state
  object and of a \<open>StateDB\<close> that both declare, and the operations whose code is the same in
  both and does not touch state objects (logs, preimages, the refund counter, the access
  list, transient storage, transaction context, snapshots, \<open>Prepare\<close>). The source lines
  are those of \<open>trie_by_cid/state\<close>. Timing and metrics fields are left out.
\<close>

section \<open>Accounts, logs, state objects\<close>

text \<open>
  \<open>types.StateAccount\<close>. As an argument of \<open>newObject\<close> its balance and code hash may be nil
  (\<open>rawAccount\<close>); \<open>newObject\<close> replaces both, so the account inside an object has them.
\<close>

record rawAccount =
  raw_Nonce :: u64
  raw_Balance :: "int option"
  raw_Root :: hash
  raw_CodeHash :: "bytes option"

record StateAccount =
  Nonce :: u64
  Balance :: int
  Root :: hash
  CodeHash :: bytes

definition emptyStateAccount :: rawAccount where
  "emptyStateAccount = \<lparr>raw_Nonce = 0, raw_Balance = None, raw_Root = 0, raw_CodeHash = None\<rparr>"

record Log =
  log_Address :: address
  log_Topics :: "hash list"
  log_Data :: bytes
  log_BlockNumber :: u64
  log_TxHash :: hash
  log_TxIndex :: u64
  log_BlockHash :: hash
  log_Index :: u64

text \<open>
  The fields of \<open>stateObject\<close> both packages declare. \<open>code\<close> is a slice that may be nil.
\<close>

record stateObject =
  address :: address
  addrHash :: hash
  data :: StateAccount
  code :: "bytes option"
  originStorage :: Storage
  pendingStorage :: Storage
  dirtyStorage :: Storage
  dirtyCode :: bool
  suicided :: bool
  deleted :: bool

definition setBalance :: "('z stateObject_scheme) \<Rightarrow> int \<Rightarrow> 'z stateObject_scheme" where
  "setBalance so amount = so\<lparr>data := (data so)\<lparr>Balance := amount\<rparr>\<rparr>"

definition setNonce :: "('z stateObject_scheme) \<Rightarrow> u64 \<Rightarrow> 'z stateObject_scheme" where
  "setNonce so nonce = so\<lparr>data := (data so)\<lparr>Nonce := nonce\<rparr>\<rparr>"

definition setCode :: "('z stateObject_scheme) \<Rightarrow> hash \<Rightarrow> bytes option \<Rightarrow> 'z stateObject_scheme" where
  "setCode so codeHash c =
     so\<lparr>code := c, data := (data so)\<lparr>CodeHash := hash_bytes codeHash\<rparr>, dirtyCode := True\<rparr>"

definition setState :: "('z stateObject_scheme) \<Rightarrow> hash \<Rightarrow> hash \<Rightarrow> 'z stateObject_scheme" where
  "setState so key v = so\<lparr>dirtyStorage := (dirtyStorage so)(key \<mapsto> v)\<rparr>"

definition markSuicided :: "('z stateObject_scheme) \<Rightarrow> 'z stateObject_scheme" where
  "markSuicided so = so\<lparr>suicided := True\<rparr>"

section \<open>The state database\<close>

datatype revision = Revision (rev_id: int) (journalIndex: nat)

record 'o StateDB =
  stateObjects :: "address \<rightharpoonup> 'o"
  stateObjectsPending :: "address set"
  stateObjectsDirty :: "address set"
  stateObjectsDestruct :: "address set"
  dbErr :: "goerr option"
  refund :: u64
  thash :: hash
  txIndex :: int
  logs :: "hash \<rightharpoonup> Log list"
  logSize :: u64
  preimages :: "hash \<rightharpoonup> bytes"
  accList :: accessList
  transient :: transientStorage
  journal :: "'o journal"
  validRevisions :: "revision list"
  nextRevisionId :: int

text \<open>\<open>s.journal.append(entry)\<close>.\<close>

definition journal_append ::
    "('o, 'z) StateDB_scheme \<Rightarrow> 'o journalEntry \<Rightarrow> ('o, 'z) StateDB_scheme" where
  "journal_append s e = s\<lparr>journal := append (journal s) e\<rparr>"

definition setError :: "('o, 'z) StateDB_scheme \<Rightarrow> goerr \<Rightarrow> ('o, 'z) StateDB_scheme" where
  "setError s e = (if dbErr s = None then s\<lparr>dbErr := Some e\<rparr> else s)"

definition Error :: "('o, 'z) StateDB_scheme \<Rightarrow> goerr option" where
  "Error s = dbErr s"

definition logs_at :: "(hash \<rightharpoonup> Log list) \<Rightarrow> hash \<Rightarrow> Log list" where
  "logs_at m h = (case m h of None \<Rightarrow> [] | Some l \<Rightarrow> l)"

definition AddLog :: "('o, 'z) StateDB_scheme \<Rightarrow> Log \<Rightarrow> ('o, 'z) StateDB_scheme" where
  "AddLog s l =
     (let s1 = journal_append s (addLogChange (thash s));
          l' = l\<lparr>log_TxHash := thash s1, log_TxIndex := word_of_int (txIndex s1), log_Index := logSize s1\<rparr>
      in s1\<lparr>logs := (logs s1)(thash s1 \<mapsto> logs_at (logs s1) (thash s1) @ [l']),
            logSize := logSize s1 + 1\<rparr>)"

definition GetLogs ::
    "('o, 'z) StateDB_scheme \<Rightarrow> hash \<Rightarrow> u64 \<Rightarrow> hash \<Rightarrow> Log list \<times> ('o, 'z) StateDB_scheme" where
  "GetLogs s h blockNumber blockHash =
     (case logs s h of
        None \<Rightarrow> ([], s)
      | Some ls \<Rightarrow>
          (let ls' = map (\<lambda>l. l\<lparr>log_BlockNumber := blockNumber, log_BlockHash := blockHash\<rparr>) ls
           in (ls', s\<lparr>logs := (logs s)(h \<mapsto> ls')\<rparr>)))"

definition AddPreimage :: "('o, 'z) StateDB_scheme \<Rightarrow> hash \<Rightarrow> bytes \<Rightarrow> ('o, 'z) StateDB_scheme" where
  "AddPreimage s h preimage =
     (if preimages s h = None
      then let s1 = journal_append s (addPreimageChange h)
           in s1\<lparr>preimages := (preimages s1)(h \<mapsto> preimage)\<rparr>
      else s)"

definition AddRefund :: "('o, 'z) StateDB_scheme \<Rightarrow> u64 \<Rightarrow> ('o, 'z) StateDB_scheme" where
  "AddRefund s gas =
     (let s1 = journal_append s (refundChange (refund s)) in s1\<lparr>refund := refund s1 + gas\<rparr>)"

definition SubRefund :: "('o, 'z) StateDB_scheme \<Rightarrow> u64 \<Rightarrow> panic + ('o, 'z) StateDB_scheme" where
  "SubRefund s gas =
     (let s1 = journal_append s (refundChange (refund s))
      in if gas > refund s1 then Inl (RefundBelowZero gas (refund s1))
         else Inr (s1\<lparr>refund := refund s1 - gas\<rparr>))"

definition GetRefund :: "('o, 'z) StateDB_scheme \<Rightarrow> u64" where
  "GetRefund s = refund s"

definition TxIndex :: "('o, 'z) StateDB_scheme \<Rightarrow> int" where
  "TxIndex s = txIndex s"

definition setTransientState ::
    "('o, 'z) StateDB_scheme \<Rightarrow> address \<Rightarrow> hash \<Rightarrow> hash \<Rightarrow> ('o, 'z) StateDB_scheme" where
  "setTransientState s a key v = s\<lparr>transient := Set (transient s) a key v\<rparr>"

definition GetTransientState :: "('o, 'z) StateDB_scheme \<Rightarrow> address \<Rightarrow> hash \<Rightarrow> hash" where
  "GetTransientState s a key = Get (transient s) a key"

definition SetTransientState ::
    "('o, 'z) StateDB_scheme \<Rightarrow> address \<Rightarrow> hash \<Rightarrow> hash \<Rightarrow> ('o, 'z) StateDB_scheme" where
  "SetTransientState s a key v =
     (let prev = GetTransientState s a key
      in if prev = v then s
         else setTransientState (journal_append s (transientStorageChange a key prev)) a key v)"

definition SetTxContext :: "('o, 'z) StateDB_scheme \<Rightarrow> hash \<Rightarrow> int \<Rightarrow> ('o, 'z) StateDB_scheme" where
  "SetTxContext s h ti = s\<lparr>thash := h, txIndex := ti\<rparr>"

definition clearJournalAndRefund :: "('o, 'z) StateDB_scheme \<Rightarrow> ('o, 'z) StateDB_scheme" where
  "clearJournalAndRefund s =
     (let s1 = (if length (entries (journal s)) > 0 then s\<lparr>journal := newJournal, refund := 0\<rparr> else s)
      in s1\<lparr>validRevisions := []\<rparr>)"

section \<open>Access list operations\<close>

definition AddAddressToAccessList :: "('o, 'z) StateDB_scheme \<Rightarrow> address \<Rightarrow> ('o, 'z) StateDB_scheme" where
  "AddAddressToAccessList s a =
     (let (added, al) = AddAddress (accList s) a;
          s1 = s\<lparr>accList := al\<rparr>
      in if added then journal_append s1 (accessListAddAccountChange a) else s1)"

definition AddSlotToAccessList ::
    "('o, 'z) StateDB_scheme \<Rightarrow> address \<Rightarrow> hash \<Rightarrow> panic + ('o, 'z) StateDB_scheme" where
  "AddSlotToAccessList s a slot =
     (case AddSlot (accList s) a slot of
        Inl p \<Rightarrow> Inl p
      | Inr (addrMod, slotMod, al) \<Rightarrow>
          (let s1 = s\<lparr>accList := al\<rparr>;
               s2 = (if addrMod then journal_append s1 (accessListAddAccountChange a) else s1);
               s3 = (if slotMod then journal_append s2 (accessListAddSlotChange a slot) else s2)
           in Inr s3))"

definition AddressInAccessList :: "('o, 'z) StateDB_scheme \<Rightarrow> address \<Rightarrow> bool" where
  "AddressInAccessList s a = ContainsAddress (accList s) a"

definition SlotInAccessList :: "('o, 'z) StateDB_scheme \<Rightarrow> address \<Rightarrow> hash \<Rightarrow> panic + (bool \<times> bool)" where
  "SlotInAccessList s a slot = Contains (accList s) a slot"

text \<open>
  \<open>params.Rules\<close> is used for two flags; an entry of \<open>types.AccessList\<close> is an address and
  its storage keys.
\<close>

record Rules =
  IsBerlin :: bool
  IsShanghai :: bool

record AccessTuple =
  tuple_Address :: address
  tuple_StorageKeys :: "hash list"

definition prepareTuple :: "accessList \<Rightarrow> AccessTuple \<Rightarrow> panic + accessList" where
  "prepareTuple al el =
     foldE (\<lambda>al key. case AddSlot al (tuple_Address el) key of Inl p \<Rightarrow> Inl p | Inr (_, _, al') \<Rightarrow> Inr al')
       (snd (AddAddress al (tuple_Address el))) (tuple_StorageKeys el)"

definition Prepare ::
    "('o, 'z) StateDB_scheme \<Rightarrow> Rules \<Rightarrow> address \<Rightarrow> address \<Rightarrow> address option \<Rightarrow> address list
       \<Rightarrow> AccessTuple list \<Rightarrow> panic + ('o, 'z) StateDB_scheme" where
  "Prepare s rules sender coinbase dst precompiles lst =
     (if IsBerlin rules then
        (let al0 = newAccessList;
             al1 = snd (AddAddress al0 sender);
             al2 = (case dst of None \<Rightarrow> al1 | Some d \<Rightarrow> snd (AddAddress al1 d));
             al3 = foldl (\<lambda>al a. snd (AddAddress al a)) al2 precompiles
         in case foldE prepareTuple al3 lst of
              Inl p \<Rightarrow> Inl p
            | Inr al4 \<Rightarrow>
                (let al5 = (if IsShanghai rules then snd (AddAddress al4 coinbase) else al4)
                 in Inr (s\<lparr>accList := al5, transient := newTransientStorage\<rparr>)))
      else Inr (s\<lparr>transient := newTransientStorage\<rparr>))"

section \<open>Snapshots\<close>

definition Snapshot :: "('o, 'z) StateDB_scheme \<Rightarrow> int \<times> ('o, 'z) StateDB_scheme" where
  "Snapshot s =
     (let rid = nextRevisionId s
      in (rid, s\<lparr>nextRevisionId := rid + 1,
                 validRevisions := validRevisions s @ [Revision rid (journal_length (journal s))]\<rparr>))"

text \<open>
  The first half of \<open>RevertToSnapshot\<close>: find the revision by binary search. The index found
  and its journal position, or the panic.
\<close>

definition findRevision :: "('o, 'z) StateDB_scheme \<Rightarrow> int \<Rightarrow> panic + (nat \<times> nat)" where
  "findRevision s revid =
     (let n = length (validRevisions s);
          idx = sort_Search n (\<lambda>i. rev_id (validRevisions s ! i) \<ge> revid)
      in if idx = n \<or> rev_id (validRevisions s ! idx) \<noteq> revid
         then Inl (RevisionCannotBeReverted revid)
         else Inr (idx, journalIndex (validRevisions s ! idx)))"

section \<open>The invariant of the revisions\<close>

text \<open>
  Both packages keep \<open>validRevisions\<close> sorted by id and by journal position, which is what the
  binary search of \<open>RevertToSnapshot\<close> needs.
\<close>

definition revisions_wf :: "('o, 'z) StateDB_scheme \<Rightarrow> bool" where
  "revisions_wf s \<longleftrightarrow>
     sorted_wrt (\<lambda>r q. rev_id r < rev_id q \<and> journalIndex r \<le> journalIndex q) (validRevisions s)
     \<and> (\<forall>r \<in> set (validRevisions s). rev_id r < nextRevisionId s
          \<and> journalIndex r \<le> length (entries (journal s)))"


lemma revisions_less:
  "revisions_wf s \<Longrightarrow> i < j \<Longrightarrow> j < length (validRevisions s) \<Longrightarrow>
   rev_id (validRevisions s ! i) < rev_id (validRevisions s ! j)"
  by (simp add: revisions_wf_def sorted_wrt_iff_nth_less)

lemma revisions_search_mono:
  assumes "revisions_wf s" "a \<le> b" "b < length (validRevisions s)" "i \<le> rev_id (validRevisions s ! a)"
  shows "i \<le> rev_id (validRevisions s ! b)"
  using revisions_less [OF assms(1), of a b] assms by (cases "a = b") auto

lemma findRevision_ok:
  assumes "revisions_wf s" and "validRevisions s = rs @ r # qs"
  shows "findRevision s (rev_id r) = Inr (length rs, journalIndex r)"
proof -
  have "sort_Search (length (validRevisions s)) (\<lambda>i. rev_id (validRevisions s ! i) \<ge> rev_id r) = length rs"
  proof (rule sort_Search_eqI)
    fix k assume "k < length rs"
    then show "\<not> rev_id r \<le> rev_id (validRevisions s ! k)"
      using revisions_less [OF assms(1), of k "length rs"] assms(2) by simp
  next
    fix a b assume "a \<le> b" "b < length (validRevisions s)" "rev_id r \<le> rev_id (validRevisions s ! a)"
    then show "rev_id r \<le> rev_id (validRevisions s ! b)" by (rule revisions_search_mono [OF assms(1)])
  qed (use assms(2) in auto)
  then show ?thesis by (simp add: findRevision_def assms(2) nth_append)
qed

lemma findRevision_Inr:
  assumes "revisions_wf s" and "findRevision s i = Inr (idx, n)"
  obtains rs qs where "validRevisions s = rs @ Revision i n # qs" "length rs = idx"
proof -
  have "sort_Search (length (validRevisions s)) (\<lambda>k. rev_id (validRevisions s ! k) \<ge> i) \<le> length (validRevisions s)"
    by (rule sort_Search_least(1)) (rule revisions_search_mono [OF assms(1)])
  with assms(2) have "idx < length (validRevisions s)" "validRevisions s ! idx = Revision i n"
    by (auto simp: findRevision_def Let_def revision.expand split: if_splits)
  then show ?thesis using id_take_nth_drop that by (metis length_take min.absorb4)
qed

lemma findRevision_unknown:
  assumes "revisions_wf s" and "\<forall>r \<in> set (validRevisions s). rev_id r \<noteq> i"
  shows "findRevision s i = Inl (RevisionCannotBeReverted i)"
proof (cases "findRevision s i")
  case (Inr p)
  then obtain idx n where "findRevision s i = Inr (idx, n)" by (cases p) auto
  then show ?thesis using findRevision_Inr [OF assms(1)] assms(2) by fastforce
qed (auto simp: findRevision_def Let_def split: if_splits)

section \<open>Preparing a transaction\<close>

lemma prepareTuple_ok:
  assumes "al_wf al"
  shows "\<exists>al'. prepareTuple al el = Inr al' \<and> al_wf al' \<and> al_addrs al' = insert (tuple_Address el) (al_addrs al)
    \<and> al_pairs al' = al_pairs al \<union> {tuple_Address el} \<times> set (tuple_StorageKeys el)"
  using acl.fold_addS [OF al_wf_AddAddress [OF assms], of "tuple_Address el" "tuple_Address el" "tuple_StorageKeys el"]
  by (auto simp: prepareTuple_def AddAddress_spec)

lemma prepareTuples_ok:
  assumes "al_wf al"
  shows "\<exists>al'. foldE prepareTuple al lst = Inr al' \<and> al_wf al' \<and> al_addrs al' = al_addrs al \<union> tuple_Address ` set lst
    \<and> al_pairs al' = al_pairs al \<union> (\<Union>el \<in> set lst. {tuple_Address el} \<times> set (tuple_StorageKeys el))"
  using assms
proof (induction lst arbitrary: al)
  case (Cons el lst)
  obtain al1 where "prepareTuple al el = Inr al1" "al_wf al1" "al_addrs al1 = insert (tuple_Address el) (al_addrs al)"
    "al_pairs al1 = al_pairs al \<union> {tuple_Address el} \<times> set (tuple_StorageKeys el)"
    using prepareTuple_ok [OF Cons.prems] by blast
  with Cons.IH [of al1] show ?case by auto
qed simp

lemma Prepare_ok:
  assumes "IsBerlin rules"
  shows "\<exists>s'. Prepare s rules sender coinbase dst precompiles lst = Inr s' \<and> al_wf (accList s')
    \<and> (\<forall>a k. SlotInAccessList s' a k =
          Inr (AddressInAccessList s' a, \<exists>el \<in> set lst. tuple_Address el = a \<and> k \<in> set (tuple_StorageKeys el)))
    \<and> (\<forall>a. AddressInAccessList s' a \<longleftrightarrow> a = sender \<or> dst = Some a \<or> a \<in> set precompiles
          \<or> a \<in> tuple_Address ` set lst \<or> (IsShanghai rules \<and> a = coinbase))
    \<and> (\<forall>a k. GetTransientState s' a k = 0)"
proof -
  define al2 where "al2 = (case dst of None \<Rightarrow> snd (AddAddress newAccessList sender)
     | Some d \<Rightarrow> snd (AddAddress (snd (AddAddress newAccessList sender)) d))"
  define al3 where "al3 = foldl (\<lambda>al a. snd (AddAddress al a)) al2 precompiles"
  have al2: "al_wf al2" "al_addrs al2 = {sender} \<union> set_option dst" "al_pairs al2 = {}"
    by (auto simp: al2_def AddAddress_spec acl.new intro: wf_intros split: option.split)
  have al3: "al_wf al3" "al_addrs al3 = {sender} \<union> set_option dst \<union> set precompiles" "al_pairs al3 = {}"
    using acl.fold_addA [OF al2(1), of precompiles] al2 by (auto simp: al3_def)
  obtain al4 where al4: "foldE prepareTuple al3 lst = Inr al4" "al_wf al4"
    "al_addrs al4 = al_addrs al3 \<union> tuple_Address ` set lst"
    "al_pairs al4 = al_pairs al3 \<union> (\<Union>el \<in> set lst. {tuple_Address el} \<times> set (tuple_StorageKeys el))"
    using prepareTuples_ok [OF al3(1)] by blast
  define al5 where "al5 = (if IsShanghai rules then snd (AddAddress al4 coinbase) else al4)"
  have al5: "al_wf al5" "al_addrs al5 = al_addrs al4 \<union> (if IsShanghai rules then {coinbase} else {})"
    "al_pairs al5 = al_pairs al4"
    using al4(2) by (auto simp: al5_def AddAddress_spec intro: wf_intros)
  have "Prepare s rules sender coinbase dst precompiles lst = Inr (s\<lparr>accList := al5, transient := newTransientStorage\<rparr>)"
    using assms al4(1) by (simp add: Prepare_def Let_def al2_def al3_def al5_def)
  then show ?thesis
    using al5 al4 al3
    by (auto simp: SlotInAccessList_def AddressInAccessList_def Contains_spec ContainsAddress_spec GetTransientState_def)
qed

lemma Prepare_total: "\<exists>s'. Prepare s rules sender coinbase dst precompiles lst = Inr s'"
  using Prepare_ok [of rules s sender coinbase dst precompiles lst] by (cases "IsBerlin rules") (auto simp: Prepare_def)

text \<open>
  C28: Under the Berlin rules \<open>Prepare\<close> never panics and warms exactly what EIP-2929, EIP-2930 and
  (under Shanghai) EIP-3651 ask for: the sender, the destination if any, the precompiles, the addresses and
  the slots of the transaction's access list, and the coinbase. Nothing of the previous
  access list or transient storage survives.
\<close>

theorem Prepare_warms_exactly:
  assumes "IsBerlin rules"
  shows "\<exists>s'. Prepare s rules sender coinbase dst precompiles lst = Inr s' \<and> al_wf (accList s')
    \<and> (\<forall>a k. SlotInAccessList s' a k =
          Inr (AddressInAccessList s' a, \<exists>el \<in> set lst. tuple_Address el = a \<and> k \<in> set (tuple_StorageKeys el)))
    \<and> (\<forall>a. AddressInAccessList s' a \<longleftrightarrow> a = sender \<or> dst = Some a \<or> a \<in> set precompiles
          \<or> a \<in> tuple_Address ` set lst \<or> (IsShanghai rules \<and> a = coinbase))
    \<and> (\<forall>a k. GetTransientState s' a k = 0)"
  by (rule Prepare_ok [OF assms])

end
