(* ===== verification/DirectState.thy ===== *)
theory DirectState
  imports StateCommon
begin

text \<open>
  The package \<open>direct_by_leaf\<close>: \<open>state_object.go\<close>, \<open>statedb.go\<close> and \<open>journal.go\<close>, the read-only
  \<open>StateDB\<close> over a Postgres database queried by leaf key. The \<open>StateDatabase\<close> interface is a
  record \<open>D\<close> of its four methods, as functions of their arguments; the library functions are
  the record \<open>G\<close>. A Go method that mutates an object found in \<open>stateObjects\<close> returns the
  changed object, and the caller writes it back with \<open>setStateObject\<close>, which is what the
  mutation through the pointer amounts to. A method that returns a value and an error
  returns both, the error as an option.
\<close>

section \<open>The database interface\<close>

record StateDatabase =
  db_ContractCode :: "hash \<Rightarrow> bytes option \<times> goerr option"
  db_ContractCodeSize :: "hash \<Rightarrow> int \<times> goerr option"
  db_StateAccount :: "hash \<Rightarrow> hash \<Rightarrow> rawAccount option \<times> goerr option"
  db_StorageValue :: "hash \<Rightarrow> hash \<Rightarrow> hash \<Rightarrow> bytes \<times> goerr option"

section \<open>State objects\<close>

record directObject = stateObject +
  blockHash :: hash
  obj_dbErr :: "goerr option"
  fakeStorage :: "Storage option"

definition emptyRoot :: hash where
  "emptyRoot = 0x56e81f171bcc55a6ff8345e692c0f86e5b48e01b996cadc001622fb5e363b421"

definition emptyCodeHash :: "geth \<Rightarrow> bytes" where
  "emptyCodeHash G = hash_bytes (keccak256 G [])"

definition empty :: "geth \<Rightarrow> directObject \<Rightarrow> bool" where
  "empty G so \<longleftrightarrow> Nonce (data so) = 0 \<and> Balance (data so) = 0 \<and> CodeHash (data so) = emptyCodeHash G"

definition newObject :: "geth \<Rightarrow> address \<Rightarrow> rawAccount \<Rightarrow> hash \<Rightarrow> directObject" where
  "newObject G a d bh =
     \<lparr>address = a, addrHash = keccak256 G (address_bytes a),
      data = \<lparr>Nonce = raw_Nonce d,
              Balance = (case raw_Balance d of None \<Rightarrow> 0 | Some b \<Rightarrow> b),
              Root = (if raw_Root d = 0 then emptyRoot else raw_Root d),
              CodeHash = (case raw_CodeHash d of None \<Rightarrow> emptyCodeHash G | Some h \<Rightarrow> h)\<rparr>,
      code = None, originStorage = Map.empty, pendingStorage = Map.empty, dirtyStorage = Map.empty,
      dirtyCode = False, suicided = False, deleted = False,
      blockHash = bh, obj_dbErr = None, fakeStorage = None\<rparr>"

definition obj_setError :: "directObject \<Rightarrow> goerr \<Rightarrow> directObject" where
  "obj_setError so e = (if obj_dbErr so = None then so\<lparr>obj_dbErr := Some e\<rparr> else so)"

definition obj_GetCommittedState ::
    "geth \<Rightarrow> StateDatabase \<Rightarrow> directObject \<Rightarrow> hash \<Rightarrow> hash \<times> directObject" where
  "obj_GetCommittedState G D so key =
     (case fakeStorage so of
        Some f \<Rightarrow> (storage_at f key, so)
      | None \<Rightarrow>
          (case originStorage so key of
             Some v \<Rightarrow> (v, so)
           | None \<Rightarrow>
               (let keyHash = keccak256 G (hash_bytes key);
                    (enc, err) = db_StorageValue D (addrHash so) keyHash (blockHash so)
                in case err of
                     Some e \<Rightarrow> (0, obj_setError so e)
                   | None \<Rightarrow>
                       (let (v, so1) =
                              (if length enc > 0
                               then let (_, content, _, err2) = rlpSplit G enc
                                    in (BytesToHash G content,
                                        case err2 of None \<Rightarrow> so | Some e2 \<Rightarrow> obj_setError so e2)
                               else (0, so))
                        in (v, so1\<lparr>originStorage := (originStorage so1)(key \<mapsto> v)\<rparr>)))))"

definition obj_GetState ::
    "geth \<Rightarrow> StateDatabase \<Rightarrow> directObject \<Rightarrow> hash \<Rightarrow> hash \<times> directObject" where
  "obj_GetState G D so key =
     (case fakeStorage so of
        Some f \<Rightarrow> (storage_at f key, so)
      | None \<Rightarrow>
          (case dirtyStorage so key of
             Some v \<Rightarrow> (v, so)
           | None \<Rightarrow> obj_GetCommittedState G D so key))"

definition obj_Code :: "geth \<Rightarrow> StateDatabase \<Rightarrow> directObject \<Rightarrow> bytes option \<times> directObject" where
  "obj_Code G D so =
     (case code so of
        Some c \<Rightarrow> (Some c, so)
      | None \<Rightarrow>
          (if CodeHash (data so) = emptyCodeHash G then (None, so)
           else let (c, err) = db_ContractCode D (BytesToHash G (CodeHash (data so)));
                    so1 = (case err of None \<Rightarrow> so
                           | Some e \<Rightarrow> obj_setError so (Wrap ''can't load code hash'' (CodeHash (data so)) e))
                in (c, so1\<lparr>code := c\<rparr>)))"

definition obj_CodeSize :: "geth \<Rightarrow> StateDatabase \<Rightarrow> directObject \<Rightarrow> int \<times> directObject" where
  "obj_CodeSize G D so =
     (case code so of
        Some c \<Rightarrow> (int (length c), so)
      | None \<Rightarrow>
          (if CodeHash (data so) = emptyCodeHash G then (0, so)
           else let (size, err) = db_ContractCodeSize D (BytesToHash G (CodeHash (data so)));
                    so1 = (case err of None \<Rightarrow> so
                           | Some e \<Rightarrow> obj_setError so (Wrap ''can't load code size'' (CodeHash (data so)) e))
                in (size, so1)))"

text \<open>
  \<open>SetStorage\<close> of an object merges the given map into the fake storage; the loop over the
  map writes each key once, so its order does not matter.
\<close>

definition obj_SetStorage :: "directObject \<Rightarrow> Storage \<Rightarrow> directObject" where
  "obj_SetStorage so storage =
     (let f = (case fakeStorage so of None \<Rightarrow> Map.empty | Some f \<Rightarrow> f)
      in so\<lparr>fakeStorage := Some (f ++ storage)\<rparr>)"

definition obj_finalise :: "directObject \<Rightarrow> directObject" where
  "obj_finalise so =
     (let so1 = so\<lparr>pendingStorage := pendingStorage so ++ dirtyStorage so\<rparr>
      in if dirtyStorage so1 \<noteq> Map.empty then so1\<lparr>dirtyStorage := Map.empty\<rparr> else so1)"

text \<open>\<open>deepCopy\<close> builds the copy with \<open>newObject\<close>, so fields it does not name start afresh.\<close>

definition obj_deepCopy :: "geth \<Rightarrow> directObject \<Rightarrow> directObject" where
  "obj_deepCopy G so =
     (let d = data so;
          n = newObject G (address so)
                \<lparr>raw_Nonce = Nonce d, raw_Balance = Some (Balance d), raw_Root = Root d,
                 raw_CodeHash = Some (CodeHash d)\<rparr> (blockHash so)
      in n\<lparr>code := code so,
           dirtyStorage := Storage_Copy (dirtyStorage so),
           originStorage := Storage_Copy (originStorage so),
           pendingStorage := Storage_Copy (pendingStorage so),
           suicided := suicided so, dirtyCode := dirtyCode so, deleted := deleted so\<rparr>)"

section \<open>Looking up and creating objects\<close>

record directDB = "directObject StateDB" +
  originBlockHash :: hash

definition New :: "hash \<Rightarrow> directDB" where
  "New bh =
     \<lparr>stateObjects = Map.empty, stateObjectsPending = {}, stateObjectsDirty = {},
      stateObjectsDestruct = {}, dbErr = None, refund = 0, thash = 0, txIndex = 0,
      logs = Map.empty, logSize = 0, preimages = Map.empty, accList = newAccessList,
      transient = newTransientStorage, journal = newJournal, validRevisions = [],
      nextRevisionId = 0, originBlockHash = bh\<rparr>"

definition setStateObject :: "directDB \<Rightarrow> directObject \<Rightarrow> directDB" where
  "setStateObject s so = s\<lparr>stateObjects := (stateObjects s)(address so \<mapsto> so)\<rparr>"

definition getDeletedStateObject ::
    "geth \<Rightarrow> StateDatabase \<Rightarrow> directDB \<Rightarrow> address \<Rightarrow> directObject option \<times> directDB" where
  "getDeletedStateObject G D s a =
     (case stateObjects s a of
        Some so \<Rightarrow> (Some so, s)
      | None \<Rightarrow>
          (let addrH = keccak256 G (address_bytes a);
               (d, err) = db_StateAccount D addrH (originBlockHash s)
           in case err of
                Some e \<Rightarrow> (None, setError s (Wrap ''getDeletedStateObject'' (address_bytes a) e))
              | None \<Rightarrow>
                  (case d of
                     None \<Rightarrow> (None, s)
                   | Some acc \<Rightarrow>
                       (let so = newObject G a acc (originBlockHash s)
                        in (Some so, setStateObject s so)))))"

definition getStateObject ::
    "geth \<Rightarrow> StateDatabase \<Rightarrow> directDB \<Rightarrow> address \<Rightarrow> directObject option \<times> directDB" where
  "getStateObject G D s a =
     (let (obj, s1) = getDeletedStateObject G D s a
      in case obj of
           None \<Rightarrow> (None, s1)
         | Some so \<Rightarrow> (if deleted so then (None, s1) else (Some so, s1)))"

definition createObject ::
    "geth \<Rightarrow> StateDatabase \<Rightarrow> directDB \<Rightarrow> address \<Rightarrow> directObject \<times> directObject option \<times> directDB" where
  "createObject G D s a =
     (let (prev, s1) = getDeletedStateObject G D s a;
          prevdestruct = (case prev of None \<Rightarrow> False | Some p \<Rightarrow> address p \<in> stateObjectsDestruct s1);
          s2 = (case prev of None \<Rightarrow> s1
                | Some p \<Rightarrow> (if \<not> prevdestruct
                            then s1\<lparr>stateObjectsDestruct := insert (address p) (stateObjectsDestruct s1)\<rparr>
                            else s1));
          newobj = newObject G a emptyStateAccount (originBlockHash s2);
          s3 = (case prev of None \<Rightarrow> journal_append s2 (createObjectChange a)
                | Some p \<Rightarrow> journal_append s2 (resetObjectChange p prevdestruct));
          s4 = setStateObject s3 newobj
      in case prev of
           None \<Rightarrow> (newobj, None, s4)
         | Some p \<Rightarrow> (if \<not> deleted p then (newobj, Some p, s4) else (newobj, None, s4)))"

definition getOrNewStateObject ::
    "geth \<Rightarrow> StateDatabase \<Rightarrow> directDB \<Rightarrow> address \<Rightarrow> directObject \<times> directDB" where
  "getOrNewStateObject G D s a =
     (let (obj, s1) = getStateObject G D s a
      in case obj of
           Some so \<Rightarrow> (so, s1)
         | None \<Rightarrow> (let (newobj, _, s2) = createObject G D s1 a in (newobj, s2)))"

definition CreateAccount :: "geth \<Rightarrow> StateDatabase \<Rightarrow> directDB \<Rightarrow> address \<Rightarrow> directDB" where
  "CreateAccount G D s a =
     (let (newObj, prev, s1) = createObject G D s a
      in case prev of
           None \<Rightarrow> s1
         | Some p \<Rightarrow> setStateObject s1 (setBalance newObj (Balance (data p))))"

section \<open>Reads\<close>

definition Exist :: "geth \<Rightarrow> StateDatabase \<Rightarrow> directDB \<Rightarrow> address \<Rightarrow> bool \<times> directDB" where
  "Exist G D s a = (let (obj, s1) = getStateObject G D s a in (obj \<noteq> None, s1))"

definition Empty :: "geth \<Rightarrow> StateDatabase \<Rightarrow> directDB \<Rightarrow> address \<Rightarrow> bool \<times> directDB" where
  "Empty G D s a =
     (let (obj, s1) = getStateObject G D s a
      in (case obj of None \<Rightarrow> True | Some so \<Rightarrow> empty G so, s1))"

definition GetBalance :: "geth \<Rightarrow> StateDatabase \<Rightarrow> directDB \<Rightarrow> address \<Rightarrow> int \<times> directDB" where
  "GetBalance G D s a =
     (let (obj, s1) = getStateObject G D s a
      in (case obj of None \<Rightarrow> 0 | Some so \<Rightarrow> Balance (data so), s1))"

definition GetNonce :: "geth \<Rightarrow> StateDatabase \<Rightarrow> directDB \<Rightarrow> address \<Rightarrow> u64 \<times> directDB" where
  "GetNonce G D s a =
     (let (obj, s1) = getStateObject G D s a
      in (case obj of None \<Rightarrow> 0 | Some so \<Rightarrow> Nonce (data so), s1))"

definition GetCode :: "geth \<Rightarrow> StateDatabase \<Rightarrow> directDB \<Rightarrow> address \<Rightarrow> bytes option \<times> directDB" where
  "GetCode G D s a =
     (let (obj, s1) = getStateObject G D s a
      in case obj of None \<Rightarrow> (None, s1)
         | Some so \<Rightarrow> (let (c, so1) = obj_Code G D so in (c, setStateObject s1 so1)))"

definition GetCodeSize :: "geth \<Rightarrow> StateDatabase \<Rightarrow> directDB \<Rightarrow> address \<Rightarrow> int \<times> directDB" where
  "GetCodeSize G D s a =
     (let (obj, s1) = getStateObject G D s a
      in case obj of None \<Rightarrow> (0, s1)
         | Some so \<Rightarrow> (let (n, so1) = obj_CodeSize G D so in (n, setStateObject s1 so1)))"

definition GetCodeHash :: "geth \<Rightarrow> StateDatabase \<Rightarrow> directDB \<Rightarrow> address \<Rightarrow> hash \<times> directDB" where
  "GetCodeHash G D s a =
     (let (obj, s1) = getStateObject G D s a
      in (case obj of None \<Rightarrow> 0 | Some so \<Rightarrow> BytesToHash G (CodeHash (data so)), s1))"

definition GetState :: "geth \<Rightarrow> StateDatabase \<Rightarrow> directDB \<Rightarrow> address \<Rightarrow> hash \<Rightarrow> hash \<times> directDB" where
  "GetState G D s a key =
     (let (obj, s1) = getStateObject G D s a
      in case obj of None \<Rightarrow> (0, s1)
         | Some so \<Rightarrow> (let (v, so1) = obj_GetState G D so key in (v, setStateObject s1 so1)))"

definition GetCommittedState ::
    "geth \<Rightarrow> StateDatabase \<Rightarrow> directDB \<Rightarrow> address \<Rightarrow> hash \<Rightarrow> hash \<times> directDB" where
  "GetCommittedState G D s a key =
     (let (obj, s1) = getStateObject G D s a
      in case obj of None \<Rightarrow> (0, s1)
         | Some so \<Rightarrow> (let (v, so1) = obj_GetCommittedState G D so key in (v, setStateObject s1 so1)))"

definition HasSuicided :: "geth \<Rightarrow> StateDatabase \<Rightarrow> directDB \<Rightarrow> address \<Rightarrow> bool \<times> directDB" where
  "HasSuicided G D s a =
     (let (obj, s1) = getStateObject G D s a
      in (case obj of None \<Rightarrow> False | Some so \<Rightarrow> suicided so, s1))"

section \<open>Writes\<close>

text \<open>The object methods that write to the journal of the object's \<open>StateDB\<close>.\<close>

definition touch :: "directDB \<Rightarrow> directObject \<Rightarrow> directDB" where
  "touch s so =
     (let s1 = journal_append s (touchChange (address so))
      in if address so = ripemd then s1\<lparr>journal := dirty (journal s1) (address so)\<rparr> else s1)"

definition obj_SetBalance :: "directDB \<Rightarrow> directObject \<Rightarrow> int \<Rightarrow> directDB" where
  "obj_SetBalance s so amount =
     setStateObject (journal_append s (balanceChange (address so) (Balance (data so)))) (setBalance so amount)"

definition obj_AddBalance :: "geth \<Rightarrow> directDB \<Rightarrow> directObject \<Rightarrow> int \<Rightarrow> directDB" where
  "obj_AddBalance G s so amount =
     (if amount = 0 then (if empty G so then touch s so else s)
      else obj_SetBalance s so (Balance (data so) + amount))"

definition obj_SubBalance :: "directDB \<Rightarrow> directObject \<Rightarrow> int \<Rightarrow> directDB" where
  "obj_SubBalance s so amount =
     (if amount = 0 then s else obj_SetBalance s so (Balance (data so) - amount))"

definition obj_SetNonce :: "directDB \<Rightarrow> directObject \<Rightarrow> u64 \<Rightarrow> directDB" where
  "obj_SetNonce s so nonce =
     setStateObject (journal_append s (nonceChange (address so) (Nonce (data so)))) (setNonce so nonce)"

definition obj_SetCode ::
    "geth \<Rightarrow> StateDatabase \<Rightarrow> directDB \<Rightarrow> directObject \<Rightarrow> hash \<Rightarrow> bytes option \<Rightarrow> directDB" where
  "obj_SetCode G D s so codeHash c =
     (let (prevcode, so1) = obj_Code G D so
      in setStateObject (journal_append s (codeChange (address so1) prevcode (CodeHash (data so1))))
           (setCode so1 codeHash c))"

definition obj_SetState ::
    "geth \<Rightarrow> StateDatabase \<Rightarrow> directDB \<Rightarrow> directObject \<Rightarrow> hash \<Rightarrow> hash \<Rightarrow> directDB" where
  "obj_SetState G D s so key v =
     (case fakeStorage so of
        Some f \<Rightarrow> setStateObject s (so\<lparr>fakeStorage := Some (f(key \<mapsto> v))\<rparr>)
      | None \<Rightarrow>
          (let (prev, so1) = obj_GetState G D so key
           in if prev = v then setStateObject s so1
              else setStateObject (journal_append s (storageChange (address so1) key prev))
                     (setState so1 key v)))"

definition AddBalance :: "geth \<Rightarrow> StateDatabase \<Rightarrow> directDB \<Rightarrow> address \<Rightarrow> int \<Rightarrow> directDB" where
  "AddBalance G D s a amount =
     (let (so, s1) = getOrNewStateObject G D s a in obj_AddBalance G s1 so amount)"

definition SubBalance :: "geth \<Rightarrow> StateDatabase \<Rightarrow> directDB \<Rightarrow> address \<Rightarrow> int \<Rightarrow> directDB" where
  "SubBalance G D s a amount =
     (let (so, s1) = getOrNewStateObject G D s a in obj_SubBalance s1 so amount)"

definition SetBalance :: "geth \<Rightarrow> StateDatabase \<Rightarrow> directDB \<Rightarrow> address \<Rightarrow> int \<Rightarrow> directDB" where
  "SetBalance G D s a amount =
     (let (so, s1) = getOrNewStateObject G D s a in obj_SetBalance s1 so amount)"

definition SetNonce :: "geth \<Rightarrow> StateDatabase \<Rightarrow> directDB \<Rightarrow> address \<Rightarrow> u64 \<Rightarrow> directDB" where
  "SetNonce G D s a nonce =
     (let (so, s1) = getOrNewStateObject G D s a in obj_SetNonce s1 so nonce)"

definition SetCode :: "geth \<Rightarrow> StateDatabase \<Rightarrow> directDB \<Rightarrow> address \<Rightarrow> bytes option \<Rightarrow> directDB" where
  "SetCode G D s a c =
     (let (so, s1) = getOrNewStateObject G D s a
      in obj_SetCode G D s1 so (keccak256 G (case c of None \<Rightarrow> [] | Some b \<Rightarrow> b)) c)"

definition SetState :: "geth \<Rightarrow> StateDatabase \<Rightarrow> directDB \<Rightarrow> address \<Rightarrow> hash \<Rightarrow> hash \<Rightarrow> directDB" where
  "SetState G D s a key v =
     (let (so, s1) = getOrNewStateObject G D s a in obj_SetState G D s1 so key v)"

definition SetStorage :: "geth \<Rightarrow> StateDatabase \<Rightarrow> directDB \<Rightarrow> address \<Rightarrow> Storage \<Rightarrow> directDB" where
  "SetStorage G D s a storage =
     (let s0 = s\<lparr>stateObjectsDestruct := insert a (stateObjectsDestruct s)\<rparr>;
          (so, s1) = getOrNewStateObject G D s0 a
      in setStateObject s1 (obj_SetStorage so storage))"

definition Suicide :: "geth \<Rightarrow> StateDatabase \<Rightarrow> directDB \<Rightarrow> address \<Rightarrow> bool \<times> directDB" where
  "Suicide G D s a =
     (let (obj, s1) = getStateObject G D s a
      in case obj of
           None \<Rightarrow> (False, s1)
         | Some so \<Rightarrow>
             (let s2 = journal_append s1 (suicideChange a (suicided so) (Balance (data so)));
                  so1 = markSuicided so;
                  so2 = so1\<lparr>data := (data so1)\<lparr>Balance := 0\<rparr>\<rparr>
              in (True, setStateObject s2 so2)))"

section \<open>Reverting\<close>

text \<open>The \<open>revert\<close> methods of the entries. A nil object under \<open>setBalance\<close> and its kin panics.\<close>

definition with_live ::
    "geth \<Rightarrow> StateDatabase \<Rightarrow> directDB \<Rightarrow> address \<Rightarrow> (directObject \<Rightarrow> directObject) \<Rightarrow> panic + directDB" where
  "with_live G D s a f =
     (let (obj, s1) = getStateObject G D s a
      in case obj of None \<Rightarrow> Inl NilDereference | Some so \<Rightarrow> Inr (setStateObject s1 (f so)))"

fun revert_entry ::
    "geth \<Rightarrow> StateDatabase \<Rightarrow> directObject journalEntry \<Rightarrow> directDB \<Rightarrow> panic + directDB" where
  "revert_entry G D (createObjectChange a) s =
     Inr (s\<lparr>stateObjects := (stateObjects s)(a := None), stateObjectsDirty := stateObjectsDirty s - {a}\<rparr>)"
| "revert_entry G D (resetObjectChange prev prevdestruct) s = Inr (setStateObject s prev)"
| "revert_entry G D (suicideChange a prev prevbalance) s =
     (let (obj, s1) = getStateObject G D s a
      in case obj of
           None \<Rightarrow> Inr s1
         | Some so \<Rightarrow> Inr (setStateObject s1 (setBalance (so\<lparr>suicided := prev\<rparr>) prevbalance)))"
| "revert_entry G D (balanceChange a prev) s = with_live G D s a (\<lambda>so. setBalance so prev)"
| "revert_entry G D (nonceChange a prev) s = with_live G D s a (\<lambda>so. setNonce so prev)"
| "revert_entry G D (storageChange a key prevalue) s = with_live G D s a (\<lambda>so. setState so key prevalue)"
| "revert_entry G D (codeChange a prevcode prevhash) s =
     with_live G D s a (\<lambda>so. setCode so (BytesToHash G prevhash) prevcode)"
| "revert_entry G D (refundChange prev) s = Inr (s\<lparr>refund := prev\<rparr>)"
| "revert_entry G D (addLogChange txhash) s =
     (let ls = logs_at (logs s) txhash;
          s1 = s\<lparr>logSize := logSize s - 1\<rparr>
      in if length ls = 1 then Inr (s1\<lparr>logs := (logs s1)(txhash := None)\<rparr>)
         else if length ls = 0 then Inl IndexOutOfRange
         else Inr (s1\<lparr>logs := (logs s1)(txhash \<mapsto> take (length ls - 1) ls)\<rparr>))"
| "revert_entry G D (addPreimageChange h) s = Inr (s\<lparr>preimages := (preimages s)(h := None)\<rparr>)"
| "revert_entry G D (touchChange a) s = Inr s"
| "revert_entry G D (accessListAddAccountChange a) s = Inr (s\<lparr>accList := DeleteAddress (accList s) a\<rparr>)"
| "revert_entry G D (accessListAddSlotChange a slot) s =
     (case DeleteSlot (accList s) a slot of Inl p \<Rightarrow> Inl p | Inr al \<Rightarrow> Inr (s\<lparr>accList := al\<rparr>))"
| "revert_entry G D (transientStorageChange a key prevalue) s = Inr (setTransientState s a key prevalue)"

text \<open>
  \<open>journal.revert\<close>: from the last entry down to position \<open>snapshot\<close>, undo the entry and its
  dirty count; then truncate the entries. (A position beyond the entries does not occur; see
  the invariant on revisions.)
\<close>

definition revert_step ::
    "geth \<Rightarrow> StateDatabase \<Rightarrow> directDB \<Rightarrow> directObject journalEntry \<Rightarrow> panic + directDB" where
  "revert_step G D s e =
     (case revert_entry G D e s of
        Inl p \<Rightarrow> Inl p
      | Inr s' \<Rightarrow> Inr (s'\<lparr>journal := undirty e (journal s')\<rparr>))"

definition revert :: "geth \<Rightarrow> StateDatabase \<Rightarrow> directDB \<Rightarrow> nat \<Rightarrow> panic + directDB" where
  "revert G D s snapshot =
     (case foldE (revert_step G D) s (rev (drop snapshot (entries (journal s)))) of
        Inl p \<Rightarrow> Inl p
      | Inr s' \<Rightarrow> Inr (s'\<lparr>journal := (journal s')\<lparr>entries := take snapshot (entries (journal s'))\<rparr>\<rparr>))"

definition RevertToSnapshot :: "geth \<Rightarrow> StateDatabase \<Rightarrow> directDB \<Rightarrow> int \<Rightarrow> panic + directDB" where
  "RevertToSnapshot G D s revid =
     (case findRevision s revid of
        Inl p \<Rightarrow> Inl p
      | Inr (idx, snp) \<Rightarrow>
          (case revert G D s snp of
             Inl p \<Rightarrow> Inl p
           | Inr s' \<Rightarrow> Inr (s'\<lparr>validRevisions := take idx (validRevisions s')\<rparr>)))"

section \<open>Finalise and Copy\<close>

definition finaliseAddr :: "geth \<Rightarrow> bool \<Rightarrow> directDB \<Rightarrow> address \<Rightarrow> directDB" where
  "finaliseAddr G deleteEmptyObjects s a =
     (case stateObjects s a of
        None \<Rightarrow> s
      | Some obj \<Rightarrow>
          (let s1 = (if suicided obj \<or> (deleteEmptyObjects \<and> empty G obj)
                     then s\<lparr>stateObjects := (stateObjects s)(a \<mapsto> obj\<lparr>deleted := True\<rparr>),
                            stateObjectsDestruct := insert (address obj) (stateObjectsDestruct s)\<rparr>
                     else s\<lparr>stateObjects := (stateObjects s)(a \<mapsto> obj_finalise obj)\<rparr>)
           in s1\<lparr>stateObjectsPending := insert a (stateObjectsPending s1),
                 stateObjectsDirty := insert a (stateObjectsDirty s1)\<rparr>))"

text \<open>\<open>order\<close> is the order in which the loop visits \<open>journal.dirties\<close>.\<close>

definition Finalise :: "geth \<Rightarrow> address list \<Rightarrow> bool \<Rightarrow> directDB \<Rightarrow> directDB" where
  "Finalise G order deleteEmptyObjects s =
     clearJournalAndRefund (foldl (finaliseAddr G deleteEmptyObjects) s order)"

text \<open>
  \<open>Copy\<close> ranges over three maps: the journal's dirty addresses (\<open>od\<close>), the pending and the
  dirty objects (\<open>op\<close>, \<open>ot\<close>). Calling \<open>deepCopy\<close> on an object that is not in \<open>stateObjects\<close>
  dereferences nil. Slices and maps are values here, so the copies of logs and preimages are
  the values themselves.
\<close>

definition copyDirtied :: "geth \<Rightarrow> directDB \<Rightarrow> directDB \<Rightarrow> address \<Rightarrow> directDB" where
  "copyDirtied G s st a =
     (case stateObjects s a of
        None \<Rightarrow> st
      | Some object \<Rightarrow>
          st\<lparr>stateObjects := (stateObjects st)(a \<mapsto> obj_deepCopy G object),
             stateObjectsDirty := insert a (stateObjectsDirty st),
             stateObjectsPending := insert a (stateObjectsPending st)\<rparr>)"

definition copyMissing :: "geth \<Rightarrow> directDB \<Rightarrow> directDB \<Rightarrow> address \<Rightarrow> panic + directDB" where
  "copyMissing G s st a =
     (if stateObjects st a = None
      then case stateObjects s a of
             None \<Rightarrow> Inl NilDereference
           | Some so \<Rightarrow> Inr (st\<lparr>stateObjects := (stateObjects st)(a \<mapsto> obj_deepCopy G so)\<rparr>)
      else Inr st)"

definition copyPending :: "geth \<Rightarrow> directDB \<Rightarrow> directDB \<Rightarrow> address \<Rightarrow> panic + directDB" where
  "copyPending G s st a =
     (case copyMissing G s st a of Inl p \<Rightarrow> Inl p
      | Inr st1 \<Rightarrow> Inr (st1\<lparr>stateObjectsPending := insert a (stateObjectsPending st1)\<rparr>))"

definition copyDirty :: "geth \<Rightarrow> directDB \<Rightarrow> directDB \<Rightarrow> address \<Rightarrow> panic + directDB" where
  "copyDirty G s st a =
     (case copyMissing G s st a of Inl p \<Rightarrow> Inl p
      | Inr st1 \<Rightarrow> Inr (st1\<lparr>stateObjectsDirty := insert a (stateObjectsDirty st1)\<rparr>))"

definition StateDB_Copy ::
    "geth \<Rightarrow> address list \<Rightarrow> address list \<Rightarrow> address list \<Rightarrow> directDB \<Rightarrow> panic + directDB" where
  "StateDB_Copy G od op ot s =
     (let st0 = (New (originBlockHash s))\<lparr>refund := refund s, logSize := logSize s\<rparr>;
          st1 = foldl (copyDirtied G s) st0 od
      in case foldE (copyPending G s) st1 op of
           Inl p \<Rightarrow> Inl p
         | Inr st2 \<Rightarrow>
             (case foldE (copyDirty G s) st2 ot of
                Inl p \<Rightarrow> Inl p
              | Inr st3 \<Rightarrow>
                  Inr (st3\<lparr>stateObjectsDestruct := stateObjectsDestruct st3 \<union> stateObjectsDestruct s,
                           logs := logs st3 ++ logs s, preimages := preimages st3 ++ preimages s,
                           accList := Copy (accList s), transient := transient_Copy (transient s)\<rparr>)))"

definition ForEachStorage :: "directDB \<Rightarrow> address \<Rightarrow> (hash \<Rightarrow> hash \<Rightarrow> bool) \<Rightarrow> panic + goerr option" where
  "ForEachStorage s a cb = Inl (PanicMsg ''ForEachStorage is not implemented'')"

end
