(* ===== verification/DirectView.thy ===== *)
theory DirectView
  imports DirectState
begin

text \<open>
  What a caller can observe of a \<open>direct_by_leaf\<close> state, as an abstract world: for every
  address the account, its code, its storage and its flags, whether or not the object is
  cached, and the transaction-wide values. The world forgets caches: reading never changes
  it. \<open>undoW\<close> is the revert of one journal entry on worlds, and \<open>revert_entry\<close> refines it.
\<close>

section \<open>Worlds\<close>

record acctView =
  av_data :: StateAccount
  av_code :: "bytes option"
  av_storage :: "hash \<Rightarrow> hash"
  av_committed :: "hash \<Rightarrow> hash"
  av_suicided :: bool
  av_deleted :: bool

record world =
  w_accts :: "address \<Rightarrow> acctView option"
  w_dirty :: "address set"
  w_pending :: "address set"
  w_refund :: u64
  w_logs :: "hash \<Rightarrow> Log list"
  w_logSize :: u64
  w_preimages :: "hash \<rightharpoonup> bytes"
  w_al :: accessList
  w_transient :: "address \<Rightarrow> hash \<Rightarrow> hash"

definition code_of :: "geth \<Rightarrow> StateDatabase \<Rightarrow> bytes option \<Rightarrow> bytes \<Rightarrow> bytes option" where
  "code_of G D c h =
     (case c of Some b \<Rightarrow> Some b
      | None \<Rightarrow> (if h = emptyCodeHash G then None else fst (db_ContractCode D (BytesToHash G h))))"

definition db_slot :: "geth \<Rightarrow> StateDatabase \<Rightarrow> hash \<Rightarrow> hash \<Rightarrow> hash \<Rightarrow> hash" where
  "db_slot G D addrH bh key =
     (case db_StorageValue D addrH (keccak256 G (hash_bytes key)) bh of
        (enc, Some _) \<Rightarrow> 0
      | (enc, None) \<Rightarrow>
          (if length enc > 0 then (let (_, content, _, _) = rlpSplit G enc in BytesToHash G content) else 0))"

definition committed_of :: "geth \<Rightarrow> StateDatabase \<Rightarrow> directObject \<Rightarrow> hash \<Rightarrow> hash" where
  "committed_of G D so key =
     (case fakeStorage so of
        Some f \<Rightarrow> storage_at f key
      | None \<Rightarrow> (case originStorage so key of Some v \<Rightarrow> v
                | None \<Rightarrow> db_slot G D (addrHash so) (blockHash so) key))"

definition storage_of :: "geth \<Rightarrow> StateDatabase \<Rightarrow> directObject \<Rightarrow> hash \<Rightarrow> hash" where
  "storage_of G D so key =
     (case fakeStorage so of
        Some f \<Rightarrow> storage_at f key
      | None \<Rightarrow> (case dirtyStorage so key of Some v \<Rightarrow> v | None \<Rightarrow> committed_of G D so key))"

definition oview :: "geth \<Rightarrow> StateDatabase \<Rightarrow> directObject \<Rightarrow> acctView" where
  "oview G D so =
     \<lparr>av_data = data so, av_code = code_of G D (code so) (CodeHash (data so)),
      av_storage = storage_of G D so, av_committed = committed_of G D so,
      av_suicided = suicided so, av_deleted = deleted so\<rparr>"

definition db_load :: "geth \<Rightarrow> StateDatabase \<Rightarrow> hash \<Rightarrow> address \<Rightarrow> directObject option" where
  "db_load G D bh a =
     (case db_StateAccount D (keccak256 G (address_bytes a)) bh of
        (Some acc, None) \<Rightarrow> Some (newObject G a acc bh)
      | _ \<Rightarrow> None)"

definition lookup :: "geth \<Rightarrow> StateDatabase \<Rightarrow> directDB \<Rightarrow> address \<Rightarrow> directObject option" where
  "lookup G D s a = (case stateObjects s a of Some so \<Rightarrow> Some so | None \<Rightarrow> db_load G D (originBlockHash s) a)"

definition view :: "geth \<Rightarrow> StateDatabase \<Rightarrow> directDB \<Rightarrow> world" where
  "view G D s =
     \<lparr>w_accts = (\<lambda>a. map_option (oview G D) (lookup G D s a)),
      w_dirty = stateObjectsDirty s, w_pending = stateObjectsPending s,
      w_refund = refund s, w_logs = logs_at (logs s), w_logSize = logSize s,
      w_preimages = preimages s, w_al = accList s, w_transient = Get (transient s)\<rparr>"

definition live :: "world \<Rightarrow> address \<Rightarrow> acctView option" where
  "live w a = (case w_accts w a of Some v \<Rightarrow> (if av_deleted v then None else Some v) | None \<Rightarrow> None)"

definition put_acct :: "world \<Rightarrow> address \<Rightarrow> acctView \<Rightarrow> world" where
  "put_acct w a v = w\<lparr>w_accts := (w_accts w)(a \<mapsto> v)\<rparr>"

definition on_live :: "world \<Rightarrow> address \<Rightarrow> (acctView \<Rightarrow> acctView) \<Rightarrow> panic + world" where
  "on_live w a f = (case live w a of None \<Rightarrow> Inl NilDereference | Some v \<Rightarrow> Inr (put_acct w a (f v)))"

fun undoW ::
    "geth \<Rightarrow> StateDatabase \<Rightarrow> hash \<Rightarrow> directObject journalEntry \<Rightarrow> world \<Rightarrow> panic + world" where
  "undoW G D bh (createObjectChange a) w =
     Inr (w\<lparr>w_accts := (w_accts w)(a := map_option (oview G D) (db_load G D bh a)), w_dirty := w_dirty w - {a}\<rparr>)"
| "undoW G D bh (resetObjectChange prev pd) w = Inr (put_acct w (address prev) (oview G D prev))"
| "undoW G D bh (suicideChange a prev bal) w =
     (case live w a of None \<Rightarrow> Inr w
      | Some v \<Rightarrow> Inr (put_acct w a (v\<lparr>av_suicided := prev, av_data := (av_data v)\<lparr>Balance := bal\<rparr>\<rparr>)))"
| "undoW G D bh (balanceChange a prev) w = on_live w a (\<lambda>v. v\<lparr>av_data := (av_data v)\<lparr>Balance := prev\<rparr>\<rparr>)"
| "undoW G D bh (nonceChange a prev) w = on_live w a (\<lambda>v. v\<lparr>av_data := (av_data v)\<lparr>Nonce := prev\<rparr>\<rparr>)"
| "undoW G D bh (storageChange a key prev) w = on_live w a (\<lambda>v. v\<lparr>av_storage := (av_storage v)(key := prev)\<rparr>)"
| "undoW G D bh (codeChange a c h) w =
     on_live w a (\<lambda>v. v\<lparr>av_data := (av_data v)\<lparr>CodeHash := hash_bytes (BytesToHash G h)\<rparr>,
                        av_code := code_of G D c (hash_bytes (BytesToHash G h))\<rparr>)"
| "undoW G D bh (refundChange prev) w = Inr (w\<lparr>w_refund := prev\<rparr>)"
| "undoW G D bh (addLogChange h) w =
     (if w_logs w h = [] then Inl IndexOutOfRange
      else Inr (w\<lparr>w_logs := (w_logs w)(h := butlast (w_logs w h)), w_logSize := w_logSize w - 1\<rparr>))"
| "undoW G D bh (addPreimageChange h) w = Inr (w\<lparr>w_preimages := (w_preimages w)(h := None)\<rparr>)"
| "undoW G D bh (touchChange a) w = Inr w"
| "undoW G D bh (accessListAddAccountChange a) w = Inr (w\<lparr>w_al := DeleteAddress (w_al w) a\<rparr>)"
| "undoW G D bh (accessListAddSlotChange a slot) w =
     (case DeleteSlot (w_al w) a slot of Inl p \<Rightarrow> Inl p | Inr al \<Rightarrow> Inr (w\<lparr>w_al := al\<rparr>))"
| "undoW G D bh (transientStorageChange a key prev) w =
     Inr (w\<lparr>w_transient := (\<lambda>b j. if b = a \<and> j = key then prev else w_transient w b j)\<rparr>)"

definition goodW :: "world \<Rightarrow> bool" where
  "goodW w \<longleftrightarrow> al_wf (w_al w)"

interpretation ul: undo_log "undoW G D bh" goodW for G D bh .

section \<open>Reading leaves the world alone\<close>

definition cached :: "geth \<Rightarrow> StateDatabase \<Rightarrow> directDB \<Rightarrow> address \<Rightarrow> directDB" where
  "cached G D s a = snd (getDeletedStateObject G D s a)"

lemma address_newObject [simp]: "address (newObject G a d bh) = a"
  and deleted_newObject [simp]: "\<not> deleted (newObject G a d bh)"
  and suicided_newObject [simp]: "\<not> suicided (newObject G a d bh)"
  and fake_newObject [simp]: "fakeStorage (newObject G a d bh) = None"
  and bh_newObject [simp]: "blockHash (newObject G a d bh) = bh"
  by (simp_all add: newObject_def)

lemma stateObjects_setStateObject [simp]:
  "stateObjects (setStateObject s so) = (stateObjects s)(address so \<mapsto> so)"
  by (simp add: setStateObject_def)

lemma setStateObject_more [simp]:
  "originBlockHash (setStateObject s so) = originBlockHash s" "journal (setStateObject s so) = journal s"
  "stateObjectsDirty (setStateObject s so) = stateObjectsDirty s"
  "stateObjectsPending (setStateObject s so) = stateObjectsPending s"
  "stateObjectsDestruct (setStateObject s so) = stateObjectsDestruct s"
  "refund (setStateObject s so) = refund s" "logs (setStateObject s so) = logs s"
  "logSize (setStateObject s so) = logSize s" "preimages (setStateObject s so) = preimages s"
  "accList (setStateObject s so) = accList s" "transient (setStateObject s so) = transient s"
  "validRevisions (setStateObject s so) = validRevisions s"
  "nextRevisionId (setStateObject s so) = nextRevisionId s" "thash (setStateObject s so) = thash s"
  "txIndex (setStateObject s so) = txIndex s"
  by (simp_all add: setStateObject_def)

lemma setError_more [simp]:
  "stateObjects (setError s e) = stateObjects s" "journal (setError s e) = journal s"
  "stateObjectsDirty (setError s e) = stateObjectsDirty s"
  "stateObjectsPending (setError s e) = stateObjectsPending s"
  "stateObjectsDestruct (setError s e) = stateObjectsDestruct s"
  "refund (setError s e) = refund s" "logs (setError s e) = logs s"
  "logSize (setError s e) = logSize s" "preimages (setError s e) = preimages s"
  "accList (setError s e) = accList s" "transient (setError s e) = transient s"
  "validRevisions (setError s e) = validRevisions s"
  "nextRevisionId (setError s e) = nextRevisionId s" "thash (setError s e) = thash s"
  "txIndex (setError s e) = txIndex s"
  by (simp_all add: setError_def)

lemma originBlockHash_setError [simp]: "originBlockHash (setError s e) = originBlockHash s"
  by (simp add: setError_def)

text \<open>A load either finds the object, inserts it, or changes nothing but the memorised error.\<close>

lemma getDeleted_cases:
  obtains (hit) so where "stateObjects s a = Some so" "getDeletedStateObject G D s a = (Some so, s)"
    | (load) so where "stateObjects s a = None" "db_load G D (originBlockHash s) a = Some so"
        "address so = a" "\<not> deleted so"
        "getDeletedStateObject G D s a = (Some so, setStateObject s so)"
    | (miss) s' where "stateObjects s a = None" "db_load G D (originBlockHash s) a = None"
        "getDeletedStateObject G D s a = (None, s')" "s' = s \<or> (\<exists>e. s' = setError s e)"
proof (cases "stateObjects s a")
  case (Some so)
  then show ?thesis using hit by (simp add: getDeletedStateObject_def)
next
  case None
  obtain d err where db: "db_StateAccount D (keccak256 G (address_bytes a)) (originBlockHash s) = (d, err)"
    by fastforce
  show ?thesis
  proof (cases err)
    case (Some e)
    with None db show ?thesis
      by (intro miss) (auto simp: getDeletedStateObject_def db_load_def split: option.split)
  next
    case err: None
    show ?thesis
    proof (cases d)
      case None2: None
      with None db err show ?thesis by (intro miss) (auto simp: getDeletedStateObject_def db_load_def)
    next
      case (Some acc)
      with None db err show ?thesis by (intro load) (auto simp: getDeletedStateObject_def db_load_def Let_def)
    qed
  qed
qed

lemma fst_getDeleted: "fst (getDeletedStateObject G D s a) = lookup G D s a"
  by (cases rule: getDeleted_cases [of s a G D]) (auto simp: lookup_def)

lemma getDeleted_eq: "getDeletedStateObject G D s a = (lookup G D s a, cached G D s a)"
  by (simp add: cached_def flip: fst_getDeleted)

lemma cached_shape:
  obtains m e where "cached G D s a = s\<lparr>stateObjects := m, dbErr := e\<rparr>"
proof (cases rule: getDeleted_cases [of s a G D])
  case (hit so)
  then show ?thesis by (intro that [where m = "stateObjects s" and e = "dbErr s"]) (simp add: cached_def)
next
  case (load so)
  then show ?thesis
    by (intro that [where m = "(stateObjects s)(a \<mapsto> so)" and e = "dbErr s"]) (simp add: cached_def setStateObject_def)
next
  case (miss s')
  then show ?thesis
    by (intro that [where m = "stateObjects s" and e = "dbErr s'"]) (auto simp: cached_def setError_def)
qed

lemma cached_more [simp]:
  "originBlockHash (cached G D s a) = originBlockHash s" "journal (cached G D s a) = journal s"
  "stateObjectsDirty (cached G D s a) = stateObjectsDirty s"
  "stateObjectsPending (cached G D s a) = stateObjectsPending s"
  "stateObjectsDestruct (cached G D s a) = stateObjectsDestruct s"
  "refund (cached G D s a) = refund s" "logs (cached G D s a) = logs s"
  "logSize (cached G D s a) = logSize s" "preimages (cached G D s a) = preimages s"
  "accList (cached G D s a) = accList s" "transient (cached G D s a) = transient s"
  "validRevisions (cached G D s a) = validRevisions s"
  "nextRevisionId (cached G D s a) = nextRevisionId s" "thash (cached G D s a) = thash s"
  "txIndex (cached G D s a) = txIndex s"
  by (rule cached_shape [of G D s a], simp)+

lemma stateObjects_cached:
  "stateObjects (cached G D s a) =
     (case lookup G D s a of None \<Rightarrow> stateObjects s | Some so \<Rightarrow> (stateObjects s)(a \<mapsto> so))"
  by (cases rule: getDeleted_cases [of s a G D]) (auto simp: cached_def lookup_def fun_upd_idem)

lemma stateObjects_cached_same: "lookup G D s a = Some so \<Longrightarrow> stateObjects (cached G D s a) a = Some so"
  by (simp add: stateObjects_cached)

lemma lookup_cached [simp]: "lookup G D (cached G D s a) b = lookup G D s b"
  by (auto simp: lookup_def [of G D "cached G D s a"] stateObjects_cached split: option.split)
    (auto simp: lookup_def split: option.splits)

lemma view_cached [simp]: "view G D (cached G D s a) = view G D s"
  by (simp add: view_def)

lemma getStateObject_eq:
  "getStateObject G D s a =
     (case lookup G D s a of Some so \<Rightarrow> (if deleted so then None else Some so) | None \<Rightarrow> None,
      cached G D s a)"
  by (simp add: getStateObject_def getDeleted_eq split: option.split)

lemma w_accts_view [simp]: "w_accts (view G D s) a = map_option (oview G D) (lookup G D s a)"
  by (simp add: view_def)

lemma view_more [simp]:
  "w_dirty (view G D s) = stateObjectsDirty s" "w_pending (view G D s) = stateObjectsPending s"
  "w_refund (view G D s) = refund s" "w_logs (view G D s) = logs_at (logs s)"
  "w_logSize (view G D s) = logSize s" "w_preimages (view G D s) = preimages s"
  "w_al (view G D s) = accList s" "w_transient (view G D s) = Get (transient s)"
  by (simp_all add: view_def)

lemma live_view:
  "live (view G D s) a =
     (case fst (getStateObject G D s a) of None \<Rightarrow> None | Some so \<Rightarrow> Some (oview G D so))"
  by (auto simp: live_def getStateObject_eq oview_def split: option.split)

section \<open>Writing an object\<close>

lemma lookup_setStateObject [simp]:
  "lookup G D (setStateObject s so) a = (if a = address so then Some so else lookup G D s a)"
  by (simp add: lookup_def split: option.split)

lemma view_setStateObject:
  "view G D (setStateObject s so) = put_acct (view G D s) (address so) (oview G D so)"
  by (auto simp: view_def put_acct_def)

lemma put_acct_idem: "w_accts w a = Some v \<Longrightarrow> put_acct w a v = w"
  by (simp add: put_acct_def fun_upd_idem)

lemma put_acct_put_acct [simp]: "put_acct (put_acct w a u) a v = put_acct w a v"
  by (simp add: put_acct_def)

lemma put_acct_more [simp]:
  "w_accts (put_acct w a v) b = (if b = a then Some v else w_accts w b)"
  "w_al (put_acct w a v) = w_al w"
  by (simp_all add: put_acct_def)

lemma live_put_acct [simp]: "live (put_acct w a v) a = (if av_deleted v then None else Some v)"
  by (simp add: live_def)

lemma stateObject_set_more [simp]:
  "address (setBalance so b) = address so" "address (setNonce so n) = address so"
  "address (setCode so h c) = address so" "address (setState so k v) = address so"
  "address (markSuicided so) = address so"
  by (simp_all add: setBalance_def setNonce_def setCode_def setState_def markSuicided_def)

lemma storage_of_cong:
  assumes "fakeStorage so = fakeStorage so'" "originStorage so = originStorage so'"
    "addrHash so = addrHash so'" "blockHash so = blockHash so'"
  shows "committed_of G D so = committed_of G D so'"
    and "dirtyStorage so = dirtyStorage so' \<Longrightarrow> storage_of G D so = storage_of G D so'"
  using assms by (auto simp: fun_eq_iff committed_of_def storage_of_def split: option.split)

lemma oview_set [obj_simps]:
  "oview G D (setBalance so b) = (oview G D so)\<lparr>av_data := (data so)\<lparr>Balance := b\<rparr>\<rparr>"
  "oview G D (setNonce so n) = (oview G D so)\<lparr>av_data := (data so)\<lparr>Nonce := n\<rparr>\<rparr>"
  "oview G D (setCode so h c) =
     (oview G D so)\<lparr>av_data := (data so)\<lparr>CodeHash := hash_bytes h\<rparr>, av_code := code_of G D c (hash_bytes h)\<rparr>"
  "oview G D (so\<lparr>suicided := x\<rparr>) = (oview G D so)\<lparr>av_suicided := x\<rparr>"
  "oview G D (so\<lparr>deleted := x\<rparr>) = (oview G D so)\<lparr>av_deleted := x\<rparr>"
  by (auto simp: oview_def setBalance_def setNonce_def setCode_def intro!: storage_of_cong)

lemma oview_setState [obj_simps]:
  "fakeStorage so = None \<Longrightarrow>
   oview G D (setState so k v) = (oview G D so)\<lparr>av_storage := (storage_of G D so)(k := v)\<rparr>"
  by (auto simp: oview_def setState_def fun_eq_iff storage_of_def committed_of_def split: option.split)

lemma oview_more [simp]:
  "av_data (oview G D so) = data so" "av_storage (oview G D so) = storage_of G D so"
  "av_committed (oview G D so) = committed_of G D so" "av_suicided (oview G D so) = suicided so"
  "av_deleted (oview G D so) = deleted so"
  "av_code (oview G D so) = code_of G D (code so) (CodeHash (data so))"
  by (simp_all add: oview_def)

end
