(* ===== verification/DirectRevert.thy ===== *)
theory DirectRevert
  imports DirectView
begin

text \<open>
  Snapshots of the \<open>direct_by_leaf\<close> state: the invariant \<open>wf\<close> of a \<open>StateDB\<close>, the refinement
  of \<open>journal.revert\<close> by \<open>undoW\<close> on worlds, the proof that every operation logs enough to be
  undone (\<open>logged\<close>), and the correctness of \<open>RevertToSnapshot\<close> after any sequence of
  operations, nested snapshots and reverts included.
\<close>

section \<open>The contract of the database\<close>

text \<open>
  What the state needs of a \<open>StateDatabase\<close>: a code hash \<open>StateAccount\<close> returns is the 32 bytes
  of a hash (reverting a code change passes the previous code hash through \<open>common.Hash\<close>), and
  the two code queries agree on the length.
\<close>

locale state_database =
  fixes D :: StateDatabase
  assumes account_CodeHash:
    "db_StateAccount D ah bh = (Some d, None) \<Longrightarrow> raw_CodeHash d = Some ch \<Longrightarrow> \<exists>h. ch = hash_bytes h"
    and code_size: "fst (db_ContractCodeSize D h) = (case fst (db_ContractCode D h) of None \<Rightarrow> 0 | Some c \<Rightarrow> int (length c))"

section \<open>Invariant\<close>

definition obj_wf :: "geth \<Rightarrow> hash \<Rightarrow> address \<Rightarrow> directObject \<Rightarrow> bool" where
  "obj_wf G bh a so \<longleftrightarrow> address so = a \<and> addrHash so = keccak256 G (address_bytes a) \<and> blockHash so = bh
     \<and> fakeStorage so = None \<and> Root (data so) \<noteq> 0 \<and> (\<exists>h. CodeHash (data so) = hash_bytes h)"

fun entry_wf :: "geth \<Rightarrow> directDB \<Rightarrow> directObject journalEntry \<Rightarrow> bool" where
  "entry_wf G s (createObjectChange a) \<longleftrightarrow> a \<notin> stateObjectsPending s \<and> a \<notin> stateObjectsDirty s"
| "entry_wf G s (resetObjectChange prev _) \<longleftrightarrow> obj_wf G (originBlockHash s) (address prev) prev"
| "entry_wf G s _ \<longleftrightarrow> True"

definition objects_wf :: "geth \<Rightarrow> directDB \<Rightarrow> bool" where
  "objects_wf G s \<longleftrightarrow>
     (\<forall>a so. stateObjects s a = Some so \<longrightarrow> obj_wf G (originBlockHash s) a so)
     \<and> stateObjectsDirty s \<subseteq> dom (stateObjects s) \<and> stateObjectsPending s \<subseteq> dom (stateObjects s)
     \<and> (\<forall>e \<in> set (entries (journal s)). entry_wf G s e)"

definition wf :: "geth \<Rightarrow> StateDatabase \<Rightarrow> directDB \<Rightarrow> bool" where
  "wf G D s \<longleftrightarrow> objects_wf G s \<and> revisions_wf s \<and> journal_wf (journal s) \<and> al_wf (accList s)
     \<and> (\<exists>w. ul.undoes G D (originBlockHash s) (entries (journal s)) (view G D s) w)"

lemma emptyRoot_not_0 [simp]: "emptyRoot \<noteq> 0"
  by (simp add: emptyRoot_def)

lemma obj_wf_new_empty [wf_intros]: "obj_wf G bh a (newObject G a emptyStateAccount bh)"
  by (auto simp: obj_wf_def newObject_def emptyStateAccount_def emptyCodeHash_def)

lemma obj_wf_set [wf_intros]:
  "obj_wf G bh a so \<Longrightarrow> obj_wf G bh a (setBalance so b)"
  "obj_wf G bh a so \<Longrightarrow> obj_wf G bh a (setNonce so n)"
  "obj_wf G bh a so \<Longrightarrow> obj_wf G bh a (setCode so h c)"
  "obj_wf G bh a so \<Longrightarrow> obj_wf G bh a (setState so k v)"
  "obj_wf G bh a so \<Longrightarrow> obj_wf G bh a (so\<lparr>suicided := x\<rparr>)"
  "obj_wf G bh a so \<Longrightarrow> obj_wf G bh a (so\<lparr>deleted := x\<rparr>)"
  by (auto simp: obj_wf_def setBalance_def setNonce_def setCode_def setState_def)

lemma obj_wfD: "obj_wf G bh a so \<Longrightarrow> address so = a" "obj_wf G bh a so \<Longrightarrow> fakeStorage so = None"
  by (simp_all add: obj_wf_def)

lemma entry_wf_cong:
  "stateObjectsPending s = stateObjectsPending t \<Longrightarrow> stateObjectsDirty s = stateObjectsDirty t \<Longrightarrow>
   originBlockHash s = originBlockHash t \<Longrightarrow> entry_wf G s e = entry_wf G t e"
  by (cases e) auto

context state_database
begin

lemma obj_wf_load: "db_load G D bh a = Some so \<Longrightarrow> obj_wf G bh a so"
  by (auto simp: db_load_def obj_wf_def newObject_def emptyCodeHash_def
      split: prod.splits option.splits if_splits dest: account_CodeHash)

lemma obj_wf_lookup:
  "objects_wf G s \<Longrightarrow> lookup G D s a = Some so \<Longrightarrow> obj_wf G (originBlockHash s) a so"
  by (auto simp: lookup_def objects_wf_def split: option.splits intro: obj_wf_load)

lemma objects_wf_set [wf_intros]:
  "objects_wf G s \<Longrightarrow> obj_wf G (originBlockHash s) (address so) so \<Longrightarrow> objects_wf G (setStateObject s so)"
  by (auto simp: objects_wf_def entry_wf_cong [of "setStateObject s so" s])

lemma objects_wf_cached [wf_intros]:
  assumes "objects_wf G s" shows "objects_wf G (cached G D s a)"
proof (cases "lookup G D s a")
  case None
  with assms show ?thesis
    by (auto simp: objects_wf_def stateObjects_cached entry_wf_cong [of "cached G D s a" s])
next
  case (Some so)
  with assms obj_wf_lookup [OF assms Some] show ?thesis
    by (auto simp: objects_wf_def stateObjects_cached entry_wf_cong [of "cached G D s a" s])
qed

end

section \<open>Reverting one entry\<close>

lemma view_journal [simp]: "view G D (s\<lparr>journal := j\<rparr>) = view G D s"
  by (auto simp: view_def lookup_def fun_eq_iff split: option.split)

lemma view_journal_append [simp]: "view G D (journal_append s e) = view G D s"
  by (simp add: journal_append_def)

lemma view_upd:
  "view G D (s\<lparr>refund := r\<rparr>) = (view G D s)\<lparr>w_refund := r\<rparr>"
  "view G D (s\<lparr>logs := l\<rparr>) = (view G D s)\<lparr>w_logs := logs_at l\<rparr>"
  "view G D (s\<lparr>logSize := n\<rparr>) = (view G D s)\<lparr>w_logSize := n\<rparr>"
  "view G D (s\<lparr>preimages := p\<rparr>) = (view G D s)\<lparr>w_preimages := p\<rparr>"
  "view G D (s\<lparr>accList := al\<rparr>) = (view G D s)\<lparr>w_al := al\<rparr>"
  "view G D (s\<lparr>transient := t\<rparr>) = (view G D s)\<lparr>w_transient := Get t\<rparr>"
  "view G D (s\<lparr>stateObjectsDestruct := X\<rparr>) = view G D s"
  "view G D (s\<lparr>validRevisions := vr\<rparr>) = view G D s"
  "view G D (s\<lparr>nextRevisionId := i\<rparr>) = view G D s"
  "view G D (s\<lparr>thash := h\<rparr>) = view G D s"
  "view G D (s\<lparr>txIndex := ti\<rparr>) = view G D s"
  by (auto simp: view_def lookup_def fun_eq_iff split: option.split)

lemma logs_at_butlast:
  "logs_at (m(h := None)) = (logs_at m)(h := [])"
  "logs_at (m(h \<mapsto> l)) = (logs_at m)(h := l)"
  by (auto simp: logs_at_def)

lemma Get_Set_fun: "Get (Set t a k v) = (\<lambda>b j. if b = a \<and> j = k then v else Get t b j)"
  by (simp add: fun_eq_iff)

context state_database
begin

lemma with_live_refines:
  assumes "objects_wf G s"
    and "\<And>so. obj_wf G (originBlockHash s) a so \<Longrightarrow> address (f so) = a \<and> oview G D (f so) = g (oview G D so)"
  shows "on_live (view G D s) a g = map_sum id (view G D) (with_live G D s a f)"
proof (cases "fst (getStateObject G D s a)")
  case None
  then show ?thesis by (simp add: on_live_def with_live_def live_view getStateObject_eq)
next
  case (Some so)
  then have "lookup G D s a = Some so" by (auto simp: getStateObject_eq split: option.splits if_splits)
  then have "obj_wf G (originBlockHash s) a so" by (rule obj_wf_lookup [OF assms(1)])
  with Some assms(2) [of so] show ?thesis
    by (auto simp: on_live_def with_live_def live_view getStateObject_eq view_setStateObject)
qed

lemma revert_entry_refines:
  assumes "objects_wf G s"
  shows "undoW G D (originBlockHash s) e (view G D s) = map_sum id (view G D) (revert_entry G D e s)"
proof (cases e)
  case (suicideChange a prev bal)
  show ?thesis
  proof (cases "fst (getStateObject G D s a)")
    case None
    with suicideChange show ?thesis by (simp add: live_view getStateObject_eq)
  next
    case (Some so)
    then have "lookup G D s a = Some so" by (auto simp: getStateObject_eq split: option.splits if_splits)
    then have "address so = a" using obj_wf_lookup [OF assms] obj_wfD by blast
    with Some suicideChange show ?thesis
      by (auto simp: live_view getStateObject_eq view_setStateObject obj_simps)
  qed
next
  case (addLogChange h)
  then show ?thesis by (auto simp: view_upd logs_at_butlast Let_def butlast_conv_take length_Suc_conv)
next
  case (createObjectChange a)
  then show ?thesis by (auto simp: view_def lookup_def fun_eq_iff split: option.split)
qed (use assms in \<open>auto intro!: with_live_refines simp: obj_simps obj_wf_def view_setStateObject view_upd
      setTransientState_def Get_Set_fun split: sum.split cong: if_cong\<close>)

lemma with_live_more:
  assumes "with_live G D s a f = Inr s'" and "objects_wf G s"
    and "\<And>so. obj_wf G (originBlockHash s) a so \<Longrightarrow> obj_wf G (originBlockHash s) a (f so)"
  shows "objects_wf G s' \<and> journal s' = journal s \<and> validRevisions s' = validRevisions s
    \<and> nextRevisionId s' = nextRevisionId s \<and> originBlockHash s' = originBlockHash s"
proof -
  obtain so where so: "lookup G D s a = Some so" "s' = setStateObject (cached G D s a) (f so)"
    using assms(1) by (auto simp: with_live_def getStateObject_eq split: option.splits if_splits)
  have "obj_wf G (originBlockHash s) a (f so)" using obj_wf_lookup [OF assms(2) so(1)] by (rule assms(3))
  moreover then have "address (f so) = a" by (rule obj_wfD)
  ultimately show ?thesis using so(2) assms(2) by (auto intro!: objects_wf_set objects_wf_cached)
qed

lemma revert_entry_more:
  assumes "revert_entry G D e s = Inr s'" and "objects_wf G s" and "e \<in> set (entries (journal s))"
  shows "objects_wf G s' \<and> journal s' = journal s \<and> validRevisions s' = validRevisions s
    \<and> nextRevisionId s' = nextRevisionId s \<and> originBlockHash s' = originBlockHash s"
proof -
  have e: "entry_wf G s e" using assms(2,3) by (auto simp: objects_wf_def)
  have keep: "objects_wf G t" if "stateObjects t = stateObjects s" "stateObjectsPending t = stateObjectsPending s"
    "stateObjectsDirty t = stateObjectsDirty s" "originBlockHash t = originBlockHash s" "journal t = journal s" for t
    using assms(2) that entry_wf_cong [of t s] by (simp add: objects_wf_def)
  show ?thesis
  proof (cases e)
    case (createObjectChange a)
    then have t: "s' = s\<lparr>stateObjects := (stateObjects s)(a := None), stateObjectsDirty := stateObjectsDirty s - {a}\<rparr>"
      using assms(1) by simp
    have "entry_wf G s' x" if "entry_wf G s x" for x using that t by (cases x) auto
    then have "objects_wf G s'" using assms(2) e t createObjectChange by (auto simp: objects_wf_def)
    then show ?thesis by (simp add: t)
  next
    case (resetObjectChange p d)
    with assms e objects_wf_set [OF assms(2)] show ?thesis by auto
  next
    case (suicideChange a p b)
    show ?thesis
    proof (cases "lookup G D s a")
      case None
      with assms suicideChange show ?thesis by (auto simp: getStateObject_eq intro: objects_wf_cached)
    next
      case (Some so)
      have "obj_wf G (originBlockHash s) a so" by (rule obj_wf_lookup [OF assms(2) Some])
      then have "obj_wf G (originBlockHash s) a (setBalance (so\<lparr>suicided := p\<rparr>) b)" "address so = a"
        by (auto intro: wf_intros dest: obj_wfD)
      with assms suicideChange Some show ?thesis
        by (auto simp: getStateObject_eq intro!: objects_wf_cached objects_wf_set split: if_splits)
    qed
  qed (use assms with_live_more [OF _ assms(2)] in
      \<open>auto intro: keep wf_intros simp: Let_def setTransientState_def split: if_splits sum.splits\<close>)
qed

lemma revert_step_more:
  assumes "objects_wf G s" and "e \<in> set (entries (journal s))"
    and "undoW G D (originBlockHash s) e (view G D s) = Inr w"
  obtains s' where "revert_step G D s e = Inr s'" "view G D s' = w" "objects_wf G s'"
    "journal s' = undirty e (journal s)" "validRevisions s' = validRevisions s"
    "nextRevisionId s' = nextRevisionId s" "originBlockHash s' = originBlockHash s"
proof -
  obtain t where t: "revert_entry G D e s = Inr t" "view G D t = w"
    using revert_entry_refines [OF assms(1), of e] assms(3) by (cases "revert_entry G D e s") auto
  note m = revert_entry_more [OF t(1) assms(1,2)]
  have "objects_wf G (t\<lparr>journal := undirty e (journal t)\<rparr>)"
    using m entry_wf_cong [of "t\<lparr>journal := undirty e (journal t)\<rparr>" t] by (auto simp: objects_wf_def)
  with t m show ?thesis
    by (intro that [of "t\<lparr>journal := undirty e (journal t)\<rparr>"]) (auto simp: revert_step_def)
qed

lemma revert_loop:
  assumes "objects_wf G s" and "set fs \<subseteq> set (entries (journal s))"
    and "ul.undoes G D (originBlockHash s) fs (view G D s) w"
  shows "\<exists>s'. foldE (revert_step G D) s (rev fs) = Inr s' \<and> view G D s' = w \<and> objects_wf G s'
    \<and> journal s' = foldl (\<lambda>j e. undirty e j) (journal s) (rev fs) \<and> validRevisions s' = validRevisions s
    \<and> nextRevisionId s' = nextRevisionId s \<and> originBlockHash s' = originBlockHash s"
  using assms
proof (induction fs arbitrary: s rule: rev_induct)
  case (snoc e fs)
  then obtain w1 where w1: "undoW G D (originBlockHash s) e (view G D s) = Inr w1"
    "ul.undoes G D (originBlockHash s) fs w1 w"
    by (auto simp: ul.undoes_append ul.undoes_single)
  obtain t where t: "revert_step G D s e = Inr t" "view G D t = w1" "objects_wf G t"
    "journal t = undirty e (journal s)" "validRevisions t = validRevisions s"
    "nextRevisionId t = nextRevisionId s" "originBlockHash t = originBlockHash s"
    by (rule revert_step_more [OF snoc.prems(1) _ w1(1)]) (use snoc.prems in auto)
  with snoc.IH [of t] w1 snoc.prems(2) show ?case by auto
qed simp

lemma revert_ok:
  assumes "objects_wf G s" and "journal_wf (journal s)" and "n \<le> length (entries (journal s))"
    and "ul.undoes G D (originBlockHash s) (drop n (entries (journal s))) (view G D s) w"
  shows "\<exists>s'. revert G D s n = Inr s' \<and> view G D s' = w \<and> objects_wf G s'
    \<and> journal s' = journal_revert n (journal s) \<and> validRevisions s' = validRevisions s
    \<and> nextRevisionId s' = nextRevisionId s \<and> originBlockHash s' = originBlockHash s"
proof -
  obtain t where t: "foldE (revert_step G D) s (rev (drop n (entries (journal s)))) = Inr t" "view G D t = w"
    "objects_wf G t" "journal t = foldl (\<lambda>j e. undirty e j) (journal s) (rev (drop n (entries (journal s))))"
    "validRevisions t = validRevisions s" "nextRevisionId t = nextRevisionId s"
    "originBlockHash t = originBlockHash s"
    using revert_loop [OF assms(1) set_drop_subset assms(4)] by blast
  have en: "entries (journal t) = entries (journal s)" by (simp add: t(4) entries_foldl_undirty)
  define s' where "s' = t\<lparr>journal := journal_revert n (journal s)\<rparr>"
  have "entry_wf G s' e" if "e \<in> set (take n (entries (journal s)))" for e
    using that t(3) en entry_wf_cong [of s' t] set_take_subset by (fastforce simp: objects_wf_def s'_def)
  then have "objects_wf G s'" using t(3) by (auto simp: objects_wf_def s'_def)
  moreover have "revert G D s n = Inr s'"
    by (simp add: revert_def t(1) s'_def journal_revert_def en t(4) [symmetric])
  ultimately show ?thesis using t by (auto simp: s'_def)
qed

end

end
