(* ===== verification/DirectOps.thy ===== *)
theory DirectOps
  imports DirectRevert
begin

text \<open>
  Every mutating operation of the \<open>direct_by_leaf\<close> state keeps the invariant and logs enough
  to be undone: \<open>evolves\<close>, a relation between the states before and after that is closed
  under composition, proved for each operation from the primitive writes it is made of.
\<close>

section \<open>Logged evolution\<close>

definition inv :: "geth \<Rightarrow> directDB \<Rightarrow> bool" where
  "inv G s \<longleftrightarrow> objects_wf G s \<and> journal_wf (journal s) \<and> al_wf (accList s)"

definition evolves :: "geth \<Rightarrow> StateDatabase \<Rightarrow> directDB \<Rightarrow> directDB \<Rightarrow> bool" where
  "evolves G D s s' \<longleftrightarrow> (inv G s \<longrightarrow> inv G s' \<and> originBlockHash s' = originBlockHash s
     \<and> validRevisions s' = validRevisions s \<and> nextRevisionId s' = nextRevisionId s
     \<and> (\<exists>es. entries (journal s') = entries (journal s) @ es
          \<and> ul.undoes G D (originBlockHash s) es (view G D s') (view G D s)))"

lemma evolvesE:
  assumes "evolves G D s s'" and "inv G s"
  obtains es where "inv G s'" "originBlockHash s' = originBlockHash s" "validRevisions s' = validRevisions s"
    "nextRevisionId s' = nextRevisionId s" "entries (journal s') = entries (journal s) @ es"
    "ul.undoes G D (originBlockHash s) es (view G D s') (view G D s)"
  using assms by (auto simp: evolves_def)

lemma evolves_same:
  assumes "inv G s \<Longrightarrow> inv G s'" "originBlockHash s' = originBlockHash s" "validRevisions s' = validRevisions s"
    "nextRevisionId s' = nextRevisionId s" "entries (journal s') = entries (journal s)"
    "view G D s' = view G D s"
  shows "evolves G D s s'"
  using assms by (auto simp: evolves_def intro: exI [of _ "[]"])

lemma evolves_refl [wf_intros]: "evolves G D s s"
  by (rule evolves_same) auto

lemma evolves_trans [trans]: "evolves G D s t \<Longrightarrow> evolves G D t u \<Longrightarrow> evolves G D s u"
  unfolding evolves_def using ul.undoes_trans by fastforce

text \<open>One entry appended, with whatever else changed undone by it.\<close>

lemma evolves_log:
  assumes "originBlockHash s' = originBlockHash s" "validRevisions s' = validRevisions s"
    "nextRevisionId s' = nextRevisionId s" "entries (journal s') = entries (journal s) @ [e]"
    "inv G s \<Longrightarrow> inv G s'"
    "inv G s \<Longrightarrow> undoW G D (originBlockHash s) e (view G D s') = Inr (view G D s)"
  shows "evolves G D s s'"
  unfolding evolves_def using assms
  by (auto intro!: exI [of _ "[e]"] simp: ul.undoes_single goodW_def inv_def)

text \<open>The state's parts that no state object depends on.\<close>

lemma inv_cong:
  assumes "inv G s" "stateObjects t = stateObjects s" "stateObjectsPending t = stateObjectsPending s"
    "stateObjectsDirty t = stateObjectsDirty s" "originBlockHash t = originBlockHash s"
    "journal_wf (journal t)" "al_wf (accList t)"
    "\<And>e. e \<in> set (entries (journal t)) \<Longrightarrow> e \<in> set (entries (journal s)) \<or> entry_wf G s e"
  shows "inv G t"
  using assms entry_wf_cong [of t s] by (auto simp: inv_def objects_wf_def) blast

lemma inv_same:
  assumes "inv G s" "stateObjects t = stateObjects s" "stateObjectsPending t = stateObjectsPending s"
    "stateObjectsDirty t = stateObjectsDirty s" "originBlockHash t = originBlockHash s"
    "journal t = journal s" "al_wf (accList t)"
  shows "inv G t"
  by (rule inv_cong [of G s]) (use assms in \<open>auto simp: inv_def\<close>)

lemma inv_logged:
  assumes "inv G s" "stateObjects t = stateObjects s" "stateObjectsPending t = stateObjectsPending s"
    "stateObjectsDirty t = stateObjectsDirty s" "originBlockHash t = originBlockHash s"
    "journal t = append (journal s) e" "entry_wf G s e" "al_wf (accList t)"
  shows "inv G t"
  by (rule inv_cong [of G s]) (use assms in \<open>auto simp: inv_def intro: wf_intros\<close>)

lemma invD [simp]:
  "inv G s \<Longrightarrow> objects_wf G s" "inv G s \<Longrightarrow> journal_wf (journal s)" "inv G s \<Longrightarrow> al_wf (accList s)"
  by (simp_all add: inv_def)

lemma inv_journal_append: "inv G s \<Longrightarrow> entry_wf G s e \<Longrightarrow> inv G (journal_append s e)"
  by (rule inv_logged [of G s _ e]) (auto simp: journal_append_def)

lemma journal_append_more [simp]:
  "stateObjects (journal_append s e) = stateObjects s"
  "stateObjectsDirty (journal_append s e) = stateObjectsDirty s"
  "stateObjectsPending (journal_append s e) = stateObjectsPending s"
  "stateObjectsDestruct (journal_append s e) = stateObjectsDestruct s"
  "refund (journal_append s e) = refund s" "logs (journal_append s e) = logs s"
  "logSize (journal_append s e) = logSize s" "preimages (journal_append s e) = preimages s"
  "accList (journal_append s e) = accList s" "transient (journal_append s e) = transient s"
  "validRevisions (journal_append s e) = validRevisions s" "thash (journal_append s e) = thash s"
  "nextRevisionId (journal_append s e) = nextRevisionId s" "txIndex (journal_append s e) = txIndex s"
  "journal (journal_append s e) = append (journal s) e"
  by (simp_all add: journal_append_def)

lemma originBlockHash_journal_append [simp]: "originBlockHash (journal_append s e) = originBlockHash s"
  by (simp add: journal_append_def)

section \<open>Transaction-wide values\<close>

lemma evolves_AddLog [wf_intros]: "evolves G D s (AddLog s l)"
  by (rule evolves_log [where e = "addLogChange (thash s)"])
    (auto simp: AddLog_def Let_def view_upd logs_at_butlast intro!: inv_logged [of G s])

lemma evolves_AddPreimage [wf_intros]: "evolves G D s (AddPreimage s h p)"
proof (cases "preimages s h")
  case None
  show ?thesis
    by (rule evolves_log [where e = "addPreimageChange h"])
      (auto simp: AddPreimage_def None view_upd fun_upd_idem intro!: inv_logged [of G s])
qed (simp add: AddPreimage_def evolves_refl)

lemma evolves_refund [wf_intros]: "evolves G D s ((journal_append s (refundChange (refund s)))\<lparr>refund := r\<rparr>)"
  by (rule evolves_log [where e = "refundChange (refund s)"])
    (auto simp: view_upd intro!: inv_logged [of G s])

lemma evolves_SetTransientState [wf_intros]: "evolves G D s (SetTransientState s a k v)"
proof (cases "Get (transient s) a k = v")
  case False
  show ?thesis
    by (rule evolves_log [where e = "transientStorageChange a k (Get (transient s) a k)"])
      (use False in \<open>auto simp: SetTransientState_def GetTransientState_def setTransientState_def view_upd
        Get_Set_fun Let_def fun_eq_iff intro!: inv_logged [of G s] cong: if_cong\<close>)
qed (simp add: SetTransientState_def GetTransientState_def evolves_refl)

lemma evolves_SetTxContext [wf_intros]: "evolves G D s (SetTxContext s h i)"
  by (rule evolves_same) (auto simp: SetTxContext_def view_upd intro!: inv_same [of G s])

section \<open>The access list\<close>

lemma evolves_AddAddressToAccessList [wf_intros]: "evolves G D s (AddAddressToAccessList s a)"
proof (cases "ContainsAddress (accList s) a")
  case True
  then show ?thesis
    by (intro evolves_same) (auto simp: AddAddressToAccessList_def AddAddress_def ContainsAddress_def view_upd split: if_splits)
next
  case False
  obtain al where al: "AddAddress (accList s) a = (True, al)" using False by (auto simp: AddAddress_def ContainsAddress_def)
  show ?thesis
    by (rule evolves_log [where e = "accessListAddAccountChange a"])
      (use al al_wf_AddAddress [of "accList s" a] in \<open>auto simp: AddAddressToAccessList_def view_upd
        DeleteAddress_AddAddress intro!: inv_logged [of G s]\<close>)
qed

lemma evolves_AddSlotToAccessList [wf_intros]:
  assumes "AddSlotToAccessList s a k = Inr s'" shows "evolves G D s s'"
proof (cases "inv G s")
  case True
  then have al: "al_wf (accList s)" by simp
  obtain x y al' where add: "AddSlot (accList s) a k = Inr (x, y, al')" using AddSlot_total [OF al] by blast
  note wf' = al_wf_AddSlot [OF al add]
  show ?thesis
  proof (cases y)
    case False
    with AddSlot_no_change [OF al] add assms have "s' = s"
      by (fastforce simp: AddSlotToAccessList_def Let_def)
    then show ?thesis by (simp add: evolves_refl)
  next
    case y: True
    define s1 where "s1 = (if x then AddAddressToAccessList s a else s)"
    have "AddSlot (accList s) a k = Inr (x, True, al')" using add y by simp
    note del = DeleteSlot_AddSlot_eq [OF al this]
    have s1: "evolves G D s s1" "accList s1 = (if x then snd (AddAddress (accList s) a) else accList s)"
      unfolding s1_def by (auto intro: wf_intros) (auto simp: AddAddressToAccessList_def Let_def split_def)
    have "s' = (journal_append s1 (accessListAddSlotChange a k))\<lparr>accList := al'\<rparr>"
      using assms add y del(2)
      by (auto simp: AddSlotToAccessList_def s1_def AddAddressToAccessList_def AddAddress_def journal_append_def)
    then have "evolves G D s1 s'"
      by (intro evolves_log [where e = "accessListAddSlotChange a k"])
        (use del(1) s1(2) wf' in \<open>auto simp: view_upd intro!: inv_logged [of G s1] split: if_splits\<close>)
    with s1(1) show ?thesis by (rule evolves_trans)
  qed
qed (simp add: evolves_def)

section \<open>State objects\<close>

lemma obj_wf_cache [wf_intros]:
  "obj_wf G bh a so \<Longrightarrow> obj_wf G bh a (so\<lparr>obj_dbErr := x\<rparr>)"
  "obj_wf G bh a so \<Longrightarrow> obj_wf G bh a (so\<lparr>code := c\<rparr>)"
  "obj_wf G bh a so \<Longrightarrow> obj_wf G bh a (so\<lparr>originStorage := m\<rparr>)"
  by (simp_all add: obj_wf_def)

lemma obj_setError_shape: obtains x where "obj_setError so e = so\<lparr>obj_dbErr := x\<rparr>"
  by (cases "obj_dbErr so") (auto simp: obj_setError_def intro: that [of "obj_dbErr so"])

lemma oview_cache [obj_simps]:
  "oview G D (so\<lparr>obj_dbErr := x\<rparr>) = oview G D so"
  "c = code_of G D (code so) (CodeHash (data so)) \<Longrightarrow> c \<noteq> None \<or> code so = None \<Longrightarrow> oview G D (so\<lparr>code := c\<rparr>) = oview G D so"
  by (auto simp: oview_def storage_of_def committed_of_def fun_eq_iff code_of_def split: option.splits if_splits)

lemma oview_origin [obj_simps]:
  "v = committed_of G D so key \<Longrightarrow> fakeStorage so = None \<Longrightarrow>
   oview G D (so\<lparr>originStorage := (originStorage so)(key \<mapsto> v)\<rparr>) = oview G D so"
  by (auto simp: oview_def storage_of_def committed_of_def fun_eq_iff split: option.split)

text \<open>What reading does to an object: nothing that can be observed.\<close>

definition refreshes :: "geth \<Rightarrow> StateDatabase \<Rightarrow> directObject \<Rightarrow> directObject \<Rightarrow> bool" where
  "refreshes G D so so' \<longleftrightarrow> oview G D so' = oview G D so \<and> (\<forall>bh a. obj_wf G bh a so \<longrightarrow> obj_wf G bh a so')"

lemma refreshes_refl [simp]: "refreshes G D so so"
  by (simp add: refreshes_def)

lemma refreshes_setError [simp]: "refreshes G D so (obj_setError so e)"
  by (rule obj_setError_shape [of so e]) (auto simp: refreshes_def obj_simps intro: wf_intros)

lemma refreshesD:
  "refreshes G D so so' \<Longrightarrow> data so' = data so \<and> storage_of G D so' = storage_of G D so
     \<and> deleted so' = deleted so \<and> suicided so' = suicided so"
  unfolding refreshes_def by (metis oview_more)

lemma obj_Code_eq:
  assumes "obj_Code G D so = (c, so1)"
  shows "c = code_of G D (code so) (CodeHash (data so))" and "refreshes G D so so1"
proof -
  have "c = code_of G D (code so) (CodeHash (data so)) \<and> refreshes G D so so1"
  proof (cases "code so = None \<and> CodeHash (data so) \<noteq> emptyCodeHash G")
    case False
    with assms show ?thesis by (auto simp: obj_Code_def code_of_def split: option.splits)
  next
    case True
    obtain err where db: "db_ContractCode D (BytesToHash G (CodeHash (data so))) = (c, err)"
      using assms True by (auto simp: obj_Code_def Let_def split: prod.splits)
    obtain x where "so1 = so\<lparr>obj_dbErr := x, code := c\<rparr>"
      using assms True db
      by (cases err) (auto simp: obj_Code_def obj_setError_def Let_def split: if_splits
          intro: that [of "obj_dbErr so"] that)
    moreover have "c = code_of G D (code so) (CodeHash (data so))" using True db by (simp add: code_of_def)
    ultimately show ?thesis
      using True oview_cache(2) [of c G D "so\<lparr>obj_dbErr := x\<rparr>"]
      by (auto simp: refreshes_def obj_simps intro: wf_intros)
  qed
  then show "c = code_of G D (code so) (CodeHash (data so))" and "refreshes G D so so1" by blast+
qed

lemma obj_CodeSize_eq: "obj_CodeSize G D so = (n, so1) \<Longrightarrow> refreshes G D so so1"
  by (auto simp: obj_CodeSize_def Let_def split: option.splits if_splits prod.splits)

lemma obj_GetCommittedState_eq:
  assumes "obj_GetCommittedState G D so key = (v, so1)"
  shows "v = committed_of G D so key" and "refreshes G D so so1"
proof -
  obtain enc err where db: "db_StorageValue D (addrHash so) (keccak256 G (hash_bytes key)) (blockHash so) = (enc, err)"
    by fastforce
  have "v = committed_of G D so key \<and> refreshes G D so so1"
  proof (cases "fakeStorage so = None \<and> originStorage so key = None \<and> err = None")
    case False
    with assms db show ?thesis
      by (auto simp: obj_GetCommittedState_def committed_of_def db_slot_def Let_def split: option.splits)
  next
    case True
    then have v: "v = db_slot G D (addrHash so) (blockHash so) key"
      using assms db by (auto simp: obj_GetCommittedState_def db_slot_def Let_def split: prod.splits if_splits)
    obtain x where so1: "so1 = so\<lparr>obj_dbErr := x, originStorage := (originStorage so)(key \<mapsto> v)\<rparr>"
      using assms db True
      by (auto simp: obj_GetCommittedState_def obj_setError_def Let_def split: prod.splits if_splits option.splits
          intro: that [of "obj_dbErr so"] that)
    have "v = committed_of G D (so\<lparr>obj_dbErr := x\<rparr>) key" using True v by (simp add: committed_of_def)
    then have "oview G D so1 = oview G D so"
      using oview_origin [of v G D "so\<lparr>obj_dbErr := x\<rparr>" key] True so1 by (simp add: obj_simps)
    then show ?thesis using so1 True v by (auto simp: refreshes_def committed_of_def intro: wf_intros)
  qed
  then show "v = committed_of G D so key" and "refreshes G D so so1" by blast+
qed

lemma obj_GetState_eq:
  assumes "obj_GetState G D so key = (v, so1)"
  shows "v = storage_of G D so key" and "refreshes G D so so1"
  using assms obj_GetCommittedState_eq [of G D so key v so1]
  by (auto simp: obj_GetState_def storage_of_def split: option.splits)

lemma inv_set: "inv G s \<Longrightarrow> obj_wf G (originBlockHash s) (address so) so \<Longrightarrow> inv G (setStateObject s so)"
  by (auto simp: inv_def objects_wf_def entry_wf_cong [of "setStateObject s so" s] simp del: invD)

lemma undo_put:
  "w_accts w a = Some v \<Longrightarrow> \<not> av_deleted u \<Longrightarrow> f u = v \<Longrightarrow> on_live (put_acct w a u) a f = Inr w"
  by (simp add: on_live_def put_acct_idem)

context state_database
begin

lemma evolves_cached [wf_intros]: "evolves G D s (cached G D s a)"
  by (rule evolves_same) (auto simp: inv_def intro: wf_intros simp del: invD)

text \<open>Replacing an object by one that looks the same.\<close>

lemma evolves_refresh:
  assumes "lookup G D s a = Some so" "oview G D so' = oview G D so"
    "\<And>bh. obj_wf G bh a so \<Longrightarrow> obj_wf G bh a so'"
  shows "evolves G D s (setStateObject s so')"
proof (cases "inv G s")
  case True
  have wf': "obj_wf G (originBlockHash s) a so'" using obj_wf_lookup [OF invD(1) [OF True] assms(1)] by (rule assms(3))
  have a: "address so' = a" by (rule obj_wfD(1) [OF wf'])
  have "inv G (setStateObject s so')" using inv_set [OF True] wf' a by simp
  then show ?thesis using assms(1,2) a by (intro evolves_same) (simp_all add: view_setStateObject put_acct_idem)
qed (simp add: evolves_def)

text \<open>Writing an object of the state with an entry that takes the write same_view.\<close>

lemma evolves_write:
  assumes "lookup G D s a = Some so"
    and "obj_wf G (originBlockHash s) a so \<Longrightarrow> obj_wf G (originBlockHash s) a so'"
    and "obj_wf G (originBlockHash s) a so \<Longrightarrow> entry_wf G s e"
    and "\<And>bh w. obj_wf G bh a so \<Longrightarrow> w_accts w a = Some (oview G D so) \<Longrightarrow>
           undoW G D bh e (put_acct w a (oview G D so')) = Inr w"
  shows "evolves G D s (setStateObject (journal_append s e) so')"
proof (cases "inv G s")
  case True
  have wf: "obj_wf G (originBlockHash s) a so" by (rule obj_wf_lookup [OF invD(1) [OF True] assms(1)])
  have wf': "obj_wf G (originBlockHash s) a so'" by (rule assms(2) [OF wf])
  have a: "address so' = a" by (rule obj_wfD(1) [OF wf'])
  have "inv G (setStateObject (journal_append s e) so')"
    using inv_set [OF inv_journal_append [OF True assms(3) [OF wf]]] wf' a by simp
  moreover have "undoW G D (originBlockHash s) e (put_acct (view G D s) a (oview G D so')) = Inr (view G D s)"
    by (rule assms(4) [OF wf]) (simp add: assms(1))
  ultimately show ?thesis using a by (intro evolves_log [where e = e]) (simp_all add: view_setStateObject)
qed (simp add: evolves_def)

lemma evolves_destruct [wf_intros]: "evolves G D s (s\<lparr>stateObjectsDestruct := X\<rparr>)"
  by (rule evolves_same) (auto simp: view_upd intro: inv_same [of G s])

lemma lookup_destruct [simp]:
  "lookup G D (s\<lparr>stateObjectsDestruct := X\<rparr>) = lookup G D s"
  "lookup G D (journal_append s e) = lookup G D s"
  by (simp_all add: lookup_def journal_append_def fun_eq_iff split: option.split)

text \<open>
  The journal entry of a creation takes same_view anything done to the new object before the next
  entry; \<open>CreateAccount\<close> relies on it when it carries the balance over.
\<close>

lemma evolves_create_new:
  assumes "lookup G D s a = None" and "obj_wf G (originBlockHash s) a so'"
  shows "evolves G D s (setStateObject (journal_append s (createObjectChange a)) so')"
proof (cases "inv G s")
  case True
  have none: "stateObjects s a = None" "db_load G D (originBlockHash s) a = None"
    using assms(1) by (auto simp: lookup_def split: option.splits)
  then have fresh: "a \<notin> stateObjectsDirty s" "a \<notin> stateObjectsPending s"
    using invD(1) [OF True] by (auto simp: objects_wf_def)
  have a: "address so' = a" by (rule obj_wfD(1) [OF assms(2)])
  have "inv G (setStateObject (journal_append s (createObjectChange a)) so')"
    using inv_set [OF inv_journal_append [OF True]] assms(2) a fresh by simp
  moreover have "undoW G D (originBlockHash s) (createObjectChange a) (put_acct (view G D s) a v) = Inr (view G D s)" for v
    using fresh assms(1) none(2)
    by (auto simp: put_acct_def view_def intro!: ext)
  ultimately show ?thesis using a
    by (intro evolves_log [where e = "createObjectChange a"]) (simp_all add: view_setStateObject)
qed (simp add: evolves_def)

lemma evolves_create_reset:
  assumes "lookup G D s a = Some p" and "obj_wf G (originBlockHash s) a so'"
  shows "evolves G D s (setStateObject (journal_append s (resetObjectChange p d)) so')"
  by (rule evolves_write [OF assms(1)]) (use assms(2) in \<open>auto simp: put_acct_idem dest: obj_wfD\<close>)

lemma cached_same_destruct [simp]:
  "(cached G D s a)\<lparr>stateObjectsDestruct := stateObjectsDestruct s\<rparr> = cached G D s a"
  by (rule cached_shape [of G D s a]) simp

lemma createObject_shape:
  assumes "createObject G D s a = (n, prev, s')"
  obtains t e where "evolves G D s t" "lookup G D t = lookup G D s" "originBlockHash t = originBlockHash s"
    "n = newObject G a emptyStateAccount (originBlockHash s)" "s' = setStateObject (journal_append t e) n"
    "e = (case lookup G D s a of None \<Rightarrow> createObjectChange a
          | Some p \<Rightarrow> resetObjectChange p (address p \<in> stateObjectsDestruct s))"
    "prev = (case lookup G D s a of None \<Rightarrow> None | Some p \<Rightarrow> if deleted p then None else Some p)"
    "stateObjectsDestruct t = (case lookup G D s a of None \<Rightarrow> stateObjectsDestruct s
       | Some p \<Rightarrow> insert (address p) (stateObjectsDestruct s))"
proof (cases "lookup G D s a")
  case None
  then show ?thesis using assms evolves_cached
    by (intro that [of "cached G D s a"]) (auto simp: createObject_def getDeleted_eq fun_eq_iff Let_def)
next
  case (Some p)
  define t where "t = (cached G D s a)\<lparr>stateObjectsDestruct := insert (address p) (stateObjectsDestruct s)\<rparr>"
  have "evolves G D s t" using evolves_trans [OF evolves_cached evolves_destruct] by (simp add: t_def)
  then show ?thesis using assms Some
    by (intro that [of t]) (auto simp: createObject_def getDeleted_eq fun_eq_iff t_def insert_absorb Let_def
        split: if_splits)
qed

lemma evolves_create:
  assumes "e = (case lookup G D t a of None \<Rightarrow> createObjectChange a | Some p \<Rightarrow> resetObjectChange p (d p))"
    and "obj_wf G (originBlockHash t) a so'"
  shows "evolves G D t (setStateObject (journal_append t e) so')"
  using assms evolves_create_new evolves_create_reset by (cases "lookup G D t a") auto

lemma getOrNew_ok:
  assumes "getOrNewStateObject G D s a = (so, s')"
  shows "evolves G D s s'" and "lookup G D s' a = Some so" and "\<not> deleted so"
    and "originBlockHash s' = originBlockHash s"
proof -
  have "evolves G D s s' \<and> lookup G D s' a = Some so \<and> \<not> deleted so \<and> originBlockHash s' = originBlockHash s"
  proof (cases "fst (getStateObject G D s a)")
    case (Some x)
    with assms show ?thesis
      by (auto simp: getOrNewStateObject_def getStateObject_eq split: option.splits if_splits intro: wf_intros)
  next
    case None
    then obtain prev where c: "createObject G D (cached G D s a) a = (so, prev, s')"
      using assms by (auto simp: getOrNewStateObject_def getStateObject_eq split: prod.splits)
    then obtain t e where t: "evolves G D (cached G D s a) t" "lookup G D t = lookup G D (cached G D s a)"
      "originBlockHash t = originBlockHash s" "so = newObject G a emptyStateAccount (originBlockHash s)"
      "s' = setStateObject (journal_append t e) so"
      "e = (case lookup G D (cached G D s a) a of None \<Rightarrow> createObjectChange a
          | Some p \<Rightarrow> resetObjectChange p (address p \<in> stateObjectsDestruct (cached G D s a)))"
      by (rule createObject_shape) auto
    have "evolves G D t s'" unfolding t(5) by (rule evolves_create) (use t in \<open>auto intro: wf_intros\<close>)
    then have "evolves G D s s'" using evolves_trans evolves_cached t(1) by blast
    then show ?thesis using t by simp
  qed
  then show "evolves G D s s'" and "lookup G D s' a = Some so" and "\<not> deleted so"
    and "originBlockHash s' = originBlockHash s" by blast+
qed

section \<open>The operations\<close>

lemma evolves_CreateAccount [wf_intros]: "evolves G D s (CreateAccount G D s a)"
proof -
  obtain n prev s' where c: "createObject G D s a = (n, prev, s')" by (cases "createObject G D s a") auto
  then obtain t e where t: "evolves G D s t" "lookup G D t = lookup G D s" "originBlockHash t = originBlockHash s"
    "n = newObject G a emptyStateAccount (originBlockHash s)" "s' = setStateObject (journal_append t e) n"
    "e = (case lookup G D s a of None \<Rightarrow> createObjectChange a
          | Some p \<Rightarrow> resetObjectChange p (address p \<in> stateObjectsDestruct s))"
    by (rule createObject_shape)
  define so where "so = (case prev of None \<Rightarrow> n | Some p \<Rightarrow> setBalance n (Balance (data p)))"
  have "CreateAccount G D s a = setStateObject (journal_append t e) so"
    by (simp add: CreateAccount_def c so_def t(4,5) setStateObject_def split: option.split)
  moreover have "evolves G D t (setStateObject (journal_append t e) so)"
    by (rule evolves_create) (use t in \<open>auto simp: so_def intro: wf_intros split: option.split\<close>)
  ultimately show ?thesis using t(1) evolves_trans by simp
qed

lemma evolves_touch:
  "lookup G D s a = Some so \<Longrightarrow> evolves G D s (touch s so)"
  by (rule evolves_log [where e = "touchChange (address so)"])
    (auto simp: touch_def Let_def intro!: inv_cong [of G s] journal_wf_append journal_wf_dirty)

lemma evolves_balance:
  assumes "lookup G D s a = Some so" "\<not> deleted so"
  shows "evolves G D s (obj_SetBalance s so b)"
  unfolding obj_SetBalance_def
  by (rule evolves_write [OF assms(1)])
    (use assms(2) in \<open>auto simp: obj_simps intro!: undo_put intro: wf_intros dest: obj_wfD\<close>)

lemma evolves_nonce:
  assumes "lookup G D s a = Some so" "\<not> deleted so"
  shows "evolves G D s (obj_SetNonce s so n)"
  unfolding obj_SetNonce_def
  by (rule evolves_write [OF assms(1)])
    (use assms(2) in \<open>auto simp: obj_simps intro!: undo_put intro: wf_intros dest: obj_wfD\<close>)

lemma evolves_obj_SetCode:
  assumes "common_laws G" "lookup G D s a = Some so" "\<not> deleted so"
  shows "evolves G D s (obj_SetCode G D s so h c)"
proof -
  obtain pc so1 where c: "obj_Code G D so = (pc, so1)" by fastforce
  have r: "refreshes G D so so1" by (rule obj_Code_eq(2) [OF c])
  show ?thesis unfolding obj_SetCode_def c Let_def prod.case
  proof (rule evolves_write [OF assms(2)])
    assume "obj_wf G (originBlockHash s) a so"
    then show "obj_wf G (originBlockHash s) a (setCode so1 h c)" using r by (auto simp: refreshes_def intro: wf_intros)
  next
    fix bh and w :: world assume wf: "obj_wf G bh a so" and w: "w_accts w a = Some (oview G D so)"
    then have "obj_wf G bh a so1" using r by (simp add: refreshes_def)
    then obtain x where a: "address so1 = a" and x: "CodeHash (data so1) = hash_bytes x" by (auto simp: obj_wf_def)
    have pc: "pc = code_of G D (code so1) (CodeHash (data so1))"
      using obj_Code_eq(1) [OF c] r oview_more(6) by (metis refreshes_def)
    have same_view: "(oview G D so)\<lparr>av_data := (data so)\<lparr>CodeHash := CodeHash (data so1)\<rparr>,
        av_code := code_of G D (code so1) (CodeHash (data so1))\<rparr> = oview G D so"
      using refreshesD [OF r] r [unfolded refreshes_def, THEN conjunct1, symmetric] by (simp add: oview_def)
    have "code_of G D pc (CodeHash (data so1)) = pc" by (auto simp: pc code_of_def split: option.split)
    then show "undoW G D bh (codeChange (address so1) pc (CodeHash (data so1)))
        (put_acct w a (oview G D (setCode so1 h c))) = Inr w"
      using a x w r assms(1,3) refreshesD [OF r] same_view by (auto simp: obj_simps refreshes_def pc intro!: undo_put)
  qed simp
qed

lemma evolves_obj_SetState:
  assumes "lookup G D s a = Some so" "\<not> deleted so" "fakeStorage so = None"
  shows "evolves G D s (obj_SetState G D s so k v)"
proof -
  obtain p so1 where c: "obj_GetState G D so k = (p, so1)" by fastforce
  note p = obj_GetState_eq [OF c]
  show ?thesis
  proof (cases "p = v")
    case True
    have "evolves G D s (setStateObject s so1)"
      by (rule evolves_refresh [OF assms(1)]) (use p(2) in \<open>auto simp: refreshes_def\<close>)
    with True c assms(3) show ?thesis by (simp add: obj_SetState_def)
  next
    case False
    have "evolves G D s (setStateObject (journal_append s (storageChange (address so1) k p)) (setState so1 k v))"
    proof (rule evolves_write [OF assms(1)])
      assume "obj_wf G (originBlockHash s) a so"
      then show "obj_wf G (originBlockHash s) a (setState so1 k v)" using p(2) by (auto simp: refreshes_def intro: wf_intros)
    next
      fix bh and w :: world assume wf: "obj_wf G bh a so" and w: "w_accts w a = Some (oview G D so)"
      then have "obj_wf G bh a so1" using p(2) by (simp add: refreshes_def)
      then have f: "fakeStorage so1 = None" "address so1 = a" by (auto simp: obj_wf_def)
      show "undoW G D bh (storageChange (address so1) k p) (put_acct w a (oview G D (setState so1 k v))) = Inr w"
        using f w p assms(2) refreshesD [OF p(2)] by (auto simp: obj_simps refreshes_def intro!: undo_put)
    qed simp
    with False c assms(3) show ?thesis by (simp add: obj_SetState_def)
  qed
qed

end

end
