(* ===== verification/DirectSnapshot.thy ===== *)
theory DirectSnapshot
  imports DirectOps
begin

text \<open>
  Sequences of calls on a \<open>direct_by_leaf\<close> state. \<open>exec\<close> runs one of the calls that an EVM makes
  inside a transaction. \<open>Prepare\<close>, \<open>Finalise\<close> and \<open>Copy\<close> belong to the boundaries of transactions and \<open>SetStorage\<close>
  to debugging: they are not undone by snapshots and have properties of their own;
  \<open>run\<close> runs a sequence, stopping at a panic. Every call keeps the invariant \<open>wf\<close>, and a
  snapshot can be reverted to after any sequence of calls, nested snapshots and reverts
  included, as long as no revert went below it.
\<close>

section \<open>Calls\<close>

datatype call =
    CExist address | CEmpty address | CGetBalance address | CGetNonce address | CGetCode address
  | CGetCodeSize address | CGetCodeHash address | CGetState address hash
  | CGetCommittedState address hash | CHasSuicided address
  | CCreateAccount address | CAddBalance address int | CSubBalance address int | CSetBalance address int
  | CSetNonce address u64 | CSetCode address "bytes option" | CSetState address hash hash
  | CSuicide address | CAddLog Log | CAddPreimage hash bytes | CAddRefund u64 | CSubRefund u64
  | CSetTransientState address hash hash | CAddAddressToAccessList address
  | CAddSlotToAccessList address hash | CSetTxContext hash int
  | CSnapshot | CRevertToSnapshot int | CForEachStorage address "hash \<Rightarrow> hash \<Rightarrow> bool"

fun exec :: "geth \<Rightarrow> StateDatabase \<Rightarrow> directDB \<Rightarrow> call \<Rightarrow> panic + directDB" where
  "exec G D s (CExist a) = Inr (snd (Exist G D s a))"
| "exec G D s (CEmpty a) = Inr (snd (Empty G D s a))"
| "exec G D s (CGetBalance a) = Inr (snd (GetBalance G D s a))"
| "exec G D s (CGetNonce a) = Inr (snd (GetNonce G D s a))"
| "exec G D s (CGetCode a) = Inr (snd (GetCode G D s a))"
| "exec G D s (CGetCodeSize a) = Inr (snd (GetCodeSize G D s a))"
| "exec G D s (CGetCodeHash a) = Inr (snd (GetCodeHash G D s a))"
| "exec G D s (CGetState a k) = Inr (snd (GetState G D s a k))"
| "exec G D s (CGetCommittedState a k) = Inr (snd (GetCommittedState G D s a k))"
| "exec G D s (CHasSuicided a) = Inr (snd (HasSuicided G D s a))"
| "exec G D s (CCreateAccount a) = Inr (CreateAccount G D s a)"
| "exec G D s (CAddBalance a x) = Inr (AddBalance G D s a x)"
| "exec G D s (CSubBalance a x) = Inr (SubBalance G D s a x)"
| "exec G D s (CSetBalance a x) = Inr (SetBalance G D s a x)"
| "exec G D s (CSetNonce a n) = Inr (SetNonce G D s a n)"
| "exec G D s (CSetCode a c) = Inr (SetCode G D s a c)"
| "exec G D s (CSetState a k v) = Inr (SetState G D s a k v)"
| "exec G D s (CSuicide a) = Inr (snd (Suicide G D s a))"
| "exec G D s (CAddLog l) = Inr (AddLog s l)"
| "exec G D s (CAddPreimage h p) = Inr (AddPreimage s h p)"
| "exec G D s (CAddRefund g) = Inr (AddRefund s g)"
| "exec G D s (CSubRefund g) = SubRefund s g"
| "exec G D s (CSetTransientState a k v) = Inr (SetTransientState s a k v)"
| "exec G D s (CAddAddressToAccessList a) = Inr (AddAddressToAccessList s a)"
| "exec G D s (CAddSlotToAccessList a k) = AddSlotToAccessList s a k"
| "exec G D s (CSetTxContext h i) = Inr (SetTxContext s h i)"
| "exec G D s CSnapshot = Inr (snd (Snapshot s))"
| "exec G D s (CRevertToSnapshot i) = RevertToSnapshot G D s i"
| "exec G D s (CForEachStorage a cb) = map_sum id (\<lambda>_. s) (ForEachStorage s a cb)"

definition run :: "geth \<Rightarrow> StateDatabase \<Rightarrow> directDB \<Rightarrow> call list \<Rightarrow> panic + directDB" where
  "run G D s cs = foldE (exec G D) s cs"

section \<open>Every call but the snapshot calls logs what it does\<close>

context state_database
begin

lemma evolves_getStateObject:
  assumes "getStateObject G D s a = (obj, s1)"
  shows "evolves G D s s1" and "obj = Some so \<Longrightarrow> lookup G D s1 a = Some so \<and> \<not> deleted so"
  using assms by (auto simp: getStateObject_eq intro: wf_intros split: option.splits if_splits)

lemma evolves_read:
  assumes "getStateObject G D s a = (Some so, s1)" and "refreshes G D so so'"
  shows "evolves G D s (setStateObject s1 so')"
  using evolves_getStateObject [OF assms(1)] evolves_refresh assms(2) unfolding refreshes_def
  by (blast intro: evolves_trans)

lemma oview_suicide:
  "oview G D (so\<lparr>suicided := x, data := (data so)\<lparr>Balance := b\<rparr>\<rparr>) =
     (oview G D so)\<lparr>av_suicided := x, av_data := (data so)\<lparr>Balance := b\<rparr>\<rparr>"
  using oview_set(1) [of G D "so\<lparr>suicided := x\<rparr>" b] by (simp add: setBalance_def obj_simps)

lemma evolves_Suicide: "evolves G D s (snd (Suicide G D s a))"
proof -
  obtain obj s1 where g: "getStateObject G D s a = (obj, s1)" by fastforce
  note e = evolves_getStateObject [OF g]
  show ?thesis
  proof (cases obj)
    case None
    with e g show ?thesis by (simp add: Suicide_def)
  next
    case (Some so)
    have "evolves G D s1 (setStateObject (journal_append s1 (suicideChange a (suicided so) (Balance (data so))))
        ((markSuicided so)\<lparr>data := (data so)\<lparr>Balance := 0\<rparr>\<rparr>))"
      by (rule evolves_write [where so = so])
        (use e(2) Some in \<open>auto simp: markSuicided_def obj_wf_def oview_suicide put_acct_idem obj_simps\<close>)
    with e(1) g Some show ?thesis by (auto simp: Suicide_def markSuicided_def intro: evolves_trans)
  qed
qed

lemma evolves_reads [wf_intros]:
  "evolves G D s (snd (Exist G D s a))" "evolves G D s (snd (Empty G D s a))"
  "evolves G D s (snd (GetBalance G D s a))" "evolves G D s (snd (GetNonce G D s a))"
  "evolves G D s (snd (GetCodeHash G D s a))" "evolves G D s (snd (HasSuicided G D s a))"
  by (simp_all add: Exist_def Empty_def GetBalance_def GetNonce_def GetCodeHash_def HasSuicided_def
      getStateObject_eq evolves_cached)

lemma evolves_object_reads [wf_intros]:
  "evolves G D s (snd (GetCode G D s a))" "evolves G D s (snd (GetCodeSize G D s a))"
  "evolves G D s (snd (GetState G D s a k))" "evolves G D s (snd (GetCommittedState G D s a k))"
  by (auto simp: GetCode_def GetCodeSize_def GetState_def GetCommittedState_def split: prod.split option.split
      intro: evolves_getStateObject evolves_read
      dest: obj_Code_eq obj_CodeSize_eq obj_GetState_eq obj_GetCommittedState_eq)

text \<open>A write on the object \<open>getOrNewStateObject\<close> finds or makes.\<close>

lemma evolves_getOrNew:
  assumes "\<And>so s1. lookup G D s1 a = Some so \<Longrightarrow> \<not> deleted so \<Longrightarrow> evolves G D s1 (f so s1)"
  shows "evolves G D s (let (so, s1) = getOrNewStateObject G D s a in f so s1)"
proof -
  obtain so s1 where g: "getOrNewStateObject G D s a = (so, s1)" by fastforce
  note o = getOrNew_ok [OF g]
  show ?thesis using evolves_trans [OF o(1) assms [OF o(2,3)]] g by simp
qed

lemma evolves_writes [wf_intros]:
  "evolves G D s (AddBalance G D s a x)" "evolves G D s (SubBalance G D s a x)"
  "evolves G D s (SetBalance G D s a x)" "evolves G D s (SetNonce G D s a n)"
  "common_laws G \<Longrightarrow> evolves G D s (SetCode G D s a c)"
  unfolding AddBalance_def SubBalance_def SetBalance_def SetNonce_def SetCode_def
  by (rule evolves_getOrNew; auto simp: obj_AddBalance_def obj_SubBalance_def
      intro: evolves_balance evolves_nonce evolves_obj_SetCode evolves_touch evolves_refl)+

lemma evolves_SetState [wf_intros]: "evolves G D s (SetState G D s a k v)"
  unfolding SetState_def
proof (rule evolves_getOrNew)
  fix so s1 assume l: "lookup G D s1 a = Some so" "\<not> deleted so"
  show "evolves G D s1 (obj_SetState G D s1 so k v)"
  proof (cases "inv G s1")
    case True
    then have "fakeStorage so = None" using obj_wf_lookup [OF _ l(1)] obj_wfD(2) by auto
    with l show ?thesis by (rule evolves_obj_SetState)
  qed (simp add: evolves_def)
qed

lemma evolves_SubRefund [wf_intros]: "SubRefund s g = Inr s' \<Longrightarrow> evolves G D s s'"
  using evolves_refund [of G D s] by (auto simp: SubRefund_def Let_def split: if_splits)

lemma evolves_AddRefund [wf_intros]: "evolves G D s (AddRefund s g)"
  using evolves_refund [of G D s] by (simp add: AddRefund_def Let_def)

lemma evolves_exec:
  assumes "common_laws G" and "exec G D s c = Inr s'"
    and "c \<noteq> CSnapshot" and "\<And>i. c \<noteq> CRevertToSnapshot i"
  shows "evolves G D s s'"
  using assms by (cases c) (auto intro: wf_intros evolves_Suicide)

section \<open>The invariant along a sequence of calls\<close>

lemma wf_inv: "wf G D s \<longleftrightarrow> inv G s \<and> revisions_wf s
    \<and> (\<exists>w. ul.undoes G D (originBlockHash s) (entries (journal s)) (view G D s) w)"
  by (auto simp: wf_def inv_def simp del: invD)

text \<open>
  \<open>extends s0 s\<close>: \<open>s\<close> was reached from \<open>s0\<close> without reverting below it. The entries since
  \<open>s0\<close> lead back to what \<open>s0\<close> looked like, and the revisions taken since are newer.
\<close>

definition extends :: "geth \<Rightarrow> directDB \<Rightarrow> directDB \<Rightarrow> bool" where
  "extends G s0 s \<longleftrightarrow> originBlockHash s = originBlockHash s0
     \<and> (\<exists>es. entries (journal s) = entries (journal s0) @ es
          \<and> ul.undoes G D (originBlockHash s0) es (view G D s) (view G D s0))
     \<and> (\<exists>rs. validRevisions s = validRevisions s0 @ rs
          \<and> (\<forall>r \<in> set rs. nextRevisionId s0 \<le> rev_id r \<and> length (entries (journal s0)) \<le> journalIndex r))
     \<and> nextRevisionId s0 \<le> nextRevisionId s"

lemma extends_refl: "extends G s s"
  by (auto simp: extends_def)

lemma wf_evolves:
  assumes "evolves G D s s'" "wf G D s" shows "wf G D s'"
proof -
  from assms obtain es where e: "inv G s'" "originBlockHash s' = originBlockHash s"
    "validRevisions s' = validRevisions s" "nextRevisionId s' = nextRevisionId s"
    "entries (journal s') = entries (journal s) @ es"
    "ul.undoes G D (originBlockHash s) es (view G D s') (view G D s)"
    by (auto simp: wf_inv elim: evolvesE)
  from assms(2) e have "revisions_wf s'" by (auto simp: wf_inv revisions_wf_def)
  with assms(2) e show ?thesis by (auto simp: wf_inv intro: ul.undoes_trans)
qed

lemma extends_evolves:
  assumes "extends G s0 s" "evolves G D s s'" "wf G D s" shows "extends G s0 s'"
proof -
  from assms(2,3) obtain es where e: "originBlockHash s' = originBlockHash s"
    "validRevisions s' = validRevisions s" "nextRevisionId s' = nextRevisionId s"
    "entries (journal s') = entries (journal s) @ es"
    "ul.undoes G D (originBlockHash s) es (view G D s') (view G D s)"
    by (auto simp: wf_inv elim: evolvesE)
  with assms(1) show ?thesis by (auto simp: extends_def intro: ul.undoes_trans)
qed

lemma wf_Snapshot: "wf G D s \<Longrightarrow> wf G D (snd (Snapshot s))"
  by (auto simp: wf_inv Snapshot_def Let_def view_upd revisions_wf_def journal_length_def sorted_wrt_append
      intro!: inv_same [of G s])

lemma extends_Snapshot: "extends G s0 s \<Longrightarrow> extends G s0 (snd (Snapshot s))"
  by (auto simp: extends_def Snapshot_def Let_def view_upd journal_length_def)

lemma Revert_ok:
  assumes "wf G D s" and "validRevisions s = rs @ Revision i n # qs"
  obtains s' w where "RevertToSnapshot G D s i = Inr s'" "wf G D s'" "validRevisions s' = rs"
    "journal s' = journal_revert n (journal s)" "nextRevisionId s' = nextRevisionId s"
    "originBlockHash s' = originBlockHash s" "n \<le> length (entries (journal s))"
    "ul.undoes G D (originBlockHash s) (drop n (entries (journal s))) (view G D s) (view G D s')"
proof -
  from assms(1) obtain w0 where w: "inv G s" "revisions_wf s"
    "ul.undoes G D (originBlockHash s) (entries (journal s)) (view G D s) w0" by (auto simp: wf_inv)
  have n: "n \<le> length (entries (journal s))" using w(2) assms(2) by (auto simp: revisions_wf_def)
  obtain w1 where w1: "ul.undoes G D (originBlockHash s) (drop n (entries (journal s))) (view G D s) w1"
    "ul.undoes G D (originBlockHash s) (take n (entries (journal s))) w1 w0"
    by (rule ul.undoes_drop [OF w(3) n])
  obtain t where t: "revert G D s n = Inr t" "view G D t = w1" "objects_wf G t"
    "journal t = journal_revert n (journal s)" "validRevisions t = validRevisions s"
    "nextRevisionId t = nextRevisionId s" "originBlockHash t = originBlockHash s"
    using revert_ok [OF _ _ n w1(1)] w(1) by auto
  define s' where "s' = t\<lparr>validRevisions := rs\<rparr>"
  have r: "RevertToSnapshot G D s i = Inr s'"
    using findRevision_ok [OF w(2) assms(2)] t by (simp add: RevertToSnapshot_def s'_def assms(2))
  have "al_wf (accList t)"
  proof (cases "drop n (entries (journal s)) = []")
    case True
    then have "view G D t = view G D s" using w1(1) t(2) by simp
    then show ?thesis using w(1) by (metis invD(3) view_more(7))
  next
    case False
    then have "goodW (view G D t)" using ul.undoes_good [OF w1(1)] t(2) by simp
    then show ?thesis by (simp add: goodW_def)
  qed
  then have "inv G t" using t w(1) by (auto simp: inv_def intro: wf_intros simp del: invD)
  then have "inv G s'" by (auto simp: s'_def intro: inv_same [of G t])
  moreover have "revisions_wf s'"
    using w(2) n t by (auto simp: revisions_wf_def s'_def assms(2) sorted_wrt_append)
  ultimately have "wf G D s'" using t w1(2) by (auto simp: wf_inv s'_def view_upd)
  then show ?thesis using r t n w1(1) by (intro that [of s']) (auto simp: s'_def view_upd)
qed

lemma wf_Revert:
  assumes "wf G D s" "RevertToSnapshot G D s i = Inr s'" shows "wf G D s'"
proof -
  from assms obtain idx n where "findRevision s i = Inr (idx, n)"
    by (auto simp: RevertToSnapshot_def split: sum.splits)
  then obtain rs qs where "validRevisions s = rs @ Revision i n # qs"
    using assms(1) findRevision_Inr unfolding wf_inv by metis
  with assms show ?thesis by (metis Inr_inject Revert_ok)
qed

lemma newer_revision:
  assumes "extends G s0 s" "revisions_wf s0" "validRevisions s = rs @ Revision i n # qs" "nextRevisionId s0 \<le> i"
  obtains rs' where "rs = validRevisions s0 @ rs'" "length (entries (journal s0)) \<le> n"
    "\<forall>r \<in> set rs'. nextRevisionId s0 \<le> rev_id r \<and> length (entries (journal s0)) \<le> journalIndex r"
proof -
  obtain ns where ns: "validRevisions s = validRevisions s0 @ ns"
    "\<forall>r \<in> set ns. nextRevisionId s0 \<le> rev_id r \<and> length (entries (journal s0)) \<le> journalIndex r"
    using assms(1) by (auto simp: extends_def)
  have "Revision i n \<notin> set (validRevisions s0)" using assms(2,4) by (auto simp: revisions_wf_def)
  then obtain rs' where "rs = validRevisions s0 @ rs'" "ns = rs' @ Revision i n # qs"
    using assms(3) ns(1) by (auto simp: append_eq_append_conv2 append_eq_Cons_conv Cons_eq_append_conv)
  then show ?thesis using that ns(2) by auto
qed

lemma extends_Revert:
  assumes "extends G s0 s" "wf G D s" "RevertToSnapshot G D s i = Inr s'" "nextRevisionId s0 \<le> i" "wf G D s0"
  shows "extends G s0 s'"
proof -
  from assms(3) obtain idx n where "findRevision s i = Inr (idx, n)"
    by (auto simp: RevertToSnapshot_def split: sum.splits)
  then obtain rs qs where vr: "validRevisions s = rs @ Revision i n # qs"
    using assms(2) findRevision_Inr unfolding wf_inv by metis
  obtain s1 where s1: "RevertToSnapshot G D s i = Inr s1" "validRevisions s1 = rs"
    "journal s1 = journal_revert n (journal s)" "nextRevisionId s1 = nextRevisionId s"
    "originBlockHash s1 = originBlockHash s"
    "ul.undoes G D (originBlockHash s) (drop n (entries (journal s))) (view G D s) (view G D s1)"
    by (rule Revert_ok [OF assms(2) vr])
  have [simp]: "s1 = s'" using s1(1) assms(3) by simp
  obtain rs' where rs: "rs = validRevisions s0 @ rs'" "length (entries (journal s0)) \<le> n"
    "\<forall>r \<in> set rs'. nextRevisionId s0 \<le> rev_id r \<and> length (entries (journal s0)) \<le> journalIndex r"
    using newer_revision [OF assms(1) _ vr assms(4)] assms(5) unfolding wf_inv by metis
  obtain es where es: "entries (journal s) = entries (journal s0) @ es" "originBlockHash s = originBlockHash s0"
    "ul.undoes G D (originBlockHash s0) es (view G D s) (view G D s0)" "nextRevisionId s0 \<le> nextRevisionId s"
    using assms(1) by (auto simp: extends_def)
  define m where "m = n - length (entries (journal s0))"
  have "ul.undoes G D (originBlockHash s0) (drop m es) (view G D s) (view G D s')"
    using s1(6) es(1,2) rs(2) by (simp add: m_def)
  moreover have "ul.undoes G D (originBlockHash s0) (take m es @ drop m es) (view G D s) (view G D s0)"
    using es(3) by simp
  ultimately have "ul.undoes G D (originBlockHash s0) (take m es) (view G D s') (view G D s0)"
    using ul.undoes_functional unfolding ul.undoes_append by metis
  then show ?thesis using s1 es rs by (auto simp: extends_def m_def)
qed

text \<open>One call, and a sequence of calls.\<close>

lemma exec_cases:
  assumes "common_laws G" "exec G D s c = Inr s'"
  obtains (snapshot) "c = CSnapshot" "s' = snd (Snapshot s)"
    | (revert) i where "c = CRevertToSnapshot i" "RevertToSnapshot G D s i = Inr s'"
    | (other) "evolves G D s s'"
  using assms evolves_exec [OF assms] by (cases c) auto

lemma wf_exec:
  assumes "common_laws G" "wf G D s" "exec G D s c = Inr s'" shows "wf G D s'"
  using assms(1,3) by (cases rule: exec_cases) (use assms(2) wf_Snapshot wf_Revert wf_evolves in blast)+

lemma extends_exec:
  assumes "common_laws G" "exec G D s c = Inr s'" "wf G D s0" "wf G D s" "extends G s0 s"
    and "\<And>i. c = CRevertToSnapshot i \<Longrightarrow> nextRevisionId s0 \<le> i"
  shows "extends G s0 s'"
  using assms(1,2)
  by (cases rule: exec_cases) (use assms(3-) extends_Snapshot extends_Revert extends_evolves in blast)+

lemma run_ok:
  assumes "common_laws G" "wf G D s0" "wf G D s" "extends G s0 s" "run G D s cs = Inr s'"
    and "\<And>i. CRevertToSnapshot i \<in> set cs \<Longrightarrow> nextRevisionId s0 \<le> i"
  shows "wf G D s' \<and> extends G s0 s'"
  using assms(3-)
proof (induction cs arbitrary: s)
  case (Cons c cs)
  then obtain t where t: "exec G D s c = Inr t" "run G D t cs = Inr s'"
    by (auto simp: run_def split: sum.splits)
  have "wf G D t" by (rule wf_exec [OF assms(1) Cons.prems(1) t(1)])
  moreover have "extends G s0 t"
    by (rule extends_exec [OF assms(1) t(1) assms(2) Cons.prems(1,2)]) (use Cons.prems(4) in simp)
  ultimately show ?case using Cons.IH t(2) Cons.prems(4) by simp
qed (simp add: run_def)

lemma run_wf:
  "common_laws G \<Longrightarrow> wf G D s \<Longrightarrow> run G D s cs = Inr s' \<Longrightarrow> wf G D s'"
  unfolding run_def by (induction cs arbitrary: s) (auto split: sum.splits intro: wf_exec)

lemma run_extends:
  assumes "common_laws G" "wf G D s" "run G D s cs = Inr s'"
    and "\<And>i. CRevertToSnapshot i \<in> set cs \<Longrightarrow> nextRevisionId s \<le> i"
  shows "wf G D s' \<and> extends G s s'"
  using run_ok [OF assms(1,2,2) extends_refl assms(3,4)] by simp

text \<open>Reverting to a snapshot: it succeeds and restores the world, the journal and the revisions.\<close>

lemma Revert_after_run:
  assumes "common_laws G" "wf G D s" "run G D (snd (Snapshot s)) cs = Inr s2"
    and "\<And>i. CRevertToSnapshot i \<in> set cs \<Longrightarrow> fst (Snapshot s) < i"
  obtains s' where "RevertToSnapshot G D s2 (fst (Snapshot s)) = Inr s'" "wf G D s'" "view G D s' = view G D s"
    "entries (journal s') = entries (journal s)" "validRevisions s' = validRevisions s"
proof -
  let ?s1 = "snd (Snapshot s)" and ?n = "length (entries (journal s))"
  have id: "fst (Snapshot s) = nextRevisionId s" "nextRevisionId ?s1 = nextRevisionId s + 1"
    "validRevisions ?s1 = validRevisions s @ [Revision (nextRevisionId s) ?n]" "journal ?s1 = journal s"
    "originBlockHash ?s1 = originBlockHash s" "view G D ?s1 = view G D s"
    by (simp_all add: Snapshot_def Let_def journal_length_def view_upd)
  have e: "wf G D s2" "extends G ?s1 s2"
    using run_extends [OF assms(1) wf_Snapshot [OF assms(2)] assms(3)] assms(4) id by force+
  then obtain rs es where rs: "validRevisions s2 = validRevisions s @ Revision (nextRevisionId s) ?n # rs"
    and es: "entries (journal s2) = entries (journal s) @ es"
      "ul.undoes G D (originBlockHash s) es (view G D s2) (view G D s)" "originBlockHash s2 = originBlockHash s"
    using id by (auto simp: extends_def)
  obtain s' where s': "RevertToSnapshot G D s2 (nextRevisionId s) = Inr s'" "wf G D s'"
    "validRevisions s' = validRevisions s" "journal s' = journal_revert ?n (journal s2)"
    "ul.undoes G D (originBlockHash s2) (drop ?n (entries (journal s2))) (view G D s2) (view G D s')"
    by (rule Revert_ok [OF e(1) rs])
  have "view G D s' = view G D s" using s'(5) es ul.undoes_functional by auto
  then show ?thesis using s' es id by (intro that [of s']) auto
qed

text \<open>The only calls that panic, and when.\<close>

lemma Revert_panics:
  assumes "wf G D s"
  shows "RevertToSnapshot G D s i = Inl p \<longleftrightarrow> i \<notin> rev_id ` set (validRevisions s) \<and> p = RevisionCannotBeReverted i"
proof (cases "i \<in> rev_id ` set (validRevisions s)")
  case True
  then obtain r where "r \<in> set (validRevisions s)" "rev_id r = i" by auto
  then obtain rs n qs where "validRevisions s = rs @ Revision i n # qs"
    by (metis revision.exhaust_sel split_list)
  from Revert_ok [OF assms this] True show ?thesis by (metis Inl_Inr_False)
next
  case False
  then have "findRevision s i = Inl (RevisionCannotBeReverted i)"
    using assms by (intro findRevision_unknown) (auto simp: wf_def)
  with False show ?thesis by (auto simp: RevertToSnapshot_def)
qed

lemma exec_panics:
  assumes "wf G D s"
  shows "exec G D s c = Inl p \<longleftrightarrow>
      (\<exists>g. c = CSubRefund g \<and> refund s < g \<and> p = RefundBelowZero g (refund s))
    \<or> (\<exists>i. c = CRevertToSnapshot i \<and> i \<notin> rev_id ` set (validRevisions s) \<and> p = RevisionCannotBeReverted i)
    \<or> (\<exists>a cb. c = CForEachStorage a cb \<and> p = PanicMsg ''ForEachStorage is not implemented'')"
proof (cases c)
  case (CAddSlotToAccessList a k)
  have "al_wf (accList s)" using assms by (simp add: wf_def)
  then show ?thesis using AddSlot_total [of "accList s" a k] CAddSlotToAccessList
    by (auto simp: AddSlotToAccessList_def Let_def)
qed (auto simp: Revert_panics [OF assms] SubRefund_def ForEachStorage_def Let_def)

end

end
