(* ===== verification/DirectSpec.thy ===== *)
theory DirectSpec
  imports DirectSnapshot
begin

text \<open>
  The abstract specification of the \<open>direct_by_leaf\<close> state: what each read returns, as a
  function of the world (\<open>DirectView\<close>), and what each account operation does to the world. The world has
  no caches, no journal and no object identity, so the refinement lemmas say that none of
  these can be observed.
\<close>

section \<open>Reads\<close>

definition read_or :: "'r \<Rightarrow> world \<Rightarrow> address \<Rightarrow> (acctView \<Rightarrow> 'r) \<Rightarrow> 'r" where
  "read_or d w a f = (case live w a of None \<Rightarrow> d | Some v \<Rightarrow> f v)"

lemma read_or_view:
  "read_or d (view G D s) a f =
     (case fst (getStateObject G D s a) of None \<Rightarrow> d | Some so \<Rightarrow> f (oview G D so))"
  by (simp add: read_or_def live_view split: option.split)

lemma reads_spec:
  "fst (Exist G D s a) = (live (view G D s) a \<noteq> None)"
  "fst (GetBalance G D s a) = read_or 0 (view G D s) a (\<lambda>v. Balance (av_data v))"
  "fst (GetNonce G D s a) = read_or 0 (view G D s) a (\<lambda>v. Nonce (av_data v))"
  "fst (GetCodeHash G D s a) = read_or 0 (view G D s) a (\<lambda>v. BytesToHash G (CodeHash (av_data v)))"
  "fst (HasSuicided G D s a) = read_or False (view G D s) a av_suicided"
  "fst (Empty G D s a) = read_or True (view G D s) a
     (\<lambda>v. Nonce (av_data v) = 0 \<and> Balance (av_data v) = 0 \<and> CodeHash (av_data v) = emptyCodeHash G)"
  "fst (GetCode G D s a) = read_or None (view G D s) a av_code"
  "fst (GetState G D s a k) = read_or 0 (view G D s) a (\<lambda>v. av_storage v k)"
  "fst (GetCommittedState G D s a k) = read_or 0 (view G D s) a (\<lambda>v. av_committed v k)"
  unfolding Exist_def GetBalance_def GetNonce_def GetCodeHash_def HasSuicided_def Empty_def GetCode_def
    GetState_def GetCommittedState_def read_or_view
  by (auto simp: live_view empty_def split: option.split prod.split
      dest: obj_Code_eq obj_GetState_eq obj_GetCommittedState_eq)

context state_database
begin

lemma obj_CodeSize_value:
  "fst (obj_CodeSize G D so) = (case code_of G D (code so) (CodeHash (data so)) of None \<Rightarrow> 0 | Some c \<Rightarrow> int (length c))"
proof -
  obtain n err where "db_ContractCodeSize D (BytesToHash G (CodeHash (data so))) = (n, err)" by fastforce
  then show ?thesis using code_size [of "BytesToHash G (CodeHash (data so))"]
    by (simp add: obj_CodeSize_def code_of_def split: option.split)
qed

lemma CodeSize_spec:
  "fst (GetCodeSize G D s a) =
     read_or 0 (view G D s) a (\<lambda>v. case av_code v of None \<Rightarrow> 0 | Some c \<Rightarrow> int (length c))"
proof -
  have "fst (GetCodeSize G D s a) =
      (case fst (getStateObject G D s a) of None \<Rightarrow> 0 | Some so \<Rightarrow> fst (obj_CodeSize G D so))"
    by (simp add: GetCodeSize_def split_def Let_def split: option.split)
  then show ?thesis by (simp add: read_or_view obj_CodeSize_value split: option.split)
qed

end

text \<open>Two states no read can tell apart.\<close>

definition same_reads :: "geth \<Rightarrow> StateDatabase \<Rightarrow> directDB \<Rightarrow> directDB \<Rightarrow> bool" where
  "same_reads G D s t \<longleftrightarrow>
     (\<forall>a. fst (Exist G D s a) = fst (Exist G D t a) \<and> fst (Empty G D s a) = fst (Empty G D t a)
        \<and> fst (GetBalance G D s a) = fst (GetBalance G D t a)
        \<and> fst (GetNonce G D s a) = fst (GetNonce G D t a)
        \<and> fst (GetCode G D s a) = fst (GetCode G D t a)
        \<and> fst (GetCodeSize G D s a) = fst (GetCodeSize G D t a)
        \<and> fst (GetCodeHash G D s a) = fst (GetCodeHash G D t a)
        \<and> fst (HasSuicided G D s a) = fst (HasSuicided G D t a))
     \<and> (\<forall>a k. fst (GetState G D s a k) = fst (GetState G D t a k)
          \<and> fst (GetCommittedState G D s a k) = fst (GetCommittedState G D t a k)
          \<and> GetTransientState s a k = GetTransientState t a k
          \<and> SlotInAccessList s a k = SlotInAccessList t a k)
     \<and> (\<forall>a. AddressInAccessList s a = AddressInAccessList t a)
     \<and> (\<forall>h n b. fst (GetLogs s h n b) = fst (GetLogs t h n b))
     \<and> GetRefund s = GetRefund t \<and> logSize s = logSize t \<and> preimages s = preimages t"

lemma GetLogs_at:
  "fst (GetLogs s h n b) = map (\<lambda>l. l\<lparr>log_BlockNumber := n, log_BlockHash := b\<rparr>) (logs_at (logs s) h)"
  by (simp add: GetLogs_def logs_at_def Let_def split: option.split)

context state_database
begin

lemma same_reads_view:
  assumes "view G D s = view G D t" shows "same_reads G D s t"
proof -
  have m: "accList s = accList t" "Get (transient s) = Get (transient t)" "logs_at (logs s) = logs_at (logs t)"
    "refund s = refund t" "logSize s = logSize t" "preimages s = preimages t"
    using assms view_more by metis+
  show ?thesis
    unfolding same_reads_def
    using assms m by (simp add: reads_spec CodeSize_spec GetLogs_at GetTransientState_def SlotInAccessList_def
        AddressInAccessList_def GetRefund_def)
qed

end

section \<open>Account operations\<close>

definition fresh_acct :: "geth \<Rightarrow> StateDatabase \<Rightarrow> hash \<Rightarrow> address \<Rightarrow> acctView" where
  "fresh_acct G D bh a = oview G D (newObject G a emptyStateAccount bh)"

definition live_or_fresh :: "geth \<Rightarrow> StateDatabase \<Rightarrow> hash \<Rightarrow> world \<Rightarrow> address \<Rightarrow> acctView" where
  "live_or_fresh G D bh w a = (case live w a of Some v \<Rightarrow> v | None \<Rightarrow> fresh_acct G D bh a)"

definition updW ::
    "geth \<Rightarrow> StateDatabase \<Rightarrow> hash \<Rightarrow> world \<Rightarrow> address \<Rightarrow> (acctView \<Rightarrow> acctView) \<Rightarrow> world" where
  "updW G D bh w a f = put_acct w a (f (live_or_fresh G D bh w a))"

definition with_balance :: "acctView \<Rightarrow> int \<Rightarrow> acctView" where
  "with_balance v b = v\<lparr>av_data := (av_data v)\<lparr>Balance := b\<rparr>\<rparr>"

fun specW :: "geth \<Rightarrow> StateDatabase \<Rightarrow> hash \<Rightarrow> call \<Rightarrow> world \<Rightarrow> world" where
  "specW G D bh (CCreateAccount a) w =
     put_acct w a (with_balance (fresh_acct G D bh a) (read_or 0 w a (\<lambda>v. Balance (av_data v))))"
| "specW G D bh (CAddBalance a x) w = updW G D bh w a (\<lambda>v. with_balance v (Balance (av_data v) + x))"
| "specW G D bh (CSubBalance a x) w = updW G D bh w a (\<lambda>v. with_balance v (Balance (av_data v) - x))"
| "specW G D bh (CSetBalance a x) w = updW G D bh w a (\<lambda>v. with_balance v x)"
| "specW G D bh (CSetNonce a n) w = updW G D bh w a (\<lambda>v. v\<lparr>av_data := (av_data v)\<lparr>Nonce := n\<rparr>\<rparr>)"
| "specW G D bh (CSetCode a c) w =
     updW G D bh w a (\<lambda>v. v\<lparr>av_data := (av_data v)\<lparr>CodeHash := hash_bytes
                               (keccak256 G (case c of None \<Rightarrow> [] | Some b \<Rightarrow> b))\<rparr>, av_code := c\<rparr>)"
| "specW G D bh (CSetState a k x) w = updW G D bh w a (\<lambda>v. v\<lparr>av_storage := (av_storage v)(k := x)\<rparr>)"
| "specW G D bh (CSuicide a) w =
     (case live w a of None \<Rightarrow> w | Some v \<Rightarrow> put_acct w a (with_balance (v\<lparr>av_suicided := True\<rparr>) 0))"
| "specW G D bh _ w = w"

fun acct_call :: "call \<Rightarrow> bool" where
  "acct_call (CSetTransientState _ _ _) = False"
| "acct_call (CAddLog _) = False"
| "acct_call (CAddPreimage _ _) = False"
| "acct_call (CAddRefund _) = False"
| "acct_call (CSubRefund _) = False"
| "acct_call (CAddAddressToAccessList _) = False"
| "acct_call (CAddSlotToAccessList _ _) = False"
| "acct_call (CRevertToSnapshot _) = False"
| "acct_call (CForEachStorage _ _) = False"
| "acct_call _ = True"

context state_database
begin

lemma createObject_view:
  assumes "createObject G D s a = (n, prev, s')"
  shows "view G D s' = put_acct (view G D s) a (fresh_acct G D (originBlockHash s) a)"
    and "n = newObject G a emptyStateAccount (originBlockHash s)"
    and "prev = (case lookup G D s a of None \<Rightarrow> None | Some p \<Rightarrow> if deleted p then None else Some p)"
proof -
  have v: "view G D (s1\<lparr>stateObjectsDestruct := X\<rparr>) = view G D s1" for s1 :: directDB and X by (simp add: view_upd)
  show "view G D s' = put_acct (view G D s) a (fresh_acct G D (originBlockHash s) a)"
    and "n = newObject G a emptyStateAccount (originBlockHash s)"
    and "prev = (case lookup G D s a of None \<Rightarrow> None | Some p \<Rightarrow> if deleted p then None else Some p)"
    using assms by (auto simp: createObject_def getDeleted_eq Let_def view_setStateObject fresh_acct_def v
        split: option.splits if_splits)
qed

lemma getOrNew_view:
  assumes "getOrNewStateObject G D s a = (so, s1)" "objects_wf G s"
  shows "view G D s1 = put_acct (view G D s) a (oview G D so)"
    and "oview G D so = live_or_fresh G D (originBlockHash s) (view G D s) a"
    and "address so = a" and "fakeStorage so = None" and "lookup G D s1 a = Some so"
proof -
  have "view G D s1 = put_acct (view G D s) a (oview G D so)
    \<and> oview G D so = live_or_fresh G D (originBlockHash s) (view G D s) a \<and> address so = a \<and> fakeStorage so = None"
  proof (cases "fst (getStateObject G D s a)")
    case (Some x)
    then have l: "lookup G D s a = Some so" "s1 = cached G D s a" "x = so"
      using assms(1) by (auto simp: getOrNewStateObject_def getStateObject_eq split: option.splits if_splits)
    have "obj_wf G (originBlockHash s) a so" by (rule obj_wf_lookup [OF assms(2) l(1)])
    then show ?thesis
      using Some l by (simp add: put_acct_idem live_or_fresh_def live_view obj_wf_def)
  next
    case None
    then obtain prev where c: "createObject G D (cached G D s a) a = (so, prev, s1)"
      using assms(1) by (auto simp: getOrNewStateObject_def getStateObject_eq split: prod.splits)
    show ?thesis using createObject_view [OF c] None by (simp add: live_or_fresh_def live_view fresh_acct_def)
  qed
  then show "view G D s1 = put_acct (view G D s) a (oview G D so)"
    and "oview G D so = live_or_fresh G D (originBlockHash s) (view G D s) a"
    and "address so = a" and "fakeStorage so = None" by blast+
  show "lookup G D s1 a = Some so" by (rule getOrNew_ok(2) [OF assms(1)])
qed

lemma updW_getOrNew:
  assumes "objects_wf G s"
    and "\<And>so s1. getOrNewStateObject G D s a = (so, s1) \<Longrightarrow> address so = a \<Longrightarrow> fakeStorage so = None \<Longrightarrow>
           w_accts (view G D s1) a = Some (oview G D so) \<Longrightarrow>
           view G D (f so s1) = put_acct (view G D s1) a (g (oview G D so))"
  shows "view G D (let (so, s1) = getOrNewStateObject G D s a in f so s1)
     = updW G D (originBlockHash s) (view G D s) a g"
proof -
  obtain so s1 where g: "getOrNewStateObject G D s a = (so, s1)" by fastforce
  note v = getOrNew_view [OF g assms(1)]
  show ?thesis using assms(2) [OF g v(3,4)] v g by (simp add: updW_def)
qed

lemma view_obj_SetBalance:
  "view G D (obj_SetBalance s so b) = put_acct (view G D s) (address so) (with_balance (oview G D so) b)"
  by (simp add: obj_SetBalance_def view_setStateObject obj_simps with_balance_def)

lemma view_touch [simp]: "view G D (touch s so) = view G D s"
  by (simp add: touch_def Let_def)

lemma with_balance_same [simp]: "with_balance v (Balance (av_data v)) = v"
  by (simp add: with_balance_def)

lemma view_balance_ops:
  assumes "objects_wf G s"
  shows "view G D (AddBalance G D s a x) = specW G D (originBlockHash s) (CAddBalance a x) (view G D s)"
    and "view G D (SubBalance G D s a x) = specW G D (originBlockHash s) (CSubBalance a x) (view G D s)"
    and "view G D (SetBalance G D s a x) = specW G D (originBlockHash s) (CSetBalance a x) (view G D s)"
proof -
  have same: "with_balance (oview G D so) (Balance (data so)) = oview G D so" for so
    using with_balance_same [of "oview G D so"] by simp
  show "view G D (AddBalance G D s a x) = specW G D (originBlockHash s) (CAddBalance a x) (view G D s)"
    "view G D (SubBalance G D s a x) = specW G D (originBlockHash s) (CSubBalance a x) (view G D s)"
    "view G D (SetBalance G D s a x) = specW G D (originBlockHash s) (CSetBalance a x) (view G D s)"
    unfolding AddBalance_def SubBalance_def SetBalance_def specW.simps
    by (rule updW_getOrNew [OF assms]; simp add: obj_AddBalance_def obj_SubBalance_def view_obj_SetBalance
        put_acct_idem same)+
qed

lemma view_SetNonce:
  "objects_wf G s \<Longrightarrow> view G D (SetNonce G D s a n) = specW G D (originBlockHash s) (CSetNonce a n) (view G D s)"
  unfolding SetNonce_def specW.simps
  by (rule updW_getOrNew; simp add: obj_SetNonce_def view_setStateObject obj_simps)

lemma view_SetCode:
  "objects_wf G s \<Longrightarrow> view G D (SetCode G D s a c) = specW G D (originBlockHash s) (CSetCode a c) (view G D s)"
  unfolding SetCode_def specW.simps
proof (rule updW_getOrNew, assumption)
  fix so :: directObject and s1 :: directDB assume a: "address so = a"
  obtain pc so1 where p: "obj_Code G D so = (pc, so1)" by fastforce
  have "address so1 = address so"
    using p by (auto simp: obj_Code_def obj_setError_def Let_def split: option.splits if_splits prod.splits)
  moreover have "code_of G D c (hash_bytes (keccak256 G (case c of None \<Rightarrow> [] | Some b \<Rightarrow> b))) = c"
    by (simp add: code_of_def emptyCodeHash_def split: option.split)
  ultimately show "view G D (obj_SetCode G D s1 so (keccak256 G (case c of None \<Rightarrow> [] | Some b \<Rightarrow> b)) c) =
      put_acct (view G D s1) a ((oview G D so)\<lparr>av_data := (av_data (oview G D so))\<lparr>CodeHash :=
        hash_bytes (keccak256 G (case c of None \<Rightarrow> [] | Some b \<Rightarrow> b))\<rparr>, av_code := c\<rparr>)"
    using a obj_Code_eq(2) [OF p] refreshesD [OF obj_Code_eq(2) [OF p]]
    by (simp add: obj_SetCode_def p view_setStateObject obj_simps refreshes_def)
qed

lemma view_SetState:
  "objects_wf G s \<Longrightarrow> view G D (SetState G D s a k x) = specW G D (originBlockHash s) (CSetState a k x) (view G D s)"
  unfolding SetState_def specW.simps
proof (rule updW_getOrNew, assumption)
  fix so :: directObject and s1 :: directDB
  assume a: "address so = a" and f: "fakeStorage so = None" and w: "w_accts (view G D s1) a = Some (oview G D so)"
  obtain p so1 where p: "obj_GetState G D so k = (p, so1)" by fastforce
  note r = obj_GetState_eq [OF p]
  have so1: "address so1 = address so" "fakeStorage so1 = None"
    using p f by (auto simp: obj_GetState_def obj_GetCommittedState_def obj_setError_def Let_def
        split: option.splits if_splits prod.splits)
  show "view G D (obj_SetState G D s1 so k x) =
      put_acct (view G D s1) a ((oview G D so)\<lparr>av_storage := (av_storage (oview G D so))(k := x)\<rparr>)"
  proof (cases "p = x")
    case True
    have "(oview G D so)\<lparr>av_storage := (storage_of G D so)(k := x)\<rparr> = oview G D so"
      using r(1) True by (simp add: fun_upd_idem oview_def)
    then show ?thesis using True f p a so1 r w by (simp add: obj_SetState_def view_setStateObject refreshes_def)
  next
    case False
    then show ?thesis using f p a so1 r refreshesD [OF r(2)]
      by (simp add: obj_SetState_def view_setStateObject obj_simps refreshes_def)
  qed
qed

lemma view_CreateAccount:
  "view G D (CreateAccount G D s a) = specW G D (originBlockHash s) (CCreateAccount a) (view G D s)"
proof -
  obtain n prev s' where c: "createObject G D s a = (n, prev, s')" by (cases "createObject G D s a") auto
  note v = createObject_view [OF c]
  have "read_or 0 (view G D s) a (\<lambda>v. Balance (av_data v)) = (case prev of None \<Rightarrow> 0 | Some p \<Rightarrow> Balance (data p))"
    using v(3) by (auto simp: read_or_def live_view getStateObject_eq split: option.splits)
  moreover have "Balance (av_data (fresh_acct G D (originBlockHash s) a)) = 0"
    by (simp add: fresh_acct_def newObject_def emptyStateAccount_def)
  then have "with_balance (fresh_acct G D (originBlockHash s) a) 0 = fresh_acct G D (originBlockHash s) a"
    using with_balance_same by metis
  ultimately show ?thesis
    using v(1,2) by (auto simp: CreateAccount_def c view_setStateObject obj_simps with_balance_def fresh_acct_def
        split: option.split)
qed

lemma view_Suicide:
  assumes "objects_wf G s"
  shows "view G D (snd (Suicide G D s a)) = specW G D (originBlockHash s) (CSuicide a) (view G D s)"
proof (cases "fst (getStateObject G D s a)")
  case (Some so)
  then have l: "lookup G D s a = Some so" by (auto simp: getStateObject_eq split: option.splits if_splits)
  then have "address so = a" using obj_wf_lookup [OF assms l] by (simp add: obj_wf_def)
  with Some show ?thesis
    by (auto simp: Suicide_def getStateObject_eq live_view view_setStateObject markSuicided_def oview_suicide
        with_balance_def split: option.splits if_splits)
qed (auto simp: Suicide_def getStateObject_eq live_view split: option.splits if_splits)

lemma view_refresh:
  assumes "objects_wf G s" "getStateObject G D s a = (Some so, s1)" "refreshes G D so so'"
  shows "view G D (setStateObject s1 so') = view G D s"
proof -
  have l: "lookup G D s a = Some so" "s1 = cached G D s a"
    using assms(2) by (auto simp: getStateObject_eq split: option.splits if_splits)
  have "obj_wf G (originBlockHash s) a so'"
    using obj_wf_lookup [OF assms(1) l(1)] assms(3) by (simp add: refreshes_def)
  then have "address so' = a" by (rule obj_wfD)
  with l assms(3) show ?thesis by (simp add: view_setStateObject refreshes_def put_acct_idem)
qed

lemma view_object_reads:
  assumes "objects_wf G s"
  shows "view G D (snd (GetCode G D s a)) = view G D s" "view G D (snd (GetCodeSize G D s a)) = view G D s"
    "view G D (snd (GetState G D s a k)) = view G D s" "view G D (snd (GetCommittedState G D s a k)) = view G D s"
  unfolding GetCode_def GetCodeSize_def GetState_def GetCommittedState_def
  by (auto split: prod.split option.split intro: view_refresh [OF assms]
      dest: obj_Code_eq obj_CodeSize_eq obj_GetState_eq obj_GetCommittedState_eq)
    (auto simp: getStateObject_eq)

lemma exec_refines_spec:
  assumes "objects_wf G s" "exec G D s c = Inr s'" "acct_call c"
  shows "view G D s' = specW G D (originBlockHash s) c (view G D s)"
  using assms
  by (cases c) (auto simp: view_object_reads view_Suicide view_CreateAccount view_SetState view_SetCode view_SetNonce
      view_balance_ops view_upd Exist_def Empty_def GetBalance_def GetNonce_def GetCodeHash_def HasSuicided_def
      getStateObject_eq SetTxContext_def Snapshot_def Let_def simp del: specW.simps, auto)

end

end
