(* ===== verification/DirectFinalise.thy ===== *)
theory DirectFinalise
  imports DirectSpec
begin

text \<open>
  The end of a transaction on a \<open>direct_by_leaf\<close> state: \<open>Finalise\<close>, in any order the loop
  over the dirty addresses may take, and \<open>Copy\<close>.
\<close>

section \<open>Finalise in closed form\<close>

definition doomed :: "geth \<Rightarrow> bool \<Rightarrow> directObject \<Rightarrow> bool" where
  "doomed G del so \<longleftrightarrow> suicided so \<or> (del \<and> empty G so)"

definition fin_obj :: "geth \<Rightarrow> bool \<Rightarrow> directObject \<Rightarrow> directObject" where
  "fin_obj G del so = (if doomed G del so then so\<lparr>deleted := True\<rparr> else obj_finalise so)"

definition fin_set :: "geth \<Rightarrow> bool \<Rightarrow> address set \<Rightarrow> directDB \<Rightarrow> directDB" where
  "fin_set G del A s =
     s\<lparr>stateObjects := (\<lambda>a. if a \<in> A then map_option (fin_obj G del) (stateObjects s a) else stateObjects s a),
       stateObjectsPending := stateObjectsPending s \<union> (A \<inter> dom (stateObjects s)),
       stateObjectsDirty := stateObjectsDirty s \<union> (A \<inter> dom (stateObjects s)),
       stateObjectsDestruct := stateObjectsDestruct s
         \<union> {address so | a so. a \<in> A \<and> stateObjects s a = Some so \<and> doomed G del so}\<rparr>"

lemma fin_set_empty: "fin_set G del {} s = s"
  by (simp add: fin_set_def)

lemma fin_set_insert:
  "a \<notin> A \<Longrightarrow> finaliseAddr G del (fin_set G del A s) a = fin_set G del (insert a A) s"
  by (rule directDB.equality)
    (auto simp: finaliseAddr_def fin_set_def fin_obj_def doomed_def Let_def split: option.splits)

lemma Finalise_fold:
  "distinct order \<Longrightarrow> set order \<inter> A = {} \<Longrightarrow>
   foldl (finaliseAddr G del) (fin_set G del A s) order = fin_set G del (set order \<union> A) s"
proof (induction order arbitrary: A)
  case (Cons a order)
  then show ?case by (simp add: fin_set_insert Un_left_commute)
qed simp

lemma Finalise_closed:
  "range_of order (dom (dirties (journal s))) \<Longrightarrow>
   Finalise G order del s = clearJournalAndRefund (fin_set G del (dom (dirties (journal s))) s)"
  using Finalise_fold [of order "{}" G del s] by (auto simp: Finalise_def fin_set_empty)

lemma fin_set_more [simp]:
  "journal (fin_set G del A s) = journal s" "originBlockHash (fin_set G del A s) = originBlockHash s"
  "accList (fin_set G del A s) = accList s" "refund (fin_set G del A s) = refund s"
  "nextRevisionId (fin_set G del A s) = nextRevisionId s" "logs (fin_set G del A s) = logs s"
  "logSize (fin_set G del A s) = logSize s" "preimages (fin_set G del A s) = preimages s"
  "transient (fin_set G del A s) = transient s"
  by (simp_all add: fin_set_def)

lemma obj_wf_fin: "obj_wf G bh a so \<Longrightarrow> obj_wf G bh a (fin_obj G del so)"
  by (simp add: fin_obj_def obj_finalise_def obj_wf_def Let_def)

lemma clear_more [simp]:
  "stateObjects (clearJournalAndRefund s) = stateObjects s"
  "stateObjectsDirty (clearJournalAndRefund s) = stateObjectsDirty s"
  "stateObjectsPending (clearJournalAndRefund s) = stateObjectsPending s"
  "stateObjectsDestruct (clearJournalAndRefund s) = stateObjectsDestruct s"
  "accList (clearJournalAndRefund s) = accList s" "entries (journal (clearJournalAndRefund s)) = []"
  "validRevisions (clearJournalAndRefund s) = []" "logs (clearJournalAndRefund s) = logs s"
  "logSize (clearJournalAndRefund s) = logSize s" "preimages (clearJournalAndRefund s) = preimages s"
  "transient (clearJournalAndRefund s) = transient s"
  by (auto simp: clearJournalAndRefund_def Let_def)

lemma clear_bh [simp]: "originBlockHash (clearJournalAndRefund s) = originBlockHash s"
  by (simp add: clearJournalAndRefund_def Let_def)

lemma journal_wf_clear: "journal_wf (journal s) \<Longrightarrow> journal_wf (journal (clearJournalAndRefund s))"
  by (simp add: clearJournalAndRefund_def Let_def journal_wf_new)

lemma wf_cleared:
  assumes "\<And>a so. stateObjects s a = Some so \<Longrightarrow> obj_wf G (originBlockHash s) a so"
    "stateObjectsDirty s \<subseteq> dom (stateObjects s)" "stateObjectsPending s \<subseteq> dom (stateObjects s)"
    "journal_wf (journal s)" "al_wf (accList s)"
  shows "wf G D (clearJournalAndRefund s)"
  using assms by (auto simp: wf_def objects_wf_def revisions_wf_def journal_wf_clear)

lemma wf_Finalise:
  assumes "wf G D s" "range_of order (dom (dirties (journal s)))"
  shows "wf G D (Finalise G order del s)"
  unfolding Finalise_closed [OF assms(2)]
proof (rule wf_cleared)
  let ?A = "dom (dirties (journal s))"
  have o: "\<And>a so. stateObjects s a = Some so \<Longrightarrow> obj_wf G (originBlockHash s) a so"
    "stateObjectsDirty s \<subseteq> dom (stateObjects s)" "stateObjectsPending s \<subseteq> dom (stateObjects s)"
    using assms(1) by (auto simp: wf_def objects_wf_def)
  show "obj_wf G (originBlockHash (fin_set G del ?A s)) a so" if "stateObjects (fin_set G del ?A s) a = Some so" for a so
    using that o(1) by (auto simp: fin_set_def obj_wf_fin split: if_splits)
  show "stateObjectsDirty (fin_set G del ?A s) \<subseteq> dom (stateObjects (fin_set G del ?A s))"
    "stateObjectsPending (fin_set G del ?A s) \<subseteq> dom (stateObjects (fin_set G del ?A s))"
    using o(2,3) by (auto simp: fin_set_def dom_def split: if_splits)
qed (use assms(1) in \<open>simp_all add: wf_def\<close>)

section \<open>What Finalise does to what can be observed\<close>

text \<open>
  On the account of a dirty address: a destroyed or empty account disappears; any other
  keeps its data and code, and its storage falls back to the committed values, because
  \<open>GetCommittedState\<close> of this package does not look at \<open>pendingStorage\<close>.
\<close>

definition doomedW :: "geth \<Rightarrow> bool \<Rightarrow> acctView \<Rightarrow> bool" where
  "doomedW G del v \<longleftrightarrow> av_suicided v \<or>
     (del \<and> Nonce (av_data v) = 0 \<and> Balance (av_data v) = 0 \<and> CodeHash (av_data v) = emptyCodeHash G)"

definition finW :: "geth \<Rightarrow> bool \<Rightarrow> acctView \<Rightarrow> acctView" where
  "finW G del v = (if doomedW G del v then v\<lparr>av_deleted := True\<rparr> else v\<lparr>av_storage := av_committed v\<rparr>)"

lemma doomedW_oview [simp]: "doomedW G del (oview G D so) = doomed G del so"
  by (simp add: doomedW_def doomed_def empty_def)

lemma deleted_fin [simp]: "deleted (fin_obj G del so) = (doomed G del so \<or> deleted so)"
  by (simp add: fin_obj_def obj_finalise_def Let_def)

lemma oview_fin:
  assumes "fakeStorage so = None"
  shows "oview G D (fin_obj G del so) = finW G del (oview G D so)"
proof (cases "doomed G del so")
  case True
  then show ?thesis by (simp add: fin_obj_def finW_def obj_simps)
next
  case False
  have "oview G D (obj_finalise so) = (oview G D so)\<lparr>av_storage := committed_of G D so\<rparr>"
    using assms by (auto simp: oview_def obj_finalise_def Let_def storage_of_def committed_of_def fun_eq_iff split: option.split)
  with False show ?thesis by (simp add: fin_obj_def finW_def)
qed

lemma live_Finalise:
  assumes "objects_wf G s" "range_of order (dom (dirties (journal s)))" "a \<in> dom (stateObjects s)"
  shows "live (view G D (Finalise G order del s)) a =
    (if a \<in> dom (dirties (journal s))
     then case live (view G D s) a of None \<Rightarrow> None | Some v \<Rightarrow> if doomedW G del v then None else Some (finW G del v)
     else live (view G D s) a)"
proof -
  obtain so where so: "stateObjects s a = Some so" using assms(3) by blast
  then have f: "fakeStorage so = None" using assms(1) by (auto simp: objects_wf_def obj_wf_def)
  have "lookup G D (Finalise G order del s) a = Some (if a \<in> dom (dirties (journal s)) then fin_obj G del so else so)"
    by (simp add: lookup_def Finalise_closed [OF assms(2)] fin_set_def so)
  moreover have "lookup G D s a = Some so" by (simp add: lookup_def so)
  ultimately show ?thesis
    using oview_fin [OF f, of G D del] by (auto simp: live_def finW_def)
qed

lemma live_Finalise_absent:
  assumes "range_of order (dom (dirties (journal s)))" "a \<notin> dom (stateObjects s)"
  shows "live (view G D (Finalise G order del s)) a = live (view G D s) a"
proof -
  have "lookup G D (Finalise G order del s) a = lookup G D s a"
    using assms(2) by (simp add: lookup_def Finalise_closed [OF assms(1)] fin_set_def domIff)
  then show ?thesis by (simp add: live_def)
qed

section \<open>Copy\<close>

text \<open>The copy under construction, with the objects of \<open>A\<close> copied.\<close>

definition copying :: "geth \<Rightarrow> directDB \<Rightarrow> address set \<Rightarrow> address set \<Rightarrow> address set \<Rightarrow> directDB" where
  "copying G s A X Y =
     (New (originBlockHash s))\<lparr>refund := refund s, logSize := logSize s,
       stateObjects := (\<lambda>a. if a \<in> A then map_option (obj_deepCopy G) (stateObjects s a) else None),
       stateObjectsDirty := X, stateObjectsPending := Y\<rparr>"

lemma copying_start: "(New (originBlockHash s))\<lparr>refund := refund s, logSize := logSize s\<rparr> = copying G s {} {} {}"
  by (simp add: copying_def New_def)

lemma copyDirtied_copying:
  "copyDirtied G s (copying G s A X Y) a =
     copying G s (insert a A) (X \<union> ({a} \<inter> dom (stateObjects s))) (Y \<union> ({a} \<inter> dom (stateObjects s)))"
  by (rule directDB.equality) (auto simp: copyDirtied_def copying_def split: option.split)

lemma copyMissing_copying:
  "a \<in> dom (stateObjects s) \<Longrightarrow> copyMissing G s (copying G s A X Y) a = Inr (copying G s (insert a A) X Y)"
  by (auto simp: copyMissing_def copying_def fun_eq_iff intro!: directDB.equality)

lemma copy_dirtied_loop:
  "foldl (copyDirtied G s) (copying G s A X Y) od =
     copying G s (A \<union> set od) (X \<union> (set od \<inter> dom (stateObjects s))) (Y \<union> (set od \<inter> dom (stateObjects s)))"
proof (induction od arbitrary: A X Y)
  case (Cons a od)
  then show ?case by (simp add: copyDirtied_copying Un_assoc Int_insert_left flip: insert_is_Un)
qed simp

lemma copy_pending_loop:
  "set op \<subseteq> dom (stateObjects s) \<Longrightarrow>
   foldE (copyPending G s) (copying G s A X Y) op = Inr (copying G s (A \<union> set op) X (Y \<union> set op))"
proof (induction op arbitrary: A Y)
  case (Cons a op)
  have "copyPending G s (copying G s A X Y) a = Inr (copying G s (insert a A) X (insert a Y))"
    using Cons.prems by (simp add: copyPending_def copyMissing_copying) (simp add: copying_def)
  with Cons show ?case by simp
qed simp

lemma copy_dirty_loop:
  "set op \<subseteq> dom (stateObjects s) \<Longrightarrow>
   foldE (copyDirty G s) (copying G s A X Y) op = Inr (copying G s (A \<union> set op) (X \<union> set op) Y)"
proof (induction op arbitrary: A X)
  case (Cons a op)
  have "copyDirty G s (copying G s A X Y) a = Inr (copying G s (insert a A) (insert a X) Y)"
    using Cons.prems by (simp add: copyDirty_def copyMissing_copying) (simp add: copying_def)
  with Cons show ?case by simp
qed simp

lemma obj_deepCopy_ok:
  assumes "obj_wf G bh a so"
  shows "oview G D (obj_deepCopy G so) = oview G D so" and "obj_wf G bh a (obj_deepCopy G so)"
  using assms
  by (auto simp: obj_deepCopy_def obj_wf_def newObject_def oview_def Let_def Storage_Copy_def storage_of_def
      committed_of_def fun_eq_iff split: option.split)

definition copied :: "directDB \<Rightarrow> address set" where
  "copied s = dom (dirties (journal s)) \<union> stateObjectsPending s \<union> stateObjectsDirty s"

lemma Copy_closed:
  assumes "wf G D s" "range_of od (dom (dirties (journal s)))" "range_of op (stateObjectsPending s)"
    "range_of ot (stateObjectsDirty s)"
  shows "StateDB_Copy G od op ot s = Inr ((copying G s (copied s)
      (stateObjectsDirty s \<union> (dom (dirties (journal s)) \<inter> dom (stateObjects s)))
      (stateObjectsPending s \<union> (dom (dirties (journal s)) \<inter> dom (stateObjects s))))
        \<lparr>stateObjectsDestruct := stateObjectsDestruct s, logs := logs s, preimages := preimages s,
         accList := accList s, transient := transient s\<rparr>)"
proof -
  have sub: "set op \<subseteq> dom (stateObjects s)" "set ot \<subseteq> dom (stateObjects s)"
    using assms by (auto simp: wf_def objects_wf_def range_of_def)
  have sets: "set od = dom (dirties (journal s))" "set op = stateObjectsPending s" "set ot = stateObjectsDirty s"
    using assms(2-4) by auto
  show ?thesis
    unfolding StateDB_Copy_def Let_def copying_start [of s G] copy_dirtied_loop copy_pending_loop [OF sub(1)]
      sum.case copy_dirty_loop [OF sub(2)]
    by (simp add: sets copied_def Un_ac) (simp add: copying_def New_def transient_Copy_def)
qed

end
