(* ===== verification/Ipld.thy ===== *)
theory Ipld
  imports Prelude
begin

text \<open>
  Content identifiers, \<open>internal/util.go\<close>: the CID under which the block with a given keccak256 hash is stored.
  The multihash and CID packages are parameters.
\<close>

record ipld =
  multihashEncode :: "bytes \<Rightarrow> goerr + bytes"
  newCidV1 :: "u64 \<Rightarrow> bytes \<Rightarrow> bytes"

definition Keccak256ToCid :: "'z ipld_scheme \<Rightarrow> u64 \<Rightarrow> bytes \<Rightarrow> goerr + bytes" where
  "Keccak256ToCid P codec h =
     (case multihashEncode P h of Inl e \<Rightarrow> Inl e | Inr buf \<Rightarrow> Inr (newCidV1 P codec buf))"

definition ipld_RawBinary :: u64 where
  "ipld_RawBinary = 0x55"

end
