(* ===== verification/CodeCache.thy ===== *)
theory CodeCache
  imports Ipld
begin

text \<open>
  The contract behind the code caches that both state databases keep (\<open>direct_by_leaf/state_database.go\<close> and
  \<open>trie_by_cid/state/database.go\<close>): one cache from code hashes to code and one to code sizes, filled by
  \<open>ContractCode\<close>, with an eviction policy of which nothing is known. Caches whose entries came from the
  database change no answer.
\<close>

text \<open>The answer of \<open>ContractCodeSize\<close> that goes with an answer of \<open>ContractCode\<close>.\<close>

definition sizeAnswer :: "bytes option \<times> goerr option \<Rightarrow> int \<times> goerr option" where
  "sizeAnswer r = (case fst r of None \<Rightarrow> 0 | Some c \<Rightarrow> int (length c), snd r)"

text \<open>\<open>fetch\<close> is what the database behind the caches answers, \<open>codes\<close> and \<open>sizes\<close> are the two caches of a state.\<close>

locale code_caches =
  fixes fetch :: "hash \<Rightarrow> bytes option \<times> goerr option"
    and get_code :: "'c \<Rightarrow> hash \<Rightarrow> (bytes option \<times> goerr option) \<times> 'c"
    and get_size :: "'c \<Rightarrow> hash \<Rightarrow> (int \<times> goerr option) \<times> 'c"
    and codes :: "'c \<Rightarrow> hash \<rightharpoonup> bytes" and sizes :: "'c \<Rightarrow> hash \<rightharpoonup> int"
  assumes hit: "codes c h = Some b \<Longrightarrow> b \<noteq> [] \<Longrightarrow> get_code c h = ((Some b, None), c)"
    and miss: "codes c h = None \<or> codes c h = Some [] \<Longrightarrow> fst (get_code c h) = fetch h"
    and codes_only: "codes (snd (get_code c h)) g = Some b \<Longrightarrow> codes c g = Some b \<or> g = h \<and> fetch h = (Some b, None)"
    and sizes_only: "sizes (snd (get_code c h)) g = Some n \<Longrightarrow> sizes c g = Some n \<or> g = h \<and> (\<exists>b. fetch h = (Some b, None) \<and> n = int (length b))"
    and size_hit: "sizes c h = Some n \<Longrightarrow> get_size c h = ((n, None), c)"
    and size_miss: "sizes c h = None \<Longrightarrow> get_size c h = (sizeAnswer (fst (get_code c h)), snd (get_code c h))"
begin

definition sound :: "'c \<Rightarrow> bool" where
  "sound c \<longleftrightarrow> (\<forall>h b. codes c h = Some b \<longrightarrow> b \<noteq> [] \<longrightarrow> fetch h = (Some b, None))
     \<and> (\<forall>h n. sizes c h = Some n \<longrightarrow> (\<exists>b. fetch h = (Some b, None) \<and> n = int (length b)))"

lemma code_answer: "sound c \<Longrightarrow> fst (get_code c h) = fetch h"
  by (cases "codes c h = None \<or> codes c h = Some []") (auto simp: miss hit sound_def)

lemma code_sound:
  assumes "sound c" shows "sound (snd (get_code c h))"
  unfolding sound_def
proof (intro conjI allI impI)
  show "fetch g = (Some b, None)" if "codes (snd (get_code c h)) g = Some b" "b \<noteq> []" for g b
    using codes_only [OF that(1)] that(2) assms by (auto simp: sound_def)
  show "\<exists>b. fetch g = (Some b, None) \<and> n = int (length b)" if "sizes (snd (get_code c h)) g = Some n" for g n
    using sizes_only [OF that] assms by (auto simp: sound_def)
qed

lemma size_answer: "sound c \<Longrightarrow> fst (get_size c h) = sizeAnswer (fetch h)"
proof (cases "sizes c h")
  case None
  then show "sound c \<Longrightarrow> ?thesis" by (simp add: size_miss code_answer)
next
  case (Some n)
  assume "sound c"
  then obtain b where "fetch h = (Some b, None)" "n = int (length b)" using Some unfolding sound_def by blast
  then show ?thesis using size_hit [OF Some] by (simp add: sizeAnswer_def)
qed

lemma size_sound: "sound c \<Longrightarrow> sound (snd (get_size c h))"
  by (cases "sizes c h") (simp_all add: size_hit size_miss code_sound)

end

end
