(* ===== verification/DirectDatabase.thy ===== *)
theory DirectDatabase
  imports DirectRevert CodeCache
begin

text \<open>
  \<open>direct_by_leaf/state_database.go\<close>: the Postgres-backed implementation of the
  \<open>StateDatabase\<close> interface and its two caches. The rows the three SQL statements of
  \<open>sql.go\<close> return, the CID constructors, hex and decimal parsing, and the eviction policy of the
  two third-party caches are parameters (\<open>pg\<close>); nothing is assumed of the policy. The
  theory ends with the interpretation of \<open>state_database\<close> on this implementation.
\<close>

section \<open>Parameters\<close>

record StorageSlotResult =
  Value :: bytes
  slot_Removed :: bool
  StateLeafRemoved :: bool

record StateAccountResult =
  res_Balance :: string
  res_Nonce :: u64
  res_CodeHash :: string
  res_StorageRoot :: string
  acct_Removed :: bool

record pg = ipld +
  rowContractCode :: "bytes \<Rightarrow> goerr + bytes"
  rowStateAccount :: "hash \<Rightarrow> hash \<Rightarrow> goerr + StateAccountResult"
  rowStorageSlot :: "hash \<Rightarrow> hash \<Rightarrow> hash \<Rightarrow> goerr + StorageSlotResult"
  bigSetString :: "string \<Rightarrow> int"
  HexToHash :: "string \<Rightarrow> hash"
  keepCode :: "(hash \<rightharpoonup> bytes) \<Rightarrow> hash set"
  keepSize :: "(hash \<rightharpoonup> int) \<Rightarrow> hash set"

section \<open>The implementation\<close>

record stateDatabase =
  codeSizeCache :: "hash \<rightharpoonup> int"
  codeCache :: "hash \<rightharpoonup> bytes"

definition NewStateDatabase :: stateDatabase where
  "NewStateDatabase = \<lparr>codeSizeCache = Map.empty, codeCache = Map.empty\<rparr>"

definition errNotFound :: goerr where
  "errNotFound = Err ''not found''"

definition ContractCode :: "pg \<Rightarrow> stateDatabase \<Rightarrow> hash \<Rightarrow> (bytes option \<times> goerr option) \<times> stateDatabase" where
  "ContractCode P sd codeHash =
     (let hit = (case codeCache sd codeHash of None \<Rightarrow> [] | Some c \<Rightarrow> c)
      in if length hit > 0 then ((Some hit, None), sd)
         else
           (case Keccak256ToCid P ipld_RawBinary (hash_bytes codeHash) of
              Inl e \<Rightarrow> ((None, Some (Wrap ''cannot derive CID from provided codehash'' [] e)), sd)
            | Inr c \<Rightarrow>
                (case rowContractCode P c of
                   Inl e \<Rightarrow> ((None, Some e), sd)
                 | Inr cde \<Rightarrow>
                     (if length cde > 0
                      then let cc = (codeCache sd)(codeHash \<mapsto> cde);
                               sc = (codeSizeCache sd)(codeHash \<mapsto> int (length cde))
                           in ((Some cde, None),
                               sd\<lparr>codeCache := cc |` keepCode P cc, codeSizeCache := sc |` keepSize P sc\<rparr>)
                      else ((None, Some errNotFound), sd)))))"

definition ContractCodeSize :: "pg \<Rightarrow> stateDatabase \<Rightarrow> hash \<Rightarrow> (int \<times> goerr option) \<times> stateDatabase" where
  "ContractCodeSize P sd codeHash =
     (case codeSizeCache sd codeHash of
        Some hit \<Rightarrow> ((hit, None), sd)
      | None \<Rightarrow>
          (let ((cde, err), sd1) = ContractCode P sd codeHash
           in ((case cde of None \<Rightarrow> 0 | Some c \<Rightarrow> int (length c), err), sd1)))"

definition StateAccount :: "pg \<Rightarrow> hash \<Rightarrow> hash \<Rightarrow> rawAccount option \<times> goerr option" where
  "StateAccount P addressHash bh =
     (case rowStateAccount P addressHash bh of
        Inl e \<Rightarrow> (None, Some e)
      | Inr res \<Rightarrow>
          (if acct_Removed res then (None, None)
           else (Some \<lparr>raw_Nonce = res_Nonce res, raw_Balance = Some (bigSetString P (res_Balance res)),
                       raw_Root = HexToHash P (res_StorageRoot res),
                       raw_CodeHash = Some (hash_bytes (HexToHash P (res_CodeHash res)))\<rparr>, None)))"

definition StorageValue :: "pg \<Rightarrow> hash \<Rightarrow> hash \<Rightarrow> hash \<Rightarrow> bytes \<times> goerr option" where
  "StorageValue P addressHash slotHash bh =
     (case rowStorageSlot P addressHash slotHash bh of
        Inl e \<Rightarrow> ([], Some e)
      | Inr res \<Rightarrow> (if slot_Removed res \<or> StateLeafRemoved res then ([], None) else (Value res, None)))"

section \<open>The caches are transparent\<close>

text \<open>What a cold database answers: the row, or the error.\<close>

definition fetchCode :: "pg \<Rightarrow> hash \<Rightarrow> bytes option \<times> goerr option" where
  "fetchCode P h = fst (ContractCode P NewStateDatabase h)"

definition caches_ok :: "pg \<Rightarrow> stateDatabase \<Rightarrow> bool" where
  "caches_ok P sd \<longleftrightarrow>
     (\<forall>h c. codeCache sd h = Some c \<longrightarrow> c \<noteq> [] \<longrightarrow> fetchCode P h = (Some c, None)) \<and>
     (\<forall>h n. codeSizeCache sd h = Some n \<longrightarrow> (\<exists>c. fetchCode P h = (Some c, None) \<and> n = int (length c)))"

definition as_StateDatabase :: "pg \<Rightarrow> stateDatabase \<Rightarrow> StateDatabase" where
  "as_StateDatabase P sd =
     \<lparr>db_ContractCode = (\<lambda>h. fst (ContractCode P sd h)),
      db_ContractCodeSize = (\<lambda>h. fst (ContractCodeSize P sd h)),
      db_StateAccount = StateAccount P, db_StorageValue = StorageValue P\<rparr>"

lemma caches_ok_New [wf_intros]: "caches_ok P NewStateDatabase"
  by (simp add: caches_ok_def NewStateDatabase_def)

lemma fetchCode_eq:
  "fetchCode P h =
     (case Keccak256ToCid P ipld_RawBinary (hash_bytes h) of
        Inl e \<Rightarrow> (None, Some (Wrap ''cannot derive CID from provided codehash'' [] e))
      | Inr c \<Rightarrow> (case rowContractCode P c of Inl e \<Rightarrow> (None, Some e)
                 | Inr cde \<Rightarrow> if cde = [] then (None, Some errNotFound) else (Some cde, None)))"
  by (simp add: fetchCode_def ContractCode_def NewStateDatabase_def Let_def split: sum.split)

interpretation direct_code: code_caches "fetchCode P" "ContractCode P" "ContractCodeSize P" codeCache codeSizeCache for P
  by unfold_locales (auto simp: ContractCode_def ContractCodeSize_def sizeAnswer_def fetchCode_eq Let_def restrict_map_def split_def
      split: sum.splits if_splits)

lemma caches_ok_sound: "caches_ok P sd = direct_code.sound P sd"
  by (simp add: caches_ok_def direct_code.sound_def)

lemma ContractCode_fetch: "caches_ok P sd \<Longrightarrow> fst (ContractCode P sd h) = fetchCode P h"
  unfolding caches_ok_sound by (rule direct_code.code_answer)

lemma caches_ok_ContractCode [wf_intros]: "caches_ok P sd \<Longrightarrow> caches_ok P (snd (ContractCode P sd h))"
  unfolding caches_ok_sound by (rule direct_code.code_sound)

lemma ContractCodeSize_fetch:
  "caches_ok P sd \<Longrightarrow> fst (ContractCodeSize P sd h) =
     (case fst (fetchCode P h) of None \<Rightarrow> 0 | Some c \<Rightarrow> int (length c), snd (fetchCode P h))"
  "caches_ok P sd \<Longrightarrow> caches_ok P (snd (ContractCodeSize P sd h))"
  unfolding caches_ok_sound using direct_code.size_answer direct_code.size_sound by (simp_all add: sizeAnswer_def)

text \<open>
  C34: The caches of the state database change no answer. With caches whose entries came from
  the database, under any eviction policy, the code and the code size are those of a cold
  database, the size is the length of the code, and the caches stay that way.
\<close>

theorem code_caches_transparent:
  assumes "caches_ok P sd"
  shows "fst (ContractCode P sd h) = fst (ContractCode P NewStateDatabase h)
    \<and> fst (ContractCodeSize P sd h) = fst (ContractCodeSize P NewStateDatabase h)
    \<and> fst (fst (ContractCodeSize P sd h))
          = (case fst (fst (ContractCode P sd h)) of None \<Rightarrow> 0 | Some c \<Rightarrow> int (length c))
    \<and> caches_ok P (snd (ContractCode P sd h)) \<and> caches_ok P (snd (ContractCodeSize P sd h))"
  using assms
  by (simp add: ContractCode_fetch ContractCodeSize_fetch caches_ok_New caches_ok_ContractCode)

text \<open>A database with two contracts, and caches that keep nothing but the last entry.\<close>

definition sample_pg :: pg where
  "sample_pg =
     \<lparr>multihashEncode = (\<lambda>b. Inr (0x1b # 0x20 # b)), newCidV1 = (\<lambda>codec b. 1 # ucast codec # b),
      rowContractCode = (\<lambda>c. if last c = 7 then Inr [0x60, 0x00] else Inl (Err ''no rows'')),
      rowStateAccount = (\<lambda>_ _. Inr \<lparr>res_Balance = ''10'', res_Nonce = 1, res_CodeHash = ''0x07'',
                                    res_StorageRoot = ''0x00'', acct_Removed = False\<rparr>),
      rowStorageSlot = (\<lambda>_ _ _. Inr \<lparr>Value = [0x05], slot_Removed = False, StateLeafRemoved = False\<rparr>),
      bigSetString = (\<lambda>_. 10), HexToHash = (\<lambda>s. if s = ''0x07'' then 7 else 0),
      keepCode = (\<lambda>_. {7}), keepSize = (\<lambda>_. {})\<rparr>"

lemma fetchCode_sample: "fetchCode sample_pg 7 = (Some [0x60, 0x00], None)"
  by code_simp

theorem code_caches_transparent_witness:
  "fst (ContractCode sample_pg \<lparr>codeSizeCache = [7 \<mapsto> 2], codeCache = Map.empty\<rparr> 7) = (Some [0x60, 0x00], None)
   \<and> fst (ContractCodeSize sample_pg \<lparr>codeSizeCache = [7 \<mapsto> 2], codeCache = Map.empty\<rparr> 7) = (2, None)"
proof -
  have "caches_ok sample_pg \<lparr>codeSizeCache = [7 \<mapsto> 2], codeCache = Map.empty\<rparr>"
    using fetchCode_sample by (auto simp: caches_ok_def)
  note t = code_caches_transparent [OF this, of 7]
  have "fst (ContractCode sample_pg NewStateDatabase 7) = (Some [0x60, 0x00], None)"
    using fetchCode_sample by (simp add: fetchCode_def)
  moreover have "fst (ContractCodeSize sample_pg NewStateDatabase 7) = (2, None)" by code_simp
  ultimately show ?thesis using t by simp
qed

section \<open>The interface\<close>

lemma as_StateDatabase_caches: "caches_ok P sd \<Longrightarrow> as_StateDatabase P sd = as_StateDatabase P NewStateDatabase"
  by (simp add: as_StateDatabase_def ContractCode_fetch ContractCodeSize_fetch caches_ok_New)

text \<open>With any sound caches the implementation is the one interpreted here.\<close>

interpretation pgdb: state_database "as_StateDatabase P NewStateDatabase" for P
  by unfold_locales (auto simp: as_StateDatabase_def StateAccount_def ContractCodeSize_fetch ContractCode_fetch
      caches_ok_New split: sum.splits if_splits)

end
