(* ===== verification/DirectProps.thy ===== *)
theory DirectProps
  imports DirectFinalise DirectDatabase
begin

text \<open>
  The properties of the \<open>direct_by_leaf\<close> state, with their witnesses. The concrete state of
  the witnesses runs on \<open>sample_pg\<close>, a database in which every account has balance 10, nonce
  1, code and the storage value 5.
\<close>

section \<open>A concrete instance\<close>

definition sample_geth :: geth where
  "sample_geth =
     \<lparr>keccak256 = (\<lambda>bs. if bs = [] then 1 else word_of_nat (be_nat bs)),
      BytesToHash = (\<lambda>bs. word_of_nat (be_nat bs)), EmptyRootHash = 2, EmptyCodeHash = 1,
      rlpString = (\<lambda>b. b), rlpList = (\<lambda>b. b), rlpEmptyString = [0x80],
      rlpSplit = (\<lambda>b. (RlpByte, b, [], None)), rlpSplitString = (\<lambda>b. (b, [], None)),
      rlpSplitList = (\<lambda>b. (b, [], None)), rlpCountValues = length\<rparr>"

definition sample_db :: StateDatabase where
  "sample_db = as_StateDatabase sample_pg NewStateDatabase"

lemma sample_laws: "common_laws sample_geth"
  by (simp add: common_laws_def sample_geth_def)

lemma sample_database: "state_database sample_db"
  unfolding sample_db_def by (rule pgdb.state_database_axioms)

definition no_panic :: "panic + 'a \<Rightarrow> bool" where
  "no_panic r = (case r of Inl _ \<Rightarrow> False | Inr _ \<Rightarrow> True)"

lemma no_panicE: assumes "no_panic r" obtains s where "r = Inr s"
  using assms by (cases r) (auto simp: no_panic_def)

section \<open>Snapshots\<close>

lemma wf_New: "wf G D (New bh)"
  by (auto simp: wf_def objects_wf_def revisions_wf_def New_def intro: wf_intros)

text \<open>
  C3: The invariant of the state: it holds of a new state and after any sequence of calls, in
  particular the dirty counts of the journal agree with its entries, the revisions are sorted, and
  every object is filed under its own address.
\<close>

theorem reachable_wf:
  assumes "state_database D" "common_laws G" "run G D (New bh) cs = Inr s"
  shows "wf G D s"
  using state_database.run_wf [OF assms(1,2) wf_New assms(3)] .

text \<open>
  A run for the witnesses: a nested snapshot with a revert to it, then account writes. The
  inner revert does not panic because its id is a valid revision.
\<close>

definition sample_nested :: "call list" where
  "sample_nested = [CAddRefund 5, CSnapshot, CAddRefund 7, CSetTransientState 1 2 3]"

definition sample_writes :: "call list" where
  "sample_writes = [CSetState 1 3 4, CSnapshot, CSuicide 1, CSetCode 2 (Some [0x60]), CGetCode 2, CCreateAccount 1,
     CSetNonce 1 8]"

definition sample_calls :: "call list" where
  "sample_calls = sample_nested @ CRevertToSnapshot 1 # sample_writes"

lemma run_append: "run G D s (cs @ ds) = (case run G D s cs of Inl p \<Rightarrow> Inl p | Inr s' \<Rightarrow> run G D s' ds)"
  by (simp add: run_def foldE_append split: sum.split)

lemma run_sample:
  "\<exists>s2. run sample_geth sample_db (snd (Snapshot (New 9))) sample_calls = Inr s2"
proof -
  obtain t where t: "run sample_geth sample_db (snd (Snapshot (New 9))) sample_nested = Inr t"
    "1 \<in> rev_id ` set (validRevisions t)"
    by (auto simp: run_def sample_nested_def Snapshot_def New_def AddRefund_def SetTransientState_def
        setTransientState_def Let_def)
  have "wf sample_geth sample_db t"
    by (rule state_database.run_wf [OF sample_database sample_laws _ t(1)])
      (rule state_database.wf_Snapshot [OF sample_database wf_New])
  then obtain u where "exec sample_geth sample_db t (CRevertToSnapshot 1) = Inr u"
    using state_database.exec_panics [OF sample_database, of _ t "CRevertToSnapshot 1"] t(2)
    by (cases "exec sample_geth sample_db t (CRevertToSnapshot 1)") auto
  then show ?thesis by (simp add: sample_calls_def run_append t(1)) (simp add: run_def sample_writes_def)
qed

theorem reachable_wf_witness:
  "\<exists>s. run sample_geth sample_db (New 9) (CSnapshot # sample_calls) = Inr s
     \<and> wf sample_geth sample_db s"
  using run_sample reachable_wf [OF sample_database sample_laws, of 9 "CSnapshot # sample_calls"]
  by (auto simp: run_def)

text \<open>
  C1: A snapshot can be reverted to. After \<open>Snapshot\<close> and any sequence of calls that ran without a
  panic, further snapshots and reverts to them included, \<open>RevertToSnapshot\<close> of the snapshot's
  id succeeds, and no read tells the result from the state at the snapshot. The journal
  has the entries it had, its dirty counts agree but for the ripemd precompile, and the
  valid revisions are those from before the snapshot.
\<close>

theorem revert_restores:
  assumes "state_database D" "common_laws G" "wf G D s"
    and "run G D (snd (Snapshot s)) cs = Inr s2"
    and "\<forall>i. CRevertToSnapshot i \<in> set cs \<longrightarrow> fst (Snapshot s) < i"
  shows "\<exists>s'. RevertToSnapshot G D s2 (fst (Snapshot s)) = Inr s' \<and> wf G D s' \<and> same_reads G D s' s
    \<and> entries (journal s') = entries (journal s)
    \<and> (\<forall>a. a \<noteq> ripemd \<longrightarrow> dirties (journal s') a = dirties (journal s) a)
    \<and> validRevisions s' = validRevisions s"
proof -
  obtain s' where s': "RevertToSnapshot G D s2 (fst (Snapshot s)) = Inr s'" "wf G D s'" "view G D s' = view G D s"
    "entries (journal s') = entries (journal s)" "validRevisions s' = validRevisions s"
    by (rule state_database.Revert_after_run [OF assms(1-4)]) (use assms(5) in auto)
  have "journal_wf (journal s)" "journal_wf (journal s')" using assms(3) s'(2) by (simp_all add: wf_def)
  then have "dirties (journal s') a = dirties (journal s) a" if "a \<noteq> ripemd" for a
    using journal_wf_dirties_eq s'(4) that by metis
  moreover have "same_reads G D s' s" by (rule state_database.same_reads_view [OF assms(1) s'(3)])
  ultimately show ?thesis using s' by blast
qed

theorem revert_restores_witness:
  "\<exists>s2 s'. run sample_geth sample_db (snd (Snapshot (New 9))) sample_calls = Inr s2
     \<and> RevertToSnapshot sample_geth sample_db s2 0 = Inr s' \<and> same_reads sample_geth sample_db s' (New 9)"
proof -
  obtain s2 where s2: "run sample_geth sample_db (snd (Snapshot (New 9))) sample_calls = Inr s2"
    using run_sample by blast
  have "fst (Snapshot (New 9)) = 0" by (simp add: Snapshot_def New_def Let_def)
  then show ?thesis
    using revert_restores [OF sample_database sample_laws wf_New s2] s2
    by (auto simp: sample_calls_def sample_nested_def sample_writes_def)
qed

text \<open>
  C4: A call panics exactly in three cases: \<open>SubRefund\<close> with more gas than the refund counter holds,
  \<open>RevertToSnapshot\<close> with an id that is not a valid revision, and \<open>ForEachStorage\<close>, which is
  not implemented. In a state that satisfies the invariant no nil object is dereferenced and no index is
  out of range, neither in the calls of a transaction nor in \<open>Prepare\<close> and \<open>SlotInAccessList\<close>.
\<close>

theorem only_documented_panics:
  assumes "state_database D" "wf G D s"
  shows "(exec G D s c = Inl p \<longleftrightarrow>
      (\<exists>g. c = CSubRefund g \<and> refund s < g \<and> p = RefundBelowZero g (refund s))
    \<or> (\<exists>i. c = CRevertToSnapshot i \<and> i \<notin> rev_id ` set (validRevisions s) \<and> p = RevisionCannotBeReverted i)
    \<or> (\<exists>a cb. c = CForEachStorage a cb \<and> p = PanicMsg ''ForEachStorage is not implemented''))
    \<and> (\<exists>s'. Prepare s rules sender coinbase dst precompiles lst = Inr s')
    \<and> (\<exists>r. SlotInAccessList s a k = Inr r)"
  using assms(2) by (simp add: state_database.exec_panics [OF assms] Prepare_total SlotInAccessList_def Contains_spec wf_def)

theorem only_documented_panics_witness:
  "exec sample_geth sample_db (New 9) (CSubRefund 2) = Inl (RefundBelowZero 2 0)
   \<and> (\<exists>s. exec sample_geth sample_db (New 9) (CAddRefund 2) = Inr s)"
proof -
  note p = only_documented_panics [OF sample_database wf_New [of sample_geth _ 9], THEN conjunct1]
  have "exec sample_geth sample_db (New 9) (CAddRefund 2) \<noteq> Inl q" for q unfolding p by simp
  then have "\<exists>s. exec sample_geth sample_db (New 9) (CAddRefund 2) = Inr s" by simp
  moreover have "exec sample_geth sample_db (New 9) (CSubRefund 2) = Inl (RefundBelowZero 2 0)"
    unfolding p by (simp add: New_def)
  ultimately show ?thesis by blast
qed

theorem Prepare_warms_exactly_witness:
  "\<exists>s'. Prepare (New 9) \<lparr>IsBerlin = True, IsShanghai = False\<rparr> 1 2 (Some 3) [4, 5]
          [\<lparr>tuple_Address = 6, tuple_StorageKeys = [7]\<rparr>] = Inr s'
     \<and> SlotInAccessList s' 6 7 = Inr (True, True) \<and> \<not> AddressInAccessList s' 2"
  using Prepare_warms_exactly [of "\<lparr>IsBerlin = True, IsShanghai = False\<rparr>" "New 9" 1 2 "Some 3" "[4, 5]"
      "[\<lparr>tuple_Address = 6, tuple_StorageKeys = [7]\<rparr>]"]
  by fastforce

section \<open>Account operations\<close>

text \<open>
  C2: Every account call refines its specification on abstract worlds: reads change nothing that
  can be observed, \<open>CreateAccount\<close> replaces the account but carries the balance over, the
  writes update exactly one field of exactly one account, creating it first when it does
  not exist, and \<open>Suicide\<close> marks an existing account and empties its balance.
\<close>

theorem account_calls_refine_spec:
  assumes "state_database D" "wf G D s" "exec G D s c = Inr s'" "acct_call c"
  shows "view G D s' = specW G D (originBlockHash s) c (view G D s)"
  by (rule state_database.exec_refines_spec [OF assms(1) _ assms(3,4)]) (use assms(2) in \<open>simp add: wf_def\<close>)

theorem account_calls_refine_spec_witness:
  "view sample_geth sample_db (SetNonce sample_geth sample_db (New 9) 1 8)
     = specW sample_geth sample_db 9 (CSetNonce 1 8) (view sample_geth sample_db (New 9))"
  using account_calls_refine_spec [OF sample_database wf_New [of sample_geth _ 9], where c = "CSetNonce 1 8"]
  by (simp add: New_def)

lemma live_put: "live (put_acct w a v) b = (if b = a then (if av_deleted v then None else Some v) else live w b)"
  by (simp add: live_def)

lemma read_updW:
  assumes "\<And>v. av_deleted (f v) = av_deleted v"
  shows "read_or d (updW G D bh w a f) b g = (if b = a then g (f (live_or_fresh G D bh w a)) else read_or d w b g)"
proof -
  have "\<not> av_deleted (live_or_fresh G D bh w a)"
    by (auto simp: live_or_fresh_def live_def fresh_acct_def split: option.splits)
  then show ?thesis by (simp add: updW_def read_or_def live_put assms)
qed

lemma fresh_balance [simp]: "Balance (av_data (fresh_acct G D bh a)) = 0"
  by (simp add: fresh_acct_def newObject_def emptyStateAccount_def)

lemma read_live_or_fresh:
  "live w a \<noteq> None \<or> g (fresh_acct G D bh a) = d \<Longrightarrow> g (live_or_fresh G D bh w a) = read_or d w a g"
  by (auto simp: live_or_fresh_def read_or_def split: option.split)

text \<open>
  C27: Balances are a total map: \<open>AddBalance\<close>, \<open>SubBalance\<close> and \<open>SetBalance\<close> change the balance of
  one address by the amount (from zero, when there is no such account) and no other.
\<close>

theorem balance_read_after_write:
  assumes "state_database D" "wf G D s"
  shows "fst (GetBalance G D (AddBalance G D s a x) b)
        = (if b = a then fst (GetBalance G D s a) + x else fst (GetBalance G D s b))
    \<and> fst (GetBalance G D (SubBalance G D s a x) b)
        = (if b = a then fst (GetBalance G D s a) - x else fst (GetBalance G D s b))
    \<and> fst (GetBalance G D (SetBalance G D s a x) b) = (if b = a then x else fst (GetBalance G D s b))"
proof -
  have o: "objects_wf G s" using assms(2) by (simp add: wf_def)
  have b: "Balance (av_data (live_or_fresh G D bh w a)) = read_or 0 w a (\<lambda>v. Balance (av_data v))" for bh w
    by (rule read_live_or_fresh) simp
  show ?thesis
    unfolding reads_spec state_database.view_balance_ops [OF assms(1) o] specW.simps
    by (auto simp: read_updW with_balance_def b)
qed

theorem balance_read_after_write_witness:
  "fst (GetBalance sample_geth sample_db (AddBalance sample_geth sample_db (New 9) 1 5) 1)
     = fst (GetBalance sample_geth sample_db (New 9) 1) + 5"
  using balance_read_after_write [OF sample_database wf_New, of sample_geth 9 1 5 1] by simp

lemma fresh_storage: "av_storage (fresh_acct G D bh a) = db_slot G D (keccak256 G (address_bytes a)) bh"
  by (simp add: fresh_acct_def storage_of_def fun_eq_iff) (simp add: newObject_def committed_of_def)

text \<open>
  C26: Storage: \<open>GetState\<close> after \<open>SetState\<close> returns the value written, and the slots of all other accounts are as
  before. The other slots of the same account are as before when the account exists; when it does not, \<open>SetState\<close>
  makes it, and they read as the database has them for the address.
\<close>

theorem storage_read_after_write:
  assumes "state_database D" "wf G D s"
  shows "fst (GetState G D (SetState G D s a k v) b j) =
     (if b = a \<and> j = k then v
      else if b = a \<and> \<not> fst (Exist G D s a) then db_slot G D (keccak256 G (address_bytes a)) (originBlockHash s) j
      else fst (GetState G D s b j))"
proof -
  have o: "objects_wf G s" using assms(2) by (simp add: wf_def)
  have r: "av_storage (live_or_fresh G D bh w a) j =
      (if live w a \<noteq> None then read_or 0 w a (\<lambda>v. av_storage v j) else db_slot G D (keccak256 G (address_bytes a)) bh j)" for bh w
    by (auto simp: live_or_fresh_def read_or_def fresh_storage split: option.split)
  show ?thesis
    unfolding reads_spec state_database.view_SetState [OF assms(1) o] specW.simps
    by (auto simp: read_updW r)
qed

theorem storage_read_after_write_witness:
  "fst (GetState sample_geth sample_db (SetState sample_geth sample_db (New 9) 1 3 4) 1 3) = 4
   \<and> fst (GetState sample_geth sample_db (SetState sample_geth sample_db (New 9) 1 3 4) 2 3)
       = fst (GetState sample_geth sample_db (New 9) 2 3)"
  by (simp_all add: storage_read_after_write [OF sample_database wf_New])

end
