(* ===== verification/DirectTx.thy ===== *)
theory DirectTx
  imports DirectProps
begin

text \<open>
  The properties of \<open>Finalise\<close> and \<open>Copy\<close> of \<open>direct_by_leaf\<close>, and three behaviours of the
  package that its comments do not announce.
\<close>

section \<open>Finalise\<close>

lemma read_Finalise:
  assumes "wf G D s" "range_of order (dom (dirties (journal s)))"
    and "\<And>v. \<not> doomedW G del v \<Longrightarrow> g (finW G del v) = g v"
    and "fst (Exist G D (Finalise G order del s) a)"
  shows "read_or d (view G D (Finalise G order del s)) a g = read_or d (view G D s) a g"
proof (cases "a \<in> dom (stateObjects s)")
  case True
  have "objects_wf G s" using assms(1) by (simp add: wf_def)
  note l = live_Finalise [OF this assms(2) True, of D del]
  then show ?thesis using assms(3,4) by (auto simp: read_or_def reads_spec(1) split: option.splits if_splits)
next
  case False
  then show ?thesis using live_Finalise_absent [OF assms(2)] by (simp add: read_or_def)
qed

lemma Exist_Finalise:
  assumes "wf G D s" "range_of order (dom (dirties (journal s)))"
  shows "fst (Exist G D (Finalise G order del s) a) \<longleftrightarrow> fst (Exist G D s a)
     \<and> \<not> (a \<in> dom (dirties (journal s)) \<inter> dom (stateObjects s)
          \<and> (fst (HasSuicided G D s a) \<or> (del \<and> fst (Empty G D s a))))"
proof (cases "a \<in> dom (stateObjects s)")
  case True
  have "objects_wf G s" using assms(1) by (simp add: wf_def)
  note l = live_Finalise [OF this assms(2) True, of D del]
  show ?thesis using True by (auto simp: reads_spec l read_or_def doomedW_def split: option.splits)
next
  case False
  then show ?thesis using live_Finalise_absent [OF assms(2)] by (simp add: reads_spec(1))
qed

text \<open>
  C24: \<open>Finalise\<close> gives the same state in whatever order the loop visits the dirty addresses. It
  removes exactly the dirty accounts that self-destructed or, when asked to, are empty;
  the accounts that remain keep balance, nonce, code and code hash. The journal is empty
  afterwards, no snapshot is valid any more, and the invariant holds.
\<close>

theorem Finalise_effect:
  assumes "wf G D s" "range_of order (dom (dirties (journal s)))" "range_of order' (dom (dirties (journal s)))"
  shows "Finalise G order' del s = Finalise G order del s
    \<and> wf G D (Finalise G order del s)
    \<and> entries (journal (Finalise G order del s)) = [] \<and> validRevisions (Finalise G order del s) = []
    \<and> (fst (Exist G D (Finalise G order del s) a) \<longleftrightarrow> fst (Exist G D s a)
        \<and> \<not> (a \<in> dom (dirties (journal s)) \<inter> dom (stateObjects s)
             \<and> (fst (HasSuicided G D s a) \<or> (del \<and> fst (Empty G D s a)))))
    \<and> (fst (Exist G D (Finalise G order del s) a) \<longrightarrow>
        fst (GetBalance G D (Finalise G order del s) a) = fst (GetBalance G D s a)
        \<and> fst (GetNonce G D (Finalise G order del s) a) = fst (GetNonce G D s a)
        \<and> fst (GetCode G D (Finalise G order del s) a) = fst (GetCode G D s a)
        \<and> fst (GetCodeHash G D (Finalise G order del s) a) = fst (GetCodeHash G D s a))"
proof -
  have r: "g (finW G del v) = g v" if "\<And>m. g (v\<lparr>av_storage := m\<rparr>) = g v" "\<not> doomedW G del v" for g :: "acctView \<Rightarrow> 'x" and v
    using that by (simp add: finW_def)
  have "fst (GetBalance G D (Finalise G order del s) a) = fst (GetBalance G D s a)
        \<and> fst (GetNonce G D (Finalise G order del s) a) = fst (GetNonce G D s a)
        \<and> fst (GetCode G D (Finalise G order del s) a) = fst (GetCode G D s a)
        \<and> fst (GetCodeHash G D (Finalise G order del s) a) = fst (GetCodeHash G D s a)"
    if "fst (Exist G D (Finalise G order del s) a)"
    unfolding reads_spec by (intro conjI read_Finalise [OF assms(1,2) _ that]; simp add: finW_def)
  then show ?thesis
    using Finalise_closed [OF assms(2)] Finalise_closed [OF assms(3)] wf_Finalise [OF assms(1,2)]
      Exist_Finalise [OF assms(1,2)] by simp
qed

text \<open>One written slot, the witness for what follows.\<close>

definition sample_written :: directDB where
  "sample_written = SetState sample_geth sample_db (New 9) 1 3 4"

lemma sample_slot [simp]: "db_slot sample_geth sample_db x y k = 5"
  by (simp add: db_slot_def sample_db_def as_StateDatabase_def StorageValue_def sample_pg_def sample_geth_def
      be_nat_def)

lemma sample_load:
  "db_load sample_geth sample_db bh a = Some (newObject sample_geth a
     \<lparr>raw_Nonce = 1, raw_Balance = Some 10, raw_Root = 0, raw_CodeHash = Some (hash_bytes 7)\<rparr> bh)"
  by (simp add: db_load_def sample_db_def as_StateDatabase_def StateAccount_def sample_pg_def)

lemma sample_lookup: "lookup sample_geth sample_db (New bh) a = db_load sample_geth sample_db bh a"
  by (simp add: lookup_def New_def)

lemma sample_written_eq:
  "\<exists>so1. sample_written = setStateObject (journal_append (cached sample_geth sample_db (New 9) 1) (storageChange 1 3 5))
     (setState so1 3 4) \<and> address so1 = 1"
proof -
  obtain so where so: "lookup sample_geth sample_db (New 9) 1 = Some so" "\<not> deleted so" "address so = 1"
    "fakeStorage so = None" "originStorage so = Map.empty" "dirtyStorage so = Map.empty"
    by (simp add: sample_lookup sample_load newObject_def)
  obtain v so1 where g: "obj_GetState sample_geth sample_db so 3 = (v, so1)" by fastforce
  have v: "v = 5" using obj_GetState_eq(1) [OF g] so by (simp add: storage_of_def committed_of_def)
  have "address so1 = 1"
    using g so by (auto simp: obj_GetState_def obj_GetCommittedState_def obj_setError_def Let_def
        split: option.splits prod.splits if_splits)
  then show ?thesis using so g v
    by (intro exI [of _ so1]) (simp add: sample_written_def SetState_def getOrNewStateObject_def getStateObject_eq
        obj_SetState_def)
qed

lemma journal_New: "journal (New bh) = \<lparr>entries = [], dirties = Map.empty\<rparr>"
  by (simp add: New_def newJournal_def)

lemma sample_written_facts:
  "dom (dirties (journal sample_written)) = {1}" "stateObjects sample_written 1 \<noteq> None"
  "range_of [1] (dom (dirties (journal sample_written)))"
  "stateObjectsPending sample_written = {}" "stateObjectsDirty sample_written = {}"
proof -
  obtain so1 where w: "sample_written =
      setStateObject (journal_append (cached sample_geth sample_db (New 9) 1) (storageChange 1 3 5)) (setState so1 3 4)"
    "address so1 = 1" using sample_written_eq by blast
  have "dirties (journal sample_written) = incr Map.empty 1"
    unfolding w(1) by (simp add: dirties_append journal_New)
  then show "dom (dirties (journal sample_written)) = {1}" "range_of [1] (dom (dirties (journal sample_written)))"
    by (auto simp: incr_def range_of_def split: if_splits)
  show "stateObjects sample_written 1 \<noteq> None" unfolding w(1) by (simp add: w(2))
  show "stateObjectsPending sample_written = {}" "stateObjectsDirty sample_written = {}"
    unfolding w(1) by simp_all (simp_all add: New_def)
qed

lemma sample_written_wf: "wf sample_geth sample_db sample_written"
  using state_database.run_wf [OF sample_database sample_laws wf_New [of _ _ 9], of "[CSetState 1 3 4]" sample_written]
  by (simp add: run_def sample_written_def)

lemma sample_written_reads:
  "fst (Exist sample_geth sample_db sample_written 1)" "\<not> fst (HasSuicided sample_geth sample_db sample_written 1)"
  "fst (GetState sample_geth sample_db sample_written 1 3) = 4"
  "fst (GetCommittedState sample_geth sample_db sample_written 1 3) = 5"
proof -
  have v: "view sample_geth sample_db sample_written = updW sample_geth sample_db 9 (view sample_geth sample_db (New 9)) 1
      (\<lambda>v. v\<lparr>av_storage := (av_storage v)(3 := 4)\<rparr>)"
    using state_database.view_SetState [OF sample_database, of sample_geth "New 9" 1 3 4] wf_New [of sample_geth sample_db 9]
    by (simp add: wf_def sample_written_def) (simp add: New_def)
  have l: "live (view sample_geth sample_db (New 9)) 1 = Some (oview sample_geth sample_db (newObject sample_geth 1
     \<lparr>raw_Nonce = 1, raw_Balance = Some 10, raw_Root = 0, raw_CodeHash = Some (hash_bytes 7)\<rparr> 9))"
    by (simp add: live_def sample_lookup sample_load)
  then show "fst (Exist sample_geth sample_db sample_written 1)"
    "\<not> fst (HasSuicided sample_geth sample_db sample_written 1)"
    "fst (GetState sample_geth sample_db sample_written 1 3) = 4"
    "fst (GetCommittedState sample_geth sample_db sample_written 1 3) = 5"
    by (simp_all add: reads_spec v updW_def live_put read_or_def live_or_fresh_def committed_of_def) (simp_all add: newObject_def)
qed

theorem Finalise_effect_witness:
  "fst (Exist sample_geth sample_db (Finalise sample_geth [1] False sample_written) 1)
   \<and> entries (journal (Finalise sample_geth [1] False sample_written)) = []"
  using Finalise_effect [OF sample_written_wf sample_written_facts(3) sample_written_facts(3), of False 1]
    sample_written_reads by simp

text \<open>
  C35: Storage written in one transaction is not read back in the next. For an account that
  \<open>Finalise\<close> keeps, \<open>GetState\<close> after \<open>Finalise\<close> returns the committed value from before the
  transaction's writes: they are moved to \<open>pendingStorage\<close>, which \<open>GetCommittedState\<close> of
  this package never reads although its comment says it does.
\<close>

theorem Finalise_hides_pending_writes:
  assumes "wf G D s" "range_of order (dom (dirties (journal s)))"
    and "a \<in> dom (dirties (journal s)) \<inter> dom (stateObjects s)" "fst (Exist G D (Finalise G order del s) a)"
  shows "fst (GetState G D (Finalise G order del s) a k) = fst (GetCommittedState G D s a k)"
proof -
  have o: "objects_wf G s" and a: "a \<in> dom (stateObjects s)" using assms(1,3) by (auto simp: wf_def)
  note l = live_Finalise [OF o assms(2) a, of D del]
  show ?thesis using assms(3,4) unfolding reads_spec
    by (auto simp: read_or_def l finW_def split: option.splits if_splits)
qed

theorem Finalise_hides_pending_writes_witness:
  "fst (GetState sample_geth sample_db sample_written 1 3) = 4
   \<and> fst (GetState sample_geth sample_db (Finalise sample_geth [1] False sample_written) 1 3) = 5"
proof -
  have "fst (Exist sample_geth sample_db (Finalise sample_geth [1] False sample_written) 1)"
    using Exist_Finalise [OF sample_written_wf sample_written_facts(3), of False 1] sample_written_reads by simp
  then show ?thesis
    using Finalise_hides_pending_writes [OF sample_written_wf sample_written_facts(3), of 1 False 3]
      sample_written_facts sample_written_reads by (simp add: domIff)
qed

section \<open>Replacing an account\<close>

text \<open>
  C36: \<open>CreateAccount\<close> over an existing account leaves the old storage readable. The new object has
  no cached storage, and \<open>GetCommittedState\<close> of this package does not ask whether the
  account was destroyed, so every slot reads as the database has it for the old account.
\<close>

theorem CreateAccount_keeps_old_storage:
  assumes "state_database D"
  shows "fst (GetState G D (CreateAccount G D s a) a k)
    = db_slot G D (keccak256 G (address_bytes a)) (originBlockHash s) k"
  unfolding reads_spec state_database.view_CreateAccount [OF assms] specW.simps
  by (simp add: read_or_def live_put with_balance_def fresh_acct_def storage_of_def)
    (simp add: newObject_def committed_of_def)

theorem CreateAccount_keeps_old_storage_witness:
  "fst (GetState sample_geth sample_db (CreateAccount sample_geth sample_db sample_written 1) 1 3) = 5"
  using CreateAccount_keeps_old_storage [OF sample_database, of sample_geth sample_written 1 3] by simp

section \<open>Copy\<close>

text \<open>
  C25: \<open>Copy\<close> never panics on a state that satisfies the invariant, whatever order its three
  loops take, and the copy satisfies the invariant, has an empty journal and the same
  transaction-wide values. Every address that is dirty in the journal, pending or dirty
  reads the same in the copy as in the original.
\<close>

theorem Copy_agrees:
  assumes "state_database D" "wf G D s" "range_of od (dom (dirties (journal s)))"
    "range_of op (stateObjectsPending s)" "range_of ot (stateObjectsDirty s)"
  shows "\<exists>c. StateDB_Copy G od op ot s = Inr c \<and> wf G D c \<and> entries (journal c) = [] \<and> validRevisions c = []
    \<and> refund c = refund s \<and> logs c = logs s \<and> preimages c = preimages s \<and> accList c = accList s
    \<and> transient c = transient s
    \<and> (\<forall>a \<in> copied s \<inter> dom (stateObjects s). live (view G D c) a = live (view G D s) a)"
proof -
  let ?d = "dom (dirties (journal s)) \<inter> dom (stateObjects s)"
  define c where "c = (copying G s (copied s) (stateObjectsDirty s \<union> ?d) (stateObjectsPending s \<union> ?d))
        \<lparr>stateObjectsDestruct := stateObjectsDestruct s, logs := logs s, preimages := preimages s,
         accList := accList s, transient := transient s\<rparr>"
  have c: "StateDB_Copy G od op ot s = Inr c" using Copy_closed [OF assms(2-5)] by (simp add: c_def)
  have o: "\<And>a so. stateObjects s a = Some so \<Longrightarrow> obj_wf G (originBlockHash s) a so"
    "stateObjectsDirty s \<subseteq> dom (stateObjects s)" "stateObjectsPending s \<subseteq> dom (stateObjects s)"
    using assms(2) by (auto simp: wf_def objects_wf_def)
  have so: "stateObjects c = (\<lambda>a. if a \<in> copied s then map_option (obj_deepCopy G) (stateObjects s a) else None)"
    "originBlockHash c = originBlockHash s" "journal c = newJournal" "validRevisions c = []"
    by (simp_all add: c_def copying_def New_def)
  have "objects_wf G c"
    using o by (auto simp: objects_wf_def so obj_deepCopy_ok split: if_splits)
      (auto simp: c_def copying_def New_def copied_def dom_def)
  then have wfc: "wf G D c" using assms(2) so by (simp add: wf_def revisions_wf_def journal_wf_new) (simp add: c_def)
  have "w_accts (view G D c) a = w_accts (view G D s) a" if "a \<in> copied s" "a \<in> dom (stateObjects s)" for a
    using that obj_deepCopy_ok(1) [OF o(1)] by (auto simp: lookup_def so)
  then have "live (view G D c) a = live (view G D s) a" if "a \<in> copied s" "a \<in> dom (stateObjects s)" for a
    using that by (simp add: live_def del: w_accts_view)
  then show ?thesis using c so wfc by (auto simp: c_def copying_def)
qed

theorem Copy_agrees_witness:
  "\<exists>c. StateDB_Copy sample_geth [1] [] [] sample_written = Inr c
     \<and> live (view sample_geth sample_db c) 1 = live (view sample_geth sample_db sample_written) 1"
  using Copy_agrees [OF sample_database sample_written_wf sample_written_facts(3), of "[]" "[]"] sample_written_facts
  by (auto simp: range_of_def copied_def)

text \<open>A reset is journaled under no address.\<close>

lemma CreateAccount_resets:
  assumes "lookup G D s a = Some so"
  shows "dirties (journal (CreateAccount G D s a)) = dirties (journal s)"
    "stateObjectsPending (CreateAccount G D s a) = stateObjectsPending s"
    "stateObjectsDirty (CreateAccount G D s a) = stateObjectsDirty s"
    "originBlockHash (CreateAccount G D s a) = originBlockHash s"
  using assms by (simp_all add: CreateAccount_def createObject_def getDeleted_eq Let_def dirties_append)

text \<open>
  C37: A reset account is lost by \<open>Copy\<close>. \<open>CreateAccount\<close> over an existing account journals a
  \<open>resetObjectChange\<close>, which dirties no address. So in every state in which the account is not dirty, pending
  or dirty in the journal already, the copy of the state after the reset has no object for the address: there it reads as a new
  state over the same block does, from the database, while the original has nonce zero and the balance carried over.
\<close>

theorem Copy_loses_reset_account:
  assumes "state_database D" "common_laws G" "wf G D s" "fst (Exist G D s a)" "a \<notin> copied s"
    and "range_of od (dom (dirties (journal (CreateAccount G D s a))))" "range_of op (stateObjectsPending (CreateAccount G D s a))"
    "range_of ot (stateObjectsDirty (CreateAccount G D s a))"
  shows "\<exists>c. StateDB_Copy G od op ot (CreateAccount G D s a) = Inr c \<and> stateObjects c a = None
    \<and> live (view G D c) a = live (view G D (New (originBlockHash s))) a
    \<and> fst (GetNonce G D c a) = fst (GetNonce G D (New (originBlockHash s)) a) \<and> fst (GetNonce G D (CreateAccount G D s a) a) = 0
    \<and> fst (GetBalance G D c a) = fst (GetBalance G D (New (originBlockHash s)) a)
    \<and> fst (GetBalance G D (CreateAccount G D s a) a) = fst (GetBalance G D s a)"
proof -
  let ?s = "CreateAccount G D s a"
  obtain so where l: "lookup G D s a = Some so" using assms(4) by (auto simp: reads_spec live_def split: option.splits)
  note r = CreateAccount_resets [OF l]
  have "wf G D ?s" using state_database.wf_exec [OF assms(1-3), of "CCreateAccount a"] by simp
  note c = Copy_closed [OF this assms(6-8)]
  have "a \<notin> copied ?s" using assms(5) r by (simp add: copied_def)
  then obtain c where c: "StateDB_Copy G od op ot ?s = Inr c" "stateObjects c a = None" "originBlockHash c = originBlockHash s"
    using c r(4) by (auto simp: copying_def) (simp_all add: New_def)
  then have v: "live (view G D c) a = live (view G D (New (originBlockHash s))) a"
    by (simp add: live_def lookup_def) (simp add: New_def)
  have "fst (GetNonce G D ?s a) = 0" "fst (GetBalance G D ?s a) = fst (GetBalance G D s a)"
    unfolding reads_spec state_database.view_CreateAccount [OF assms(1)] specW.simps
    by (simp_all add: read_or_def live_put with_balance_def fresh_acct_def) (simp_all add: newObject_def emptyStateAccount_def)
  then show ?thesis using c(1,2) v by (intro exI [of _ c]) (simp add: reads_spec read_or_def)
qed

theorem Copy_loses_reset_account_witness:
  "\<exists>c. StateDB_Copy sample_geth [] [] [] (CreateAccount sample_geth sample_db (New 9) 1) = Inr c
     \<and> fst (GetNonce sample_geth sample_db (CreateAccount sample_geth sample_db (New 9) 1) 1) = 0
     \<and> fst (GetNonce sample_geth sample_db c 1) = 1"
proof -
  have l: "lookup sample_geth sample_db (New 9) 1 = Some (newObject sample_geth 1
     \<lparr>raw_Nonce = 1, raw_Balance = Some 10, raw_Root = 0, raw_CodeHash = Some (hash_bytes 7)\<rparr> 9)"
    by (simp add: sample_lookup sample_load)
  have n: "dirties (journal (New 9 :: directDB)) = Map.empty" "stateObjectsPending (New 9 :: directDB) = {}"
    "stateObjectsDirty (New 9 :: directDB) = {}" "originBlockHash (New 9 :: directDB) = 9" by (simp_all add: journal_New) (simp_all add: New_def)
  have v: "live (view sample_geth sample_db (New 9)) 1 \<noteq> None" "fst (GetNonce sample_geth sample_db (New 9) 1) = 1"
    by (simp_all add: reads_spec read_or_def live_def l) (simp_all add: newObject_def)
  then have "fst (Exist sample_geth sample_db (New 9) 1)" by (simp add: reads_spec)
  from Copy_loses_reset_account [OF sample_database sample_laws wf_New this, of "[]" "[]" "[]"] v(2)
  show ?thesis by (auto simp: CreateAccount_resets [OF l] n copied_def range_of_def)
qed

end
