(* ===== verification/Encoding.thy ===== *)
theory Encoding
  imports Prelude
begin

text \<open>
  \<open>trie_by_cid/trie/encoding.go\<close>: the KEYBYTES, HEX and COMPACT encodings of trie keys.
  Every function is translated with its slice accesses; an access the language would
  reject is the panic \<open>IndexOutOfRange\<close>. The lemmas show that none of these panics is
  reachable from well-formed paths, that the encodings are inverse to each other, and that
  the in-place encoder computes the same bytes as the copying one.
\<close>

unbundle bit_operations_syntax

section \<open>The functions\<close>

definition hasTerm :: "bytes \<Rightarrow> bool" where
  "hasTerm s \<longleftrightarrow> length s > 0 \<and> s ! (length s - 1) = 16"

text \<open>The destination slice is returned updated; bytes beyond the pairs written stay.\<close>

fun decodeNibbles :: "bytes \<Rightarrow> bytes \<Rightarrow> panic + bytes" where
  "decodeNibbles [] dst = Inr dst"
| "decodeNibbles [_] dst = Inl IndexOutOfRange"
| "decodeNibbles (_ # _ # _) [] = Inl IndexOutOfRange"
| "decodeNibbles (x # y # ns) (_ # dst) =
     (case decodeNibbles ns dst of Inl p \<Rightarrow> Inl p | Inr r \<Rightarrow> Inr ((push_bit 4 x OR y) # r))"

definition hexToCompact :: "bytes \<Rightarrow> panic + bytes" where
  "hexToCompact hex0 =
     (let terminator = (if hasTerm hex0 then 1 else 0 :: byte);
          hex1 = (if hasTerm hex0 then take (length hex0 - 1) hex0 else hex0);
          buf = replicate (length hex1 div 2 + 1) (0 :: byte);
          b0 = push_bit 5 terminator;
          odd_len = (length hex1 mod 2 = 1);
          b1 = (if odd_len then b0 OR push_bit 4 1 OR hd hex1 else b0);
          hex2 = (if odd_len then drop 1 hex1 else hex1)
      in case decodeNibbles hex2 (drop 1 buf) of
           Inl p \<Rightarrow> Inl p
         | Inr r \<Rightarrow> Inr (b1 # r))"

text \<open>The loop of \<open>hexToCompactInPlace\<close>, with the buffer, \<open>ni\<close> and \<open>bi\<close> as its state.\<close>

function compactLoop :: "nat \<Rightarrow> bytes \<Rightarrow> nat \<Rightarrow> nat \<Rightarrow> panic + bytes" where
  "compactLoop hexLen hex ni bi =
     (if ni < hexLen then
        (if ni + 1 < length hex \<and> bi < length hex
         then compactLoop hexLen (hex[bi := push_bit 4 (hex ! ni) OR hex ! (ni + 1)]) (ni + 2) (bi + 1)
         else Inl IndexOutOfRange)
      else Inr hex)"
  by pat_completeness auto
termination
  by (relation "measure (\<lambda>(hexLen, hex, ni, bi). hexLen - ni)") auto

declare compactLoop.simps [simp del]

definition hexToCompactInPlace :: "bytes \<Rightarrow> panic + (nat \<times> bytes)" where
  "hexToCompactInPlace hex =
     (let term = (length hex > 0 \<and> hex ! (length hex - 1) = 16);
          hexLen = (if term then length hex - 1 else length hex);
          firstByte0 = (if term then push_bit 5 1 else 0 :: byte);
          binLen = hexLen div 2 + 1;
          odd_len = (hexLen mod 2 = 1);
          firstByte = (if odd_len then firstByte0 OR push_bit 4 1 OR hex ! 0 else firstByte0);
          ni = (if odd_len then 1 else 0)
      in case compactLoop hexLen hex ni 1 of
           Inl p \<Rightarrow> Inl p
         | Inr hex' \<Rightarrow> (if length hex' > 0 then Inr (binLen, hex'[0 := firstByte])
                       else Inl IndexOutOfRange))"

definition keybytesToHex :: "bytes \<Rightarrow> bytes" where
  "keybytesToHex str = concat (map (\<lambda>b. [b div 16, b mod 16]) str) @ [16]"

definition compactToHex :: "bytes \<Rightarrow> bytes" where
  "compactToHex compact =
     (if length compact = 0 then compact
      else
        let base = keybytesToHex compact;
            base' = (if base ! 0 < 2 then take (length base - 1) base else base);
            chop = 2 - unat (base' ! 0 AND 1)
        in drop chop base')"

definition hexToKeyBytes :: "bytes \<Rightarrow> panic + bytes" where
  "hexToKeyBytes hex0 =
     (let hex = (if hasTerm hex0 then take (length hex0 - 1) hex0 else hex0)
      in if length hex mod 2 \<noteq> 0 then Inl (PanicMsg ''can't convert hex key of odd length'')
         else decodeNibbles hex (replicate (length hex div 2) 0))"

fun prefixLen :: "bytes \<Rightarrow> bytes \<Rightarrow> nat" where
  "prefixLen (x # xs) (y # ys) = (if x \<noteq> y then 0 else Suc (prefixLen xs ys))"
| "prefixLen _ _ = 0"

section \<open>Nibbles\<close>

definition nibbles :: "bytes \<Rightarrow> bool" where
  "nibbles ns \<longleftrightarrow> (\<forall>b \<in> set ns. b < 16)"

text \<open>A HEX path: nibbles, optionally closed by the terminator 16.\<close>

definition hex_path :: "bytes \<Rightarrow> bool" where
  "hex_path h \<longleftrightarrow> nibbles (if hasTerm h then butlast h else h)"

text \<open>A HEX key: nibbles closed by the terminator.\<close>

definition hex_key :: "bytes \<Rightarrow> bool" where
  "hex_key h \<longleftrightarrow> (\<exists>ns. nibbles ns \<and> h = ns @ [16])"

lemma nibbles_simps [simp]:
  "nibbles []" "nibbles (x # xs) \<longleftrightarrow> x < 16 \<and> nibbles xs"
  "nibbles (xs @ ys) \<longleftrightarrow> nibbles xs \<and> nibbles ys"
  by (auto simp: nibbles_def)

lemma hasTerm_snoc [simp]: "hasTerm (xs @ [x]) \<longleftrightarrow> x = 16" and hasTerm_Nil [simp]: "\<not> hasTerm []"
  by (simp_all add: hasTerm_def)

lemma hasTerm_last: "hasTerm s \<longleftrightarrow> s \<noteq> [] \<and> last s = 16"
  by (auto simp: hasTerm_def last_conv_nth)

lemma nibbles_not_hasTerm: "nibbles ns \<Longrightarrow> \<not> hasTerm ns"
  by (auto simp: hasTerm_last nibbles_def dest!: last_in_set)

lemma nibble_take: "x < 16 \<Longrightarrow> take_bit 4 (x :: byte) = x"
  by (simp add: take_bit_eq_mod word_less_nat_alt word_unat_eq_iff unat_mod)

lemma nibble_bit: "x < 16 \<Longrightarrow> bit (x :: byte) n \<Longrightarrow> n < 4"
  by (metis nibble_take bit_take_bit_iff)

lemma byte_div16: "(b :: byte) div 16 = drop_bit 4 b" and byte_mod16: "b mod 16 = take_bit 4 b"
  by (simp_all add: drop_bit_eq_div take_bit_eq_mod)

lemma pack_div [simp]: "x < 16 \<Longrightarrow> y < 16 \<Longrightarrow> (push_bit 4 x OR y) div 16 = (x :: byte)"
  unfolding byte_div16 by (rule bit_word_eqI) (auto simp: bit_simps dest: nibble_bit)

lemma pack_mod [simp]: "x < 16 \<Longrightarrow> y < 16 \<Longrightarrow> (push_bit 4 x OR y) mod 16 = (y :: byte)"
  unfolding byte_mod16 by (rule bit_word_eqI) (auto simp: bit_simps dest: nibble_bit)

lemma byte_split [simp]: "push_bit 4 (b div 16) OR b mod 16 = (b :: byte)"
  unfolding byte_div16 byte_mod16 by (rule bit_word_eqI) (auto simp: bit_simps)

lemma byte_div16_less [simp]: "(b :: byte) div 16 < 16"
  by (simp add: word_less_nat_alt unat_div) (use unsigned_less [of b, where 'a = nat] in simp)

lemma byte_mod16_less [simp]: "(b :: byte) mod 16 < 16"
  by (simp add: word_less_nat_alt unat_mod)

section \<open>Packing and unpacking\<close>

text \<open>The two reference functions: pairs of nibbles to bytes and back.\<close>

fun pack :: "bytes \<Rightarrow> bytes" where
  "pack (x # y # ns) = (push_bit 4 x OR y) # pack ns"
| "pack _ = []"

definition unpack :: "bytes \<Rightarrow> bytes" where
  "unpack bs = concat (map (\<lambda>b. [b div 16, b mod 16]) bs)"

lemma unpack_simps [simp]: "unpack [] = []" "unpack (b # bs) = b div 16 # b mod 16 # unpack bs"
  by (simp_all add: unpack_def)

lemma length_unpack [simp]: "length (unpack bs) = 2 * length bs"
  by (induction bs) auto

lemma length_pack [simp]: "length (pack ns) = length ns div 2"
  by (induction ns rule: pack.induct) auto

lemma nibbles_unpack [simp]: "nibbles (unpack bs)"
  by (induction bs) auto

lemma pack_unpack [simp]: "pack (unpack bs) = bs"
  by (induction bs) auto

lemma unpack_pack: "even (length ns) \<Longrightarrow> nibbles ns \<Longrightarrow> unpack (pack ns) = ns"
  by (induction ns rule: pack.induct) auto

lemma decodeNibbles_pack:
  "even (length ns) \<Longrightarrow> length ns div 2 \<le> length dst \<Longrightarrow>
   decodeNibbles ns dst = Inr (pack ns @ drop (length ns div 2) dst)"
  by (induction ns dst rule: decodeNibbles.induct) auto

lemma decodeNibbles_exact:
  "even (length ns) \<Longrightarrow> length dst = length ns div 2 \<Longrightarrow> decodeNibbles ns dst = Inr (pack ns)"
  by (simp add: decodeNibbles_pack)

lemma keybytesToHex_unpack: "keybytesToHex str = unpack str @ [16]"
  by (simp add: keybytesToHex_def unpack_def)

section \<open>COMPACT encoding\<close>

definition path_part :: "bytes \<Rightarrow> bytes" where
  "path_part h = (if hasTerm h then butlast h else h)"

text \<open>The COMPACT bytes of a path, written out by the parity of the path.\<close>

definition compact_of :: "bool \<Rightarrow> bytes \<Rightarrow> bytes" where
  "compact_of t ns =
     (if odd (length ns) then (push_bit 4 (if t then 3 else 1) OR hd ns) # pack (tl ns)
      else push_bit 4 (if t then 2 else 0) # pack ns)"

lemma path_part_split: "h = path_part h @ (if hasTerm h then [16] else [])"
  by (cases h rule: rev_cases) (auto simp: path_part_def)

lemma flag_bytes: "push_bit 5 1 OR (push_bit 4 1 OR x) = push_bit 4 3 OR (x :: byte)"
  "push_bit 5 0 OR (push_bit 4 1 OR x) = push_bit 4 1 OR (x :: byte)"
  by (simp_all flip: or.assoc)

lemma hexToCompact_eq: "hexToCompact h = Inr (compact_of (hasTerm h) (path_part h))"
proof -
  have "take (length h - 1) h = butlast h" by (simp add: butlast_conv_take)
  then have h1: "(if hasTerm h then take (length h - 1) h else h) = path_part h"
    by (simp add: path_part_def)
  show ?thesis
  proof (cases "odd (length (path_part h))")
    case True
    then have "decodeNibbles (tl (path_part h)) (replicate (length (path_part h) div 2) 0)
        = Inr (pack (tl (path_part h)))"
      by (intro decodeNibbles_exact) (auto elim!: oddE)
    with True show ?thesis
      unfolding hexToCompact_def Let_def h1
      by (simp add: compact_of_def drop_Suc flag_bytes odd_iff_mod_2_eq_one del: push_bit_of_1)
  next
    case False
    then show ?thesis
      unfolding hexToCompact_def Let_def h1
      by (simp add: compact_of_def decodeNibbles_exact even_iff_mod_2_eq_zero)
  qed
qed

lemma compactToHex_Cons:
  "compactToHex (b # bs) =
     drop (2 - unat (b div 16 AND 1))
       (b div 16 # b mod 16 # unpack bs @ (if b div 16 < 2 then [] else [16]))"
  by (auto simp: compactToHex_def keybytesToHex_unpack Let_def)

lemma compact_roundtrip_parts:
  assumes "nibbles ns"
  shows "compactToHex (compact_of t ns) = ns @ (if t then [16] else [])"
proof (cases "odd (length ns)")
  case True
  then obtain x xs where ns: "ns = x # xs" by (cases ns) auto
  have "x < 16" and "unpack (pack xs) = xs" using assms True ns by (auto simp: unpack_pack)
  with True ns show ?thesis by (auto simp: compact_of_def compactToHex_Cons)
next
  case False
  have z: "push_bit 4 c = push_bit 4 c OR (0 :: byte)" for c by simp
  have "unpack (pack ns) = ns" using assms False by (simp add: unpack_pack)
  moreover have "push_bit 4 c div 16 = c \<and> push_bit 4 c mod 16 = 0" if "c < 16" for c :: byte
    using pack_div [OF that, of 0] pack_mod [OF that, of 0] by simp
  ultimately show ?thesis using False by (auto simp: compact_of_def compactToHex_Cons)
qed

lemma hex_path_parts: "hex_path h \<longleftrightarrow> nibbles (path_part h)"
  by (simp add: hex_path_def path_part_def)

text \<open>The in-place loop packs what it has not read yet, behind its reading position.\<close>

lemma compactLoop_packs:
  assumes "even (hexLen - ni)" and "ni \<le> hexLen" and "hexLen \<le> length hex" and "bi \<le> ni + 1"
  shows "\<exists>hex'. compactLoop hexLen hex ni bi = Inr hex' \<and> length hex' = length hex
    \<and> take (bi + (hexLen - ni) div 2) hex' = take bi hex @ pack (take (hexLen - ni) (drop ni hex))"
  using assms
proof (induction hexLen hex ni bi rule: compactLoop.induct)
  case (1 hexLen hex ni bi)
  show ?case
  proof (cases "ni < hexLen")
    case False
    then show ?thesis using "1.prems" by (simp add: compactLoop.simps)
  next
    case True
    with "1.prems" have r: "ni + 2 \<le> hexLen" by presburger
    with "1.prems" have bnd: "ni + 1 < length hex" "bi < length hex" by auto
    define hx where "hx = hex[bi := push_bit 4 (hex ! ni) OR hex ! (ni + 1)]"
    have dr: "drop (ni + 2) hx = drop (ni + 2) hex" using "1.prems" by (simp add: hx_def)
    have pk: "pack (take (hexLen - ni) (drop ni hex)) =
        (push_bit 4 (hex ! ni) OR hex ! (ni + 1)) # pack (take (hexLen - (ni + 2)) (drop (ni + 2) hex))"
    proof -
      have "drop ni hex = hex ! ni # hex ! (ni + 1) # drop (ni + 2) hex"
        using bnd by (simp add: Cons_nth_drop_Suc)
      moreover have "hexLen - ni = Suc (Suc (hexLen - (ni + 2)))" using r by simp
      ultimately show ?thesis by simp
    qed
    have "take (bi + 1) hx = take bi hex @ [push_bit 4 (hex ! ni) OR hex ! (ni + 1)]"
      using bnd by (simp add: hx_def take_Suc_conv_app_nth)
    moreover obtain hex' where "compactLoop hexLen hx (ni + 2) (bi + 1) = Inr hex'" "length hex' = length hx"
      "take (bi + 1 + (hexLen - (ni + 2)) div 2) hex'
        = take (bi + 1) hx @ pack (take (hexLen - (ni + 2)) (drop (ni + 2) hx))"
      using "1.IH" [OF True conjI [OF bnd]] r "1.prems" unfolding hx_def by auto
    moreover have "bi + (hexLen - ni) div 2 = bi + 1 + (hexLen - (ni + 2)) div 2" using r by simp
    moreover have "compactLoop hexLen hex ni bi = compactLoop hexLen hx (ni + 2) (bi + 1)"
      using True bnd by (simp add: compactLoop.simps [of hexLen hex ni bi] hx_def)
    moreover have "length hx = length hex" by (simp add: hx_def)
    ultimately show ?thesis by (simp only: dr pk) simp
  qed
qed

lemma compactLoop_start:
  assumes "hex \<noteq> []" and "hexLen = length (path_part hex)"
    and "ni = (if hexLen mod 2 = 1 then 1 else 0)"
  shows "\<exists>hex'. compactLoop hexLen hex ni 1 = Inr hex' \<and> length hex' = length hex
    \<and> take (hexLen div 2 + 1) hex' = hd hex # pack (drop ni (path_part hex))"
proof -
  have le: "hexLen \<le> length hex" and tk: "take hexLen hex = path_part hex"
    using assms(2) by (simp_all add: path_part_def butlast_conv_take)
  have dr: "take (hexLen - ni) (drop ni hex) = drop ni (path_part hex)"
    using tk by (metis drop_take)
  have ev: "even (hexLen - ni)" "ni \<le> hexLen" "1 \<le> ni + 1" and dv: "1 + (hexLen - ni) div 2 = hexLen div 2 + 1"
    using assms(3) by (cases "hexLen mod 2 = 1"; simp; presburger)+
  have "take 1 hex = [hd hex]" using assms(1) by (cases hex) auto
  with compactLoop_packs [OF ev(1,2) le ev(3)] show ?thesis
    unfolding dv dr by simp
qed

lemma hexToCompactInPlace_eq:
  assumes "hex \<noteq> []"
  shows "\<exists>hex'. hexToCompactInPlace hex = Inr (length (compact_of (hasTerm hex) (path_part hex)), hex')
    \<and> take (length (compact_of (hasTerm hex) (path_part hex))) hex' = compact_of (hasTerm hex) (path_part hex)"
proof -
  define n where "n = length (path_part hex)"
  define ni where "ni = (if n mod 2 = 1 then 1 else 0 :: nat)"
  obtain hex' where loop: "compactLoop n hex ni 1 = Inr hex'" "length hex' = length hex"
    "take (n div 2 + 1) hex' = hd hex # pack (drop ni (path_part hex))"
    using compactLoop_start [OF assms n_def ni_def] by blast
  have tm: "(length hex > 0 \<and> hex ! (length hex - 1) = 16) = hasTerm hex" by (simp add: hasTerm_def)
  have len: "(if hasTerm hex then length hex - 1 else length hex) = n"
    by (simp add: n_def path_part_def)
  define fb where "fb = (if n mod 2 = 1 then (if hasTerm hex then push_bit 5 1 else 0) OR push_bit 4 1 OR hex ! 0
      else (if hasTerm hex then push_bit 5 1 else 0 :: byte))"
  have ip: "hexToCompactInPlace hex = Inr (n div 2 + 1, hex'[0 := fb])"
    using loop assms unfolding hexToCompactInPlace_def Let_def tm len fb_def ni_def by simp
  have tk: "take (n div 2 + 1) (hex'[0 := fb]) = fb # pack (drop ni (path_part hex))"
    using loop(3) by (cases hex') auto
  have h0: "hd (path_part hex) = hex ! 0" if "n mod 2 = 1"
  proof -
    have "path_part hex \<noteq> []" using that by (auto simp: n_def)
    then show ?thesis using path_part_split [of hex] assms by (metis hd_append2 hd_conv_nth)
  qed
  have "fb # pack (drop ni (path_part hex)) = compact_of (hasTerm hex) (path_part hex)"
  proof (cases "n mod 2 = 1")
    case True
    then show ?thesis using h0 flag_bytes [of "hex ! 0"]
      by (simp add: compact_of_def fb_def ni_def n_def drop_Suc odd_iff_mod_2_eq_one)
  next
    case False
    then have "even n" by presburger
    with False show ?thesis by (simp add: compact_of_def fb_def ni_def n_def)
  qed
  moreover have "length (fb # pack (drop ni (path_part hex))) = n div 2 + 1"
    unfolding ni_def n_def by (cases "length (path_part hex) mod 2 = 1"; simp; presburger)
  ultimately show ?thesis using ip tk by metis
qed

section \<open>KEYBYTES and HEX\<close>

lemma hex_key_keybytesToHex [simp, intro]: "hex_key (keybytesToHex k)"
  by (auto simp: hex_key_def keybytesToHex_unpack)

lemma keybytesToHex_inject [simp]: "keybytesToHex j = keybytesToHex k \<longleftrightarrow> j = k"
  by (metis append_same_eq keybytesToHex_unpack pack_unpack)

lemma length_keybytesToHex [simp]: "length (keybytesToHex k) = 2 * length k + 1"
  by (simp add: keybytesToHex_unpack)

lemma hexToKeyBytes_even:
  assumes "nibbles ns" and "even (length ns)"
  shows "hexToKeyBytes (ns @ [16]) = Inr (pack ns)" and "hexToKeyBytes ns = Inr (pack ns)"
  using assms by (auto simp: hexToKeyBytes_def decodeNibbles_exact nibbles_not_hasTerm Let_def)

lemma hex_keyE:
  assumes "hex_key h" obtains ns where "nibbles ns" "h = ns @ [16]"
  using assms by (auto simp: hex_key_def)

section \<open>Common prefixes\<close>

lemma prefixLen_le: "prefixLen a b \<le> length a" "prefixLen a b \<le> length b"
  by (induction a b rule: prefixLen.induct) auto

lemma prefixLen_take: "take (prefixLen a b) a = take (prefixLen a b) b"
  by (induction a b rule: prefixLen.induct) auto

lemma prefixLen_differ:
  "prefixLen a b < length a \<Longrightarrow> prefixLen a b < length b \<Longrightarrow> a ! prefixLen a b \<noteq> b ! prefixLen a b"
  by (induction a b rule: prefixLen.induct) auto

lemma prefixLen_full: "prefixLen a b = length b \<longleftrightarrow> prefix b a"
  by (induction a b rule: prefixLen.induct) (auto simp: prefix_def)

lemma prefixLen_append [simp]: "prefixLen (xs @ ys) xs = length xs"
  by (simp add: prefixLen_full)

lemma prefixLen_longest: "prefix p a \<Longrightarrow> prefix p b \<Longrightarrow> length p \<le> prefixLen a b"
proof (induction a b arbitrary: p rule: prefixLen.induct)
  case (1 x xs y ys)
  then show ?case by (cases p) auto
qed auto

section \<open>Properties\<close>

text \<open>C31: HEX to COMPACT and back is the identity on every path of nibbles, with or without
  terminator, and the encoder does not panic on it.\<close>

theorem compact_roundtrip:
  assumes "hex_path h"
  shows "\<exists>c. hexToCompact h = Inr c \<and> compactToHex c = h"
proof -
  have "compactToHex (compact_of (hasTerm h) (path_part h)) = h"
    using compact_roundtrip_parts [of "path_part h" "hasTerm h"] assms path_part_split [of h]
    by (simp add: hex_path_parts)
  then show ?thesis by (simp add: hexToCompact_eq)
qed

theorem compact_roundtrip_witness:
  "hex_path [15, 1, 12, 11, 8, 16] \<and>
   (\<exists>c. hexToCompact [15, 1, 12, 11, 8, 16] = Inr c \<and> compactToHex c = [15, 1, 12, 11, 8, 16])"
proof -
  have h: "hex_path [15, 1, 12, 11, 8, 16]" by (simp add: hex_path_def hasTerm_def)
  show ?thesis using h compact_roundtrip [OF h] by blast
qed

text \<open>C32: On every non-empty path the in-place encoder leaves in the first bytes of its buffer,
  as many as it returns, exactly what the copying encoder returns; on the empty path the
  in-place encoder panics (it writes \<open>hex[0]\<close>) while the copying one returns a zero byte.\<close>

theorem compact_in_place_equiv:
  "hexToCompactInPlace [] = Inl IndexOutOfRange \<and> hexToCompact [] = Inr [0] \<and>
   (hex \<noteq> [] \<longrightarrow> (\<exists>n buf c. hexToCompactInPlace hex = Inr (n, buf) \<and> hexToCompact hex = Inr c
      \<and> n = length c \<and> take n buf = c))"
proof (intro conjI impI)
  show "hexToCompactInPlace [] = Inl IndexOutOfRange"
    by (simp add: hexToCompactInPlace_def compactLoop.simps)
  show "hexToCompact [] = Inr [0]"
    by (simp add: hexToCompact_eq path_part_def compact_of_def)
  assume "hex \<noteq> []"
  from hexToCompactInPlace_eq [OF this]
  show "\<exists>n buf c. hexToCompactInPlace hex = Inr (n, buf) \<and> hexToCompact hex = Inr c
      \<and> n = length c \<and> take n buf = c"
    by (auto simp: hexToCompact_eq)
qed

theorem compact_in_place_equiv_witness:
  "[1, 2, 3, 16] \<noteq> ([] :: bytes) \<and>
   (\<exists>n buf c. hexToCompactInPlace [1, 2, 3, 16] = Inr (n, buf) \<and> hexToCompact [1, 2, 3, 16] = Inr c
      \<and> n = length c \<and> take n buf = c)"
  using compact_in_place_equiv [of "[1, 2, 3, 16]"] by simp

text \<open>C33: Key bytes survive the trip through HEX encoding, and an even path of nibbles survives
  the trip through key bytes; both directions without a panic.\<close>

theorem keybytes_roundtrip:
  "hexToKeyBytes (keybytesToHex k) = Inr k \<and>
   (nibbles ns \<and> even (length ns) \<longrightarrow>
      (\<exists>b. hexToKeyBytes (ns @ [16]) = Inr b \<and> hexToKeyBytes ns = Inr b \<and> keybytesToHex b = ns @ [16]))"
  by (auto simp: keybytesToHex_unpack hexToKeyBytes_even unpack_pack)

theorem keybytes_roundtrip_witness:
  "nibbles [1, 2, 3, 4] \<and> even (length [1, 2, 3, 4 :: byte]) \<and>
   (\<exists>b. hexToKeyBytes [1, 2, 3, 4, 16] = Inr b \<and> hexToKeyBytes [1, 2, 3, 4] = Inr b
      \<and> keybytesToHex b = [1, 2, 3, 4, 16])"
  using keybytes_roundtrip [of "[]" "[1, 2, 3, 4]"] by simp

end
