(* ===== verification/Rlp.thy ===== *)
theory Rlp
  imports Prelude
begin

text \<open>
  The contract of go-ethereum's \<open>rlp\<close> package as far as the trie relies on it (locale \<open>rlp\<close>):
  splitting an encoding gives back the content and the rest, \<open>CountValues\<close> counts the items
  of a concatenation, and splitting never grows the input. Payloads are shorter than
  \<open>2^64\<close> bytes, the limit of the format. \<open>ref_geth\<close> is a reference implementation
  of the format that satisfies the contract.
\<close>

section \<open>The contract\<close>

definition rlp_small :: "bytes \<Rightarrow> bool" where
  "rlp_small b \<longleftrightarrow> length b < 2 ^ 64"

definition rlp_item :: "geth \<Rightarrow> bytes \<Rightarrow> bool" where
  "rlp_item G b \<longleftrightarrow> (\<exists>s. rlp_small s \<and> (b = rlpString G s \<or> b = rlpList G s))"

definition string_kind :: "bytes \<Rightarrow> rlp_kind" where
  "string_kind s = (if length s = 1 \<and> hd s < 0x80 then RlpByte else RlpString)"

locale rlp =
  fixes G :: geth
  assumes split_string: "rlp_small s \<Longrightarrow> rlpSplit G (rlpString G s @ r) = (string_kind s, s, r, None)"
    and split_list: "rlp_small c \<Longrightarrow> rlpSplit G (rlpList G c @ r) = (RlpList, c, r, None)"
    and splitString: "rlp_small s \<Longrightarrow> rlpSplitString G (rlpString G s @ r) = (s, r, None)"
    and splitList: "rlp_small c \<Longrightarrow> rlpSplitList G (rlpList G c @ r) = (c, r, None)"
    and emptyString: "rlpEmptyString G = rlpString G []"
    and countValues: "(\<And>b. b \<in> set bs \<Longrightarrow> rlp_item G b) \<Longrightarrow> rlpCountValues G (concat bs) = length bs"
    and split_shrinks: "rlpSplit G b = (k, c, r, None) \<Longrightarrow> length r \<le> length b"
    and splitString_shrinks: "rlpSplitString G b = (c, r, None) \<Longrightarrow> length r \<le> length b"
    and splitList_shrinks: "rlpSplitList G b = (c, r, None) \<Longrightarrow> length c < length b"
    and list_grows: "length c < length (rlpList G c)"
    and string_length: "rlp_small s \<Longrightarrow> length (rlpString G s) \<le> length s + 9"

section \<open>A reference implementation\<close>

function nat_bytes :: "nat \<Rightarrow> bytes" where
  "nat_bytes n = (if n = 0 then [] else nat_bytes (n div 256) @ [word_of_nat (n mod 256)])"
  by pat_completeness auto
termination
  by (relation "measure id") auto

declare nat_bytes.simps [simp del]

definition rlp_header :: "nat \<Rightarrow> nat \<Rightarrow> nat \<Rightarrow> bytes" where
  "rlp_header short long n =
     (if n \<le> 55 then [word_of_nat (short + n)]
      else word_of_nat (long + length (nat_bytes n)) # nat_bytes n)"

definition ref_string :: "bytes \<Rightarrow> bytes" where
  "ref_string s = (if length s = 1 \<and> hd s < 0x80 then s else rlp_header 0x80 0xb7 (length s) @ s)"

definition ref_list :: "bytes \<Rightarrow> bytes" where
  "ref_list c = rlp_header 0xc0 0xf7 (length c) @ c"

text \<open>The kind, the length of the header and the length of the payload of the first item.\<close>

definition read_kind :: "bytes \<Rightarrow> (rlp_kind \<times> nat \<times> nat) option" where
  "read_kind b =
     (case b of [] \<Rightarrow> None
      | x # xs \<Rightarrow>
          (let t = unat x;
               kts = (if t < 0x80 then (RlpByte, 0, 1)
                      else if t < 0xb8 then (RlpString, 1, t - 0x80)
                      else if t < 0xc0 then (RlpString, 1 + (t - 0xb7), be_nat (take (t - 0xb7) xs))
                      else if t < 0xf8 then (RlpList, 1, t - 0xc0)
                      else (RlpList, 1 + (t - 0xf7), be_nat (take (t - 0xf7) xs)))
           in case kts of (k, ts, n) \<Rightarrow> if ts + n \<le> length b then Some (k, ts, n) else None))"

definition ref_split :: "bytes \<Rightarrow> rlp_kind \<times> bytes \<times> bytes \<times> goerr option" where
  "ref_split b =
     (case read_kind b of None \<Rightarrow> (RlpByte, [], b, Some (Err ''rlp''))
      | Some (k, ts, n) \<Rightarrow> (k, take n (drop ts b), drop (ts + n) b, None))"

definition ref_splitString :: "bytes \<Rightarrow> bytes \<times> bytes \<times> goerr option" where
  "ref_splitString b =
     (case ref_split b of (k, c, r, e) \<Rightarrow>
        if e \<noteq> None then ([], b, e) else if k = RlpList then ([], b, Some (Err ''expected string'')) else (c, r, None))"

definition ref_splitList :: "bytes \<Rightarrow> bytes \<times> bytes \<times> goerr option" where
  "ref_splitList b =
     (case ref_split b of (k, c, r, e) \<Rightarrow>
        if e \<noteq> None then ([], b, e) else if k \<noteq> RlpList then ([], b, Some (Err ''expected list'')) else (c, r, None))"

lemma read_kind_pos: "read_kind b = Some (k, ts, n) \<Longrightarrow> 0 < ts + n \<and> ts + n \<le> length b \<and> (k = RlpList \<longrightarrow> 0 < ts)"
  by (auto simp: read_kind_def Let_def split: list.splits if_splits)

function ref_count :: "bytes \<Rightarrow> nat option" where
  "ref_count b =
     (if b = [] then Some 0
      else case read_kind b of None \<Rightarrow> None
           | Some (k, ts, n) \<Rightarrow> map_option Suc (ref_count (drop (ts + n) b)))"
  by pat_completeness auto
termination
  by (relation "measure length") (auto dest: read_kind_pos)

declare ref_count.simps [simp del]

definition ref_geth :: geth where
  "ref_geth =
     \<lparr>keccak256 = (\<lambda>bs. if bs = [] then 1 else word_of_nat (be_nat bs)),
      BytesToHash = (\<lambda>bs. word_of_nat (be_nat bs)), EmptyRootHash = 2, EmptyCodeHash = 1,
      rlpString = ref_string, rlpList = ref_list, rlpEmptyString = [0x80],
      rlpSplit = ref_split, rlpSplitString = ref_splitString, rlpSplitList = ref_splitList,
      rlpCountValues = (\<lambda>b. case ref_count b of None \<Rightarrow> 0 | Some n \<Rightarrow> n)\<rparr>"

section \<open>It satisfies the contract\<close>

lemma be_nat_nat_bytes [simp]: "be_nat (nat_bytes n) = n"
  by (induction n rule: nat_bytes.induct) (subst nat_bytes.simps, auto simp: unat_byte_of_nat)

lemma length_nat_bytes: "n < 256 ^ k \<Longrightarrow> length (nat_bytes n) \<le> k"
proof (induction k arbitrary: n)
  case 0
  then show ?case by (simp add: nat_bytes.simps)
next
  case (Suc k)
  have "n div 256 < 256 ^ k" using Suc.prems by (simp add: less_mult_imp_div_less mult.commute)
  with Suc.IH show ?case by (subst nat_bytes.simps) auto
qed

lemma length_nat_bytes_small: "n < 2 ^ 64 \<Longrightarrow> length (nat_bytes n) \<le> 8"
  using length_nat_bytes [of n 8] by simp

lemma nat_bytes_pos: "0 < n \<Longrightarrow> 0 < length (nat_bytes n)"
  by (subst nat_bytes.simps) simp

lemma read_kind_header:
  assumes "n = length c" "n < 2 ^ 64"
  shows "read_kind (rlp_header 0x80 0xb7 n @ c @ r) = Some (RlpString, length (rlp_header 0x80 0xb7 n), n)"
    and "read_kind (rlp_header 0xc0 0xf7 n @ c @ r) = Some (RlpList, length (rlp_header 0xc0 0xf7 n), n)"
proof -
  have l: "length (nat_bytes n) \<le> 8" "55 < n \<Longrightarrow> 0 < length (nat_bytes n)"
    using assms(2) length_nat_bytes_small nat_bytes_pos by auto
  have u: "unat (word_of_nat (0x80 + n) :: byte) = 0x80 + n" "unat (word_of_nat (0xc0 + n) :: byte) = 0xc0 + n"
    if "n \<le> 55" by (rule unat_byte_of_nat, use that in simp)+
  have v: "unat (word_of_nat (0xb7 + length (nat_bytes n)) :: byte) = 0xb7 + length (nat_bytes n)"
    "unat (word_of_nat (0xf7 + length (nat_bytes n)) :: byte) = 0xf7 + length (nat_bytes n)"
    by (rule unat_byte_of_nat, use l(1) in simp)+
  show "read_kind (rlp_header 0x80 0xb7 n @ c @ r) = Some (RlpString, length (rlp_header 0x80 0xb7 n), n)"
    "read_kind (rlp_header 0xc0 0xf7 n @ c @ r) = Some (RlpList, length (rlp_header 0xc0 0xf7 n), n)"
    using assms(1) l u v by (auto simp: read_kind_def rlp_header_def Let_def simp del: of_nat_add)
qed

lemma read_kind_string:
  assumes "rlp_small s"
  shows "\<exists>ts. read_kind (ref_string s @ r) = Some (string_kind s, ts, length s) \<and> ts + length s = length (ref_string s)
    \<and> drop ts (ref_string s) = s"
proof (cases "length s = 1 \<and> hd s < 0x80")
  case True
  then obtain x where "s = [x]" "x < 0x80" by (cases s) auto
  moreover then have "unat x < 0x80" by (simp add: word_less_nat_alt)
  ultimately show ?thesis by (simp add: ref_string_def string_kind_def read_kind_def)
next
  case False
  have "read_kind (rlp_header 0x80 0xb7 (length s) @ s @ r) = Some (RlpString, length (rlp_header 0x80 0xb7 (length s)), length s)"
    using read_kind_header(1) [OF refl] assms by (simp add: rlp_small_def)
  then show ?thesis using False by (auto simp: ref_string_def string_kind_def)
qed

lemma read_kind_list:
  "rlp_small c \<Longrightarrow> read_kind (ref_list c @ r) = Some (RlpList, length (rlp_header 0xc0 0xf7 (length c)), length c)"
  using read_kind_header(2) [OF refl, of c r] by (simp add: ref_list_def rlp_small_def)

lemma ref_split_string: "rlp_small s \<Longrightarrow> ref_split (ref_string s @ r) = (string_kind s, s, r, None)"
  using read_kind_string [of s r] by (auto simp: ref_split_def)

lemma ref_split_list: "rlp_small c \<Longrightarrow> ref_split (ref_list c @ r) = (RlpList, c, r, None)"
  using read_kind_list [of c r] by (simp add: ref_split_def) (simp add: ref_list_def)

lemma ref_count_item:
  assumes "rlp_item ref_geth b" shows "ref_count (b @ r) = map_option Suc (ref_count r)"
proof -
  obtain s where s: "rlp_small s" "b = ref_string s \<or> b = ref_list s"
    using assms by (auto simp: rlp_item_def ref_geth_def)
  obtain k ts where k: "read_kind (b @ r) = Some (k, ts, length s)" "ts + length s = length b"
    using s(2) read_kind_string [OF s(1), of r] read_kind_list [OF s(1), of r] by (auto simp: ref_list_def)
  have "b \<noteq> []" using read_kind_pos [OF k(1)] k(2) by auto
  with k show ?thesis by (subst ref_count.simps) simp
qed

lemma ref_count_concat: "(\<And>b. b \<in> set bs \<Longrightarrow> rlp_item ref_geth b) \<Longrightarrow> ref_count (concat bs) = Some (length bs)"
  by (induction bs) (simp_all add: ref_count_item ref_count.simps [of "[]"])

lemma rlp_header_pos: "0 < length (rlp_header x y n)"
  by (simp add: rlp_header_def)

lemma ref_split_shrinks: "ref_split b = (k, c, r, None) \<Longrightarrow> length r \<le> length b \<and> (k = RlpList \<longrightarrow> length c < length b)"
  using read_kind_pos [of b] by (auto simp: ref_split_def split: option.splits)

interpretation ref: rlp ref_geth
proof unfold_locales
  fix bs assume "\<And>b. b \<in> set bs \<Longrightarrow> rlp_item ref_geth b"
  then show "rlpCountValues ref_geth (concat bs) = length bs"
    using ref_count_concat by (simp add: ref_geth_def)
next
  show "length c < length (rlpList ref_geth c)" for c
    using rlp_header_pos by (simp add: ref_geth_def ref_list_def)
next
  fix s r :: bytes assume s: "rlp_small s"
  show "rlpSplit ref_geth (rlpString ref_geth s @ r) = (string_kind s, s, r, None)"
    "rlpSplit ref_geth (rlpList ref_geth s @ r) = (RlpList, s, r, None)"
    "rlpSplitString ref_geth (rlpString ref_geth s @ r) = (s, r, None)"
    "rlpSplitList ref_geth (rlpList ref_geth s @ r) = (s, r, None)"
    using ref_split_string [OF s, of r] ref_split_list [OF s, of r]
    by (simp_all add: ref_geth_def ref_splitString_def ref_splitList_def string_kind_def)
next
  show "length (rlpString ref_geth s) \<le> length s + 9" if "rlp_small s" for s
    using length_nat_bytes_small [of "length s"] that
    by (simp add: ref_geth_def ref_string_def rlp_header_def rlp_small_def)
next
  show "rlpEmptyString ref_geth = rlpString ref_geth []"
    by (simp add: ref_geth_def ref_string_def rlp_header_def)
next
  fix b c r :: bytes and k
  show "rlpSplit ref_geth b = (k, c, r, None) \<Longrightarrow> length r \<le> length b"
    using ref_split_shrinks by (simp add: ref_geth_def)
  show "rlpSplitString ref_geth b = (c, r, None) \<Longrightarrow> length r \<le> length b"
    "rlpSplitList ref_geth b = (c, r, None) \<Longrightarrow> length c < length b"
    using ref_split_shrinks [of b]
    by (auto simp: ref_geth_def ref_splitString_def ref_splitList_def split: prod.splits if_splits)
qed

lemma common_laws_ref: "common_laws ref_geth"
  by (simp add: common_laws_def ref_geth_def)

end
