(* ===== verification/TrieNode.thy ===== *)
theory TrieNode
  imports Encoding Rlp
begin

text \<open>
  The nodes of the Merkle Patricia trie, \<open>trie_by_cid/trie/node.go\<close> and \<open>node_enc.go\<close>: the node
  variants (the three collapsed ones of \<open>database.go\<close> included), their cache flags, the
  RLP encoder and the decoder with its error wrapping. The interface value nil is the
  constructor \<open>nilNode\<close>. RLP itself is third-party code (\<open>geth\<close>).
\<close>

section \<open>Nodes\<close>

record nodeFlag =
  flag_hash :: "bytes option"
  flag_dirty :: bool

datatype node =
    nilNode
  | fullNode "node list" nodeFlag
  | shortNode bytes node nodeFlag
  | hashNode bytes
  | valueNode bytes
  | rawFullNode "node list"
  | rawShortNode bytes node
  | rawNode bytes

definition nilValueNode :: node where
  "nilValueNode = valueNode []"

text \<open>
  \<open>cache\<close>: the cached hash and the dirty flag. The collapsed nodes panic; the interface method on nil
  is a nil dereference.
\<close>

fun cache :: "node \<Rightarrow> panic + (bytes option \<times> bool)" where
  "cache (fullNode _ f) = Inr (flag_hash f, flag_dirty f)"
| "cache (shortNode _ _ f) = Inr (flag_hash f, flag_dirty f)"
| "cache (hashNode _) = Inr (None, True)"
| "cache (valueNode _) = Inr (None, True)"
| "cache (rawFullNode _) = Inl (PanicMsg ''this should never end up in a live trie'')"
| "cache (rawShortNode _ _) = Inl (PanicMsg ''this should never end up in a live trie'')"
| "cache (rawNode _) = Inl (PanicMsg ''this should never end up in a live trie'')"
| "cache nilNode = Inl NilDereference"

text \<open>
  \<open>encode\<close>: what the method writes to the buffer. A nil child is written as the empty
  string, also by its parent's method; \<open>encode G nilNode\<close> is that write.
\<close>

fun encode :: "geth \<Rightarrow> node \<Rightarrow> bytes" where
  "encode G nilNode = rlpEmptyString G"
| "encode G (fullNode cs _) = rlpList G (concat (map (encode G) cs))"
| "encode G (shortNode k v _) = rlpList G (rlpString G k @ encode G v)"
| "encode G (hashNode h) = rlpString G h"
| "encode G (valueNode v) = rlpString G v"
| "encode G (rawFullNode cs) = rlpList G (concat (map (encode G) cs))"
| "encode G (rawShortNode k v) = rlpList G (rlpString G k @ encode G v)"
| "encode G (rawNode b) = b"

definition nodeToBytes :: "geth \<Rightarrow> node \<Rightarrow> bytes" where
  "nodeToBytes G n = encode G n"

section \<open>Decoding\<close>

text \<open>
  Decoding errors: \<open>decodeError\<close> wraps the cause with the path to the invalid child, innermost first.
\<close>

datatype decErr =
    ErrUnexpectedEOF
  | RlpError goerr
  | SplitListError goerr
  | InvalidCount nat
  | InvalidValueNode goerr
  | Oversized nat
  | InvalidStringSize nat
  | DecodeError decErr "string list"
  | FuelExhausted

definition wrapError :: "decErr \<Rightarrow> string \<Rightarrow> decErr" where
  "wrapError err ctx =
     (case err of DecodeError what stack \<Rightarrow> DecodeError what (stack @ [ctx]) | _ \<Rightarrow> DecodeError err [ctx])"

definition hashLen :: nat where
  "hashLen = 32"

text \<open>
  \<open>decodeNodeUnsafe\<close> calls \<open>decodeShort\<close> and \<open>decodeFull\<close>, which call \<open>decodeRef\<close>, which calls
  \<open>decodeNode\<close> on an embedded node. The last three take the decoder to call as the argument
  \<open>dn\<close>, and the decoder counts the nesting down. \<open>decodeNode\<close> starts it at the
  length of the buffer, which is enough because a list is longer than its content
  (\<open>decode_fuel\<close> below).
\<close>

definition decodeRef ::
    "geth \<Rightarrow> (bytes option \<Rightarrow> bytes \<Rightarrow> decErr + node) \<Rightarrow> bytes \<Rightarrow> decErr + (node \<times> bytes)" where
  "decodeRef G dn buf =
     (case rlpSplit G buf of (kind, val, rest, err) \<Rightarrow>
        (case err of
           Some e \<Rightarrow> Inl (RlpError e)
         | None \<Rightarrow>
             (if kind = RlpList
              then let size = length buf - length rest
                   in if size > hashLen then Inl (Oversized size)
                      else (case dn None buf of Inl e \<Rightarrow> Inl e | Inr n \<Rightarrow> Inr (n, rest))
              else if kind = RlpString \<and> length val = 0 then Inr (nilNode, rest)
              else if kind = RlpString \<and> length val = 32 then Inr (hashNode val, rest)
              else Inl (InvalidStringSize (length val)))))"

definition decodeShort ::
    "geth \<Rightarrow> (bytes option \<Rightarrow> bytes \<Rightarrow> decErr + node) \<Rightarrow> bytes option \<Rightarrow> bytes \<Rightarrow> decErr + node" where
  "decodeShort G dn hash elems =
     (case rlpSplitString G elems of (kbuf, rest, err) \<Rightarrow>
        (case err of
           Some e \<Rightarrow> Inl (RlpError e)
         | None \<Rightarrow>
             (let flag = \<lparr>flag_hash = hash, flag_dirty = False\<rparr>;
                  key = compactToHex kbuf
              in if hasTerm key
                 then (case rlpSplitString G rest of (val, _, err2) \<Rightarrow>
                         (case err2 of Some e \<Rightarrow> Inl (InvalidValueNode e)
                          | None \<Rightarrow> Inr (shortNode key (valueNode val) flag)))
                 else (case decodeRef G dn rest of
                         Inl e \<Rightarrow> Inl (wrapError e ''val'')
                       | Inr (r, _) \<Rightarrow> Inr (shortNode key r flag)))))"

text \<open>
  The loop of \<open>decodeFull\<close> over the sixteen children; the position (at most 15) is printed into the
  error.
\<close>

definition decimal :: "nat \<Rightarrow> string" where
  "decimal i = (if i < 10 then [char_of (48 + i)] else [char_of (48 + i div 10), char_of (48 + i mod 10)])"

fun decodeChildren ::
    "geth \<Rightarrow> (bytes option \<Rightarrow> bytes \<Rightarrow> decErr + node) \<Rightarrow> nat \<Rightarrow> nat \<Rightarrow> bytes \<Rightarrow> decErr + (node list \<times> bytes)" where
  "decodeChildren G dn 0 i elems = Inr ([], elems)"
| "decodeChildren G dn (Suc k) i elems =
     (case decodeRef G dn elems of
        Inl e \<Rightarrow> Inl (wrapError e (''['' @ decimal i @ '']''))
      | Inr (cld, rest) \<Rightarrow>
          (case decodeChildren G dn k (Suc i) rest of
             Inl e \<Rightarrow> Inl e
           | Inr (clds, rest2) \<Rightarrow> Inr (cld # clds, rest2)))"

definition decodeFull ::
    "geth \<Rightarrow> (bytes option \<Rightarrow> bytes \<Rightarrow> decErr + node) \<Rightarrow> bytes option \<Rightarrow> bytes \<Rightarrow> decErr + node" where
  "decodeFull G dn hash elems =
     (case decodeChildren G dn 16 0 elems of
        Inl e \<Rightarrow> Inl e
      | Inr (clds, rest) \<Rightarrow>
          (case rlpSplitString G rest of (val, _, err) \<Rightarrow>
             (case err of
                Some e \<Rightarrow> Inl (RlpError e)
              | None \<Rightarrow> Inr (fullNode (clds @ [if length val > 0 then valueNode val else nilNode])
                             \<lparr>flag_hash = hash, flag_dirty = False\<rparr>))))"

fun decodeNodeUnsafe :: "geth \<Rightarrow> nat \<Rightarrow> bytes option \<Rightarrow> bytes \<Rightarrow> decErr + node" where
  "decodeNodeUnsafe G 0 hash buf = Inl FuelExhausted"
| "decodeNodeUnsafe G (Suc fuel) hash buf =
     (if length buf = 0 then Inl ErrUnexpectedEOF
      else case rlpSplitList G buf of (elems, _, err) \<Rightarrow>
        (case err of
           Some e \<Rightarrow> Inl (SplitListError e)
         | None \<Rightarrow>
             (let c = rlpCountValues G elems
              in if c = 2
                 then (case decodeShort G (decodeNodeUnsafe G fuel) hash elems of
                         Inl e \<Rightarrow> Inl (wrapError e ''short'') | Inr n \<Rightarrow> Inr n)
                 else if c = 17
                 then (case decodeFull G (decodeNodeUnsafe G fuel) hash elems of
                         Inl e \<Rightarrow> Inl (wrapError e ''full'') | Inr n \<Rightarrow> Inr n)
                 else Inl (InvalidCount c))))"

definition decodeNode :: "geth \<Rightarrow> bytes option \<Rightarrow> bytes \<Rightarrow> decErr + node" where
  "decodeNode G hash buf = decodeNodeUnsafe G (Suc (length buf)) hash buf"

definition mustDecodeNode :: "geth \<Rightarrow> bytes option \<Rightarrow> bytes \<Rightarrow> panic + node" where
  "mustDecodeNode G hash buf =
     (case decodeNode G hash buf of Inl e \<Rightarrow> Inl (PanicMsg ''node decode'') | Inr n \<Rightarrow> Inr n)"

section \<open>Collapsed nodes\<close>

fun simplifyNode :: "node \<Rightarrow> panic + node" where
  "simplifyNode (shortNode k v _) =
     (case simplifyNode v of Inl p \<Rightarrow> Inl p | Inr v' \<Rightarrow> Inr (rawShortNode k v'))"
| "simplifyNode (fullNode cs _) =
     (case mapE (\<lambda>c. if c = nilNode then Inr nilNode else simplifyNode c) cs of
        Inl p \<Rightarrow> Inl p | Inr cs' \<Rightarrow> Inr (rawFullNode cs'))"
| "simplifyNode (valueNode v) = Inr (valueNode v)"
| "simplifyNode (hashNode h) = Inr (hashNode h)"
| "simplifyNode (rawNode b) = Inr (rawNode b)"
| "simplifyNode _ = Inl (PanicMsg ''unknown node type'')"

fun expandNode :: "bytes option \<Rightarrow> node \<Rightarrow> panic + node" where
  "expandNode hash (rawShortNode k v) =
     (case expandNode None v of Inl p \<Rightarrow> Inl p
      | Inr v' \<Rightarrow> Inr (shortNode (compactToHex k) v' \<lparr>flag_hash = hash, flag_dirty = False\<rparr>))"
| "expandNode hash (rawFullNode cs) =
     (case mapE (\<lambda>c. if c = nilNode then Inr nilNode else expandNode None c) cs of
        Inl p \<Rightarrow> Inl p
      | Inr cs' \<Rightarrow> Inr (fullNode cs' \<lparr>flag_hash = hash, flag_dirty = False\<rparr>))"
| "expandNode hash (valueNode v) = Inr (valueNode v)"
| "expandNode hash (hashNode h) = Inr (hashNode h)"
| "expandNode hash _ = Inl (PanicMsg ''unknown node type'')"

text \<open>The hashes \<open>forGatherChildren\<close> passes to its callback, in order.\<close>

fun forGatherChildren :: "geth \<Rightarrow> node \<Rightarrow> panic + hash list" where
  "forGatherChildren G (rawShortNode k v) = forGatherChildren G v"
| "forGatherChildren G (rawFullNode cs) =
     (case mapE (forGatherChildren G) (take 16 cs) of Inl p \<Rightarrow> Inl p | Inr hss \<Rightarrow> Inr (concat hss))"
| "forGatherChildren G (hashNode h) = Inr [BytesToHash G h]"
| "forGatherChildren G (valueNode _) = Inr []"
| "forGatherChildren G nilNode = Inr []"
| "forGatherChildren G (rawNode _) = Inr []"
| "forGatherChildren G _ = Inl (PanicMsg ''unknown node type'')"

section \<open>Decoding what was encoded\<close>

definition is_hashRef :: "node \<Rightarrow> bool" where
  "is_hashRef n \<longleftrightarrow> (case n of hashNode h \<Rightarrow> length h = 32 | _ \<Rightarrow> False)"

definition is_smallValue :: "node \<Rightarrow> bool" where
  "is_smallValue n \<longleftrightarrow> (case n of valueNode b \<Rightarrow> rlp_small b | _ \<Rightarrow> False)"

text \<open>
  The collapsed nodes the committer stores: keys in compact form, a value under a key with a terminator,
  otherwise a 32-byte hash or an embedded node of at most 32 bytes; a full node has seventeen
  children, the last one nil or a non-empty value.
\<close>

fun collapsed :: "geth \<Rightarrow> node \<Rightarrow> bool" where
  "collapsed G (rawShortNode k v) \<longleftrightarrow> rlp_small k \<and> rlp_small (rlpString G k @ encode G v) \<and>
     (if hasTerm (compactToHex k) then is_smallValue v
      else is_hashRef v \<or> (collapsed G v \<and> length (encode G v) \<le> 32))"
| "collapsed G (rawFullNode cs) \<longleftrightarrow> length cs = 17 \<and> rlp_small (concat (map (encode G) cs)) \<and>
     (\<forall>c \<in> set (take 16 cs). c = nilNode \<or> is_hashRef c \<or> (collapsed G c \<and> length (encode G c) \<le> 32)) \<and>
     (cs ! 16 = nilNode \<or> (is_smallValue (cs ! 16) \<and> cs ! 16 \<noteq> valueNode []))"
| "collapsed G nilNode \<longleftrightarrow> False"
| "collapsed G (fullNode cs f) \<longleftrightarrow> False"
| "collapsed G (shortNode k v f) \<longleftrightarrow> False"
| "collapsed G (hashNode h) \<longleftrightarrow> False"
| "collapsed G (valueNode v) \<longleftrightarrow> False"
| "collapsed G (rawNode b) \<longleftrightarrow> False"

definition is_ref :: "geth \<Rightarrow> node \<Rightarrow> bool" where
  "is_ref G c \<longleftrightarrow> c = nilNode \<or> is_hashRef c \<or> (collapsed G c \<and> length (encode G c) \<le> 32)"

lemma is_hashRef_iff: "is_hashRef n \<longleftrightarrow> (\<exists>h. n = hashNode h \<and> length h = 32)"
  by (auto simp: is_hashRef_def split: node.splits)

lemma is_smallValue_iff: "is_smallValue n \<longleftrightarrow> (\<exists>b. n = valueNode b \<and> rlp_small b)"
  by (auto simp: is_smallValue_def split: node.splits)

lemma rlp_small_32: "length b \<le> 32 \<Longrightarrow> rlp_small b"
  by (simp add: rlp_small_def)

lemma collapsed_cases:
  assumes "collapsed G n"
  obtains (short) k v where "n = rawShortNode k v" | (full) cs where "n = rawFullNode cs"
  using assms by (cases n) auto

text \<open>What a child decodes to.\<close>

definition expandChild :: "node \<Rightarrow> panic + node" where
  "expandChild c = (if c = nilNode then Inr nilNode else expandNode None c)"

context rlp
begin

lemma encode_collapsed:
  assumes "collapsed G n" shows "\<exists>c. encode G n = rlpList G c \<and> rlp_small c"
  using assms by (cases n) auto

lemma item_string: "rlp_small s \<Longrightarrow> rlp_item G (rlpString G s)"
  by (auto simp: rlp_item_def)

lemma item_empty: "rlp_item G (rlpEmptyString G)"
  unfolding emptyString by (rule item_string) (simp add: rlp_small_def)

lemma item_ref:
  assumes "is_ref G c" shows "rlp_item G (encode G c)"
proof -
  consider (nil) "c = nilNode" | (hash) h where "c = hashNode h" "length h = 32" | (emb) "collapsed G c"
    using assms unfolding is_ref_def is_hashRef_iff by blast
  then show ?thesis
  proof cases
    case emb
    then show ?thesis using encode_collapsed unfolding rlp_item_def by blast
  qed (simp_all add: item_empty item_string rlp_small_32)
qed

lemma item_value: "is_smallValue c \<or> c = nilNode \<Longrightarrow> rlp_item G (encode G c)"
  by (auto simp: is_smallValue_def item_string item_empty split: node.splits)

lemma decodeRef_encode:
  assumes "is_ref G c" and "collapsed G c \<Longrightarrow> \<exists>n. expandNode None c = Inr n \<and> dn None (encode G c @ r) = Inr n"
  shows "\<exists>n. expandChild c = Inr n \<and> decodeRef G dn (encode G c @ r) = Inr (n, r)"
proof -
  consider (nil) "c = nilNode" | (hash) h where "c = hashNode h" "length h = 32"
    | (emb) "collapsed G c" "length (encode G c) \<le> 32" "c \<noteq> nilNode"
    using assms(1) unfolding is_ref_def is_hashRef_iff by blast
  then show ?thesis
  proof cases
    case nil
    have "rlpSplit G (encode G c @ r) = (RlpString, [], r, None)"
      using split_string [of "[]" r] by (simp add: nil emptyString string_kind_def rlp_small_32)
    then show ?thesis by (simp add: decodeRef_def expandChild_def nil)
  next
    case hash
    have "rlpSplit G (encode G c @ r) = (RlpString, h, r, None)"
      using split_string [of h r] hash by (simp add: string_kind_def rlp_small_32)
    moreover have "h \<noteq> []" using hash(2) by auto
    ultimately show ?thesis by (simp add: decodeRef_def expandChild_def hash)
  next
    case emb
    obtain x where x: "encode G c = rlpList G x" "rlp_small x" using encode_collapsed [OF emb(1)] by blast
    obtain n where "expandNode None c = Inr n" "dn None (encode G c @ r) = Inr n" using assms(2) emb(1) by blast
    moreover have "rlpSplit G (encode G c @ r) = (RlpList, x, r, None)" using split_list [OF x(2)] x(1) by simp
    ultimately show ?thesis using emb by (simp add: decodeRef_def expandChild_def hashLen_def)
  qed
qed

lemma decodeChildren_encode:
  assumes "\<And>c r. c \<in> set cs \<Longrightarrow> \<exists>n. expandChild c = Inr n \<and> decodeRef G dn (encode G c @ r) = Inr (n, r)"
  shows "\<exists>ns. mapE expandChild cs = Inr ns \<and> decodeChildren G dn (length cs) i (concat (map (encode G) cs) @ r) = Inr (ns, r)"
  using assms
proof (induction cs arbitrary: i)
  case (Cons c cs)
  obtain n where "expandChild c = Inr n" "decodeRef G dn (encode G c @ concat (map (encode G) cs) @ r) = Inr (n, concat (map (encode G) cs) @ r)"
    using Cons.prems [of c] by auto
  moreover obtain ns where "mapE expandChild cs = Inr ns"
    "decodeChildren G dn (length cs) (Suc i) (concat (map (encode G) cs) @ r) = Inr (ns, r)"
    using Cons.IH [of "Suc i"] Cons.prems by auto
  ultimately show ?case by simp
qed simp

text \<open>Short and full nodes, given that the decoder works on embedded children.\<close>

lemma decodeShort_encode:
  assumes "collapsed G (rawShortNode k v)"
    and dn: "\<And>r. collapsed G v \<Longrightarrow> \<exists>n. expandNode None v = Inr n \<and> dn None (encode G v @ r) = Inr n"
  shows "\<exists>n. expandNode hash (rawShortNode k v) = Inr n
    \<and> decodeShort G dn hash (rlpString G k @ encode G v) = Inr n"
proof -
  have k: "rlpSplitString G (rlpString G k @ encode G v) = (k, encode G v, None)"
    using assms(1) by (intro splitString) simp
  show ?thesis
  proof (cases "hasTerm (compactToHex k)")
    case True
    then obtain b where b: "v = valueNode b" "rlp_small b" using assms(1) by (auto simp: is_smallValue_iff)
    then show ?thesis using k True splitString [OF b(2), of "[]"] by (simp add: decodeShort_def Let_def)
  next
    case False
    then have v: "is_ref G v" "v \<noteq> nilNode" using assms(1) by (auto simp: is_ref_def is_hashRef_iff)
    obtain n where "expandChild v = Inr n" "decodeRef G dn (encode G v @ []) = Inr (n, [])"
      using decodeRef_encode [OF v(1), of dn "[]"] dn by blast
    then show ?thesis using k False v(2) by (simp add: decodeShort_def expandChild_def Let_def)
  qed
qed

lemma decodeFull_encode:
  assumes "collapsed G (rawFullNode cs)"
    and dn: "\<And>c r. c \<in> set (take 16 cs) \<Longrightarrow> collapsed G c \<Longrightarrow>
      \<exists>n. expandNode None c = Inr n \<and> dn None (encode G c @ r) = Inr n"
  shows "\<exists>n. expandNode hash (rawFullNode cs) = Inr n
    \<and> decodeFull G dn hash (concat (map (encode G) cs)) = Inr n"
proof -
  have l: "length cs = 17" using assms(1) by simp
  then have cs: "cs = take 16 cs @ [cs ! 16]" using id_take_nth_drop [of 16 cs] by simp
  have "\<exists>n. expandChild c = Inr n \<and> decodeRef G dn (encode G c @ r) = Inr (n, r)" if "c \<in> set (take 16 cs)" for c r
    by (rule decodeRef_encode) (use that assms(1) dn in \<open>auto simp: is_ref_def\<close>)
  then obtain ns where ns: "mapE expandChild (take 16 cs) = Inr ns"
    "decodeChildren G dn 16 0 (concat (map (encode G) (take 16 cs)) @ encode G (cs ! 16)) = Inr (ns, encode G (cs ! 16))"
    using decodeChildren_encode [of "take 16 cs" dn 0 "encode G (cs ! 16)"] l by auto
  have e: "concat (map (encode G) cs) = concat (map (encode G) (take 16 cs)) @ encode G (cs ! 16)"
    by (subst cs) simp
  obtain b where b: "rlp_small b" "encode G (cs ! 16) = rlpString G b"
    "cs ! 16 = (if length b > 0 then valueNode b else nilNode)"
    using assms(1) emptyString rlp_small_32 [of "[]"] by (auto simp: is_smallValue_iff)
  have last: "expandChild (cs ! 16) = Inr (if length b > 0 then valueNode b else nilNode)"
    by (simp add: b(3) expandChild_def)
  have "mapE expandChild cs = Inr (ns @ [if length b > 0 then valueNode b else nilNode])"
    using ns(1) last by (subst cs) (simp add: mapE_append)
  then have "expandNode hash (rawFullNode cs) = Inr (fullNode (ns @ [if length b > 0 then valueNode b else nilNode])
      \<lparr>flag_hash = hash, flag_dirty = False\<rparr>)"
    by (simp add: expandChild_def [abs_def])
  moreover have "rlpSplitString G (encode G (cs ! 16)) = (b, [], None)" using splitString [OF b(1), of "[]"] b(2) by simp
  ultimately show ?thesis using ns(2) e by (simp add: decodeFull_def)
qed

lemma decode_encode:
  assumes "collapsed G n" and "length (encode G n) < fuel"
  shows "\<exists>m. expandNode hash n = Inr m \<and> decodeNodeUnsafe G fuel hash (encode G n @ r) = Inr m"
  using assms
proof (induction n arbitrary: fuel hash r rule: measure_induct_rule [of size])
  case (less n)
  obtain f where f: "fuel = Suc f" using less.prems(2) by (cases fuel) auto
  from less.prems(1) show ?case
  proof (cases rule: collapsed_cases)
    case (short k v)
    let ?x = "rlpString G k @ encode G v"
    have x: "rlp_small ?x" "length ?x < f" using less.prems f list_grows [of ?x] short by auto
    have "\<exists>m. expandNode None v = Inr m \<and> decodeNodeUnsafe G f None (encode G v @ r) = Inr m" if "collapsed G v" for r
      using less.IH [of v f None r] that x(2) short by simp
    then obtain m where m: "expandNode hash n = Inr m" "decodeShort G (decodeNodeUnsafe G f) hash ?x = Inr m"
      using decodeShort_encode [OF less.prems(1) [unfolded short], of "decodeNodeUnsafe G f" hash] short by blast
    have "is_ref G v \<or> is_smallValue v" using less.prems(1) short by (auto simp: is_ref_def split: if_splits)
    then have "rlpCountValues G (concat [rlpString G k, encode G v]) = 2"
      using less.prems(1) short by (subst countValues) (auto simp: item_ref item_value item_string)
    then show ?thesis using m splitList [OF x(1), of r] list_grows [of ?x] short f by (auto simp: Let_def)
  next
    case (full cs)
    let ?x = "concat (map (encode G) cs)"
    have x: "rlp_small ?x" "length ?x < f" using less.prems f list_grows [of ?x] full by auto
    have "\<exists>m. expandNode None c = Inr m \<and> decodeNodeUnsafe G f None (encode G c @ r) = Inr m"
      if "c \<in> set (take 16 cs)" "collapsed G c" for c r
    proof (rule less.IH [OF _ that(2)])
      show "size c < size n" using size_in_take [OF that(1), of size] full by simp
      have "length (encode G c) \<le> length ?x"
        using in_set_takeD [OF that(1)] member_le_sum_list [of "length (encode G c)" "map (length \<circ> encode G) cs"]
        by (auto simp: length_concat)
      then show "length (encode G c) < f" using x(2) by simp
    qed
    then obtain m where m: "expandNode hash n = Inr m" "decodeFull G (decodeNodeUnsafe G f) hash ?x = Inr m"
      using decodeFull_encode [OF less.prems(1) [unfolded full], of "decodeNodeUnsafe G f" hash] full by blast
    have l: "length cs = 17" using less.prems(1) full by simp
    have "rlp_item G (encode G c)" if "c \<in> set cs" for c
    proof -
      have "cs = take 16 cs @ [cs ! 16]" using id_take_nth_drop [of 16 cs] l by simp
      then have "c \<in> set (take 16 cs) \<or> c = cs ! 16" using that by (metis Un_iff empty_iff insert_iff list.set set_append)
      then show ?thesis using less.prems(1) full by (auto simp: is_ref_def intro: item_ref item_value)
    qed
    then have "rlpCountValues G ?x = 17" using l by (subst countValues) auto
    then show ?thesis using m splitList [OF x(1), of r] list_grows [of ?x] full f by (auto simp: Let_def)
  qed
qed

end

lemma mustDecode_encode:
  assumes "rlp G" "collapsed G n" "expandNode hash n = Inr m"
  shows "mustDecodeNode G hash (nodeToBytes G n) = Inr m"
  using rlp.decode_encode [OF assms(1,2), of "Suc (length (encode G n))" hash "[]"] assms(3)
  by (auto simp: decodeNode_def nodeToBytes_def mustDecodeNode_def)

text \<open>
  C19: The two ways of reading a stored node agree. For a collapsed node the decoder applied to
  the RLP encoding returns exactly what \<open>expandNode\<close> computes from the node itself: no
  decoding error, the same keys, children and cached hash.
\<close>

theorem decode_encode_expand:
  assumes "rlp G" "collapsed G n"
  shows "\<exists>m. expandNode hash n = Inr m \<and> decodeNode G hash (nodeToBytes G n) = Inr m
    \<and> mustDecodeNode G hash (nodeToBytes G n) = Inr m"
  using rlp.decode_encode [OF assms, of "Suc (length (encode G n))" hash "[]"]
  by (auto simp: decodeNode_def nodeToBytes_def mustDecodeNode_def)

theorem decode_encode_expand_witness:
  "\<exists>m. expandNode None (rawShortNode [0x20, 0x12] (valueNode [1, 2, 3])) = Inr m
     \<and> decodeNode ref_geth None (nodeToBytes ref_geth (rawShortNode [0x20, 0x12] (valueNode [1, 2, 3]))) = Inr m"
proof -
  have "collapsed ref_geth (rawShortNode [0x20, 0x12] (valueNode [1, 2, 3]))"
    by (simp add: rlp_small_def compactToHex_Cons hasTerm_last is_smallValue_def ref_geth_def ref_string_def rlp_header_def)
  then show ?thesis using decode_encode_expand [OF ref.rlp_axioms, of _ None] by blast
qed

section \<open>Nesting depth\<close>

context rlp
begin

lemma decodeRef_cong:
  assumes "dn None b = dn' None b" shows "decodeRef G dn b = decodeRef G dn' b"
  using assms by (simp add: decodeRef_def Let_def split: prod.split option.split)

lemma decodeRef_rest: "decodeRef G dn b = Inr (n, r) \<Longrightarrow> length r \<le> length b"
  using split_shrinks by (auto simp: decodeRef_def Let_def split: prod.splits option.splits if_splits sum.splits)

lemma decodeChildren_cong:
  assumes "\<And>b'. length b' \<le> length b \<Longrightarrow> dn None b' = dn' None b'"
  shows "decodeChildren G dn k i b = decodeChildren G dn' k i b"
  using assms
proof (induction k arbitrary: i b)
  case (Suc k)
  have d: "decodeRef G dn b = decodeRef G dn' b" by (rule decodeRef_cong) (simp add: Suc.prems)
  show ?case
  proof (cases "decodeRef G dn' b")
    case (Inr p)
    then obtain n r where p: "decodeRef G dn' b = Inr (n, r)" by (cases p) auto
    have "decodeChildren G dn k (Suc i) r = decodeChildren G dn' k (Suc i) r"
      by (rule Suc.IH) (use decodeRef_rest [OF p] Suc.prems in auto)
    then show ?thesis using p d by simp
  qed (use d in simp)
qed simp

text \<open>A fuel above the length of the buffer never runs out, and more makes no difference.\<close>

lemma decode_fuel:
  "length b < f \<Longrightarrow> length b < g \<Longrightarrow> decodeNodeUnsafe G f hash b = decodeNodeUnsafe G g hash b"
proof (induction "length b" arbitrary: b f g hash rule: less_induct)
  case less
  obtain f' g' where fg: "f = Suc f'" "g = Suc g'" using less.prems by (cases f; cases g) auto
  obtain c r err where s: "rlpSplitList G b = (c, r, err)" by (cases "rlpSplitList G b") auto
  show ?case
  proof (cases err)
    case None
    have dn: "decodeNodeUnsafe G f' None b' = decodeNodeUnsafe G g' None b'" if "length b' \<le> length c" for b'
      using less.hyps [of b' f' g' None] splitList_shrinks [of b c r] s None that less.prems fg by simp
    have "decodeShort G (decodeNodeUnsafe G f') hash c = decodeShort G (decodeNodeUnsafe G g') hash c"
    proof (cases "rlpSplitString G c")
      case (fields k b' e)
      have "decodeRef G (decodeNodeUnsafe G f') b' = decodeRef G (decodeNodeUnsafe G g') b'" if "e = None"
        by (rule decodeRef_cong, rule dn) (use splitString_shrinks fields that in simp)
      then show ?thesis using fields by (simp add: decodeShort_def Let_def split: option.split)
    qed
    moreover have "decodeFull G (decodeNodeUnsafe G f') hash c = decodeFull G (decodeNodeUnsafe G g') hash c"
    proof -
      have "decodeChildren G (decodeNodeUnsafe G f') 16 0 c = decodeChildren G (decodeNodeUnsafe G g') 16 0 c"
        by (rule decodeChildren_cong) (rule dn)
      then show ?thesis by (simp add: decodeFull_def)
    qed
    ultimately show ?thesis using s None fg by (simp add: Let_def)
  qed (use s fg in simp)
qed

end

end
