(* ===== verification/TrieOps.thy ===== *)
theory TrieOps
  imports TrieNode
begin

text \<open>
  The trie operations, \<open>trie_by_cid/trie/trie.go\<close>, with the tracer (\<open>tracer.go\<close>), the node reader
  (\<open>trie_reader.go\<close>), trie identifiers (\<open>trie_id.go\<close>) and the missing-node error (\<open>errors.go\<close>).
  The recursive operations resolve hash nodes through the reader, so on a database with a
  cycle they need not return: they are partial functions into \<open>option\<close>, where \<open>None\<close> is not
  returning. A call that returns gives an \<open>out\<close>: a panic, an error, or values; the tracer, which
  the calls mutate, is threaded through. The node values Go returns next to an error are
  never used by a caller and are left out. \<open>append(prefix, ...)\<close> may share its backing array
  with other paths, but every path is turned into a string or dropped before
  the next append, so paths are plain lists here.
\<close>

section \<open>Tracer\<close>

record tracer =
  inserts :: "bytes set"
  deletes :: "bytes set"
  accessed :: "bytes \<rightharpoonup> bytes"

definition newTracer :: tracer where
  "newTracer = \<lparr>inserts = {}, deletes = {}, accessed = Map.empty\<rparr>"

definition onRead :: "tracer \<Rightarrow> bytes \<Rightarrow> bytes \<Rightarrow> tracer" where
  "onRead t path val = t\<lparr>accessed := (accessed t)(path \<mapsto> val)\<rparr>"

definition onInsert :: "tracer \<Rightarrow> bytes \<Rightarrow> tracer" where
  "onInsert t path =
     (if path \<in> deletes t then t\<lparr>deletes := deletes t - {path}\<rparr>
      else t\<lparr>inserts := insert path (inserts t)\<rparr>)"

definition onDelete :: "tracer \<Rightarrow> bytes \<Rightarrow> tracer" where
  "onDelete t path =
     (if path \<in> inserts t then t\<lparr>inserts := inserts t - {path}\<rparr>
      else t\<lparr>deletes := insert path (deletes t)\<rparr>)"

definition tracer_reset :: "tracer \<Rightarrow> tracer" where
  "tracer_reset t = t\<lparr>inserts := {}, deletes := {}, accessed := Map.empty\<rparr>"

definition tracer_copy :: "tracer \<Rightarrow> tracer" where
  "tracer_copy t = \<lparr>inserts = inserts t, deletes = deletes t, accessed = accessed t\<rparr>"

section \<open>Errors, identifiers, the reader\<close>

datatype trieError =
    MissingNodeError (Owner: hash) (NodeHash: hash) (Path: bytes) (wrapped: "goerr option")
  | NonConsensusNode
  | StateNotFound hash

record ID =
  StateRoot :: hash
  id_Owner :: hash
  id_Root :: hash

definition StateTrieID :: "hash \<Rightarrow> ID" where
  "StateTrieID r = \<lparr>StateRoot = r, id_Owner = 0, id_Root = r\<rparr>"

definition StorageTrieID :: "hash \<Rightarrow> hash \<Rightarrow> hash \<Rightarrow> ID" where
  "StorageTrieID stateRoot own r = \<lparr>StateRoot = stateRoot, id_Owner = own, id_Root = r\<rparr>"

definition TrieID :: "hash \<Rightarrow> ID" where
  "TrieID r = \<lparr>StateRoot = r, id_Owner = 0, id_Root = r\<rparr>"

text \<open>A backing store as the trie sees it: the blob of a node, or an error.\<close>

type_synonym nodeStore = "hash \<Rightarrow> bytes \<Rightarrow> hash \<Rightarrow> bytes \<times> goerr option"

record trieReader =
  rd_owner :: hash
  rd_reader :: "nodeStore option"
  rd_banned :: "bytes set option"

definition newTrieReader ::
    "hash \<Rightarrow> hash \<Rightarrow> (hash \<Rightarrow> u64 \<Rightarrow> nodeStore option) \<Rightarrow> u64 \<Rightarrow> trieError + trieReader" where
  "newTrieReader stateRoot own db codec =
     (case db stateRoot codec of
        None \<Rightarrow> Inl (StateNotFound stateRoot)
      | Some reader \<Rightarrow> Inr \<lparr>rd_owner = own, rd_reader = Some reader, rd_banned = None\<rparr>)"

definition newEmptyReader :: trieReader where
  "newEmptyReader = \<lparr>rd_owner = 0, rd_reader = None, rd_banned = None\<rparr>"

definition nodeBlob :: "trieReader \<Rightarrow> bytes \<Rightarrow> hash \<Rightarrow> trieError + bytes" where
  "nodeBlob r path h =
     (if (case rd_banned r of None \<Rightarrow> False | Some b \<Rightarrow> path \<in> b)
      then Inl (MissingNodeError (rd_owner r) h path None)
      else case rd_reader r of
             None \<Rightarrow> Inl (MissingNodeError (rd_owner r) h path None)
           | Some reader \<Rightarrow>
               (case reader (rd_owner r) path h of (blob, err) \<Rightarrow>
                  if err \<noteq> None \<or> length blob = 0 then Inl (MissingNodeError (rd_owner r) h path err)
                  else Inr blob))"

section \<open>Outcomes\<close>

datatype 'a out = Panics panic | Fails tracer trieError | Returns tracer 'a

text \<open>Run a call, pass on a panic or an error, and go on with the values otherwise.\<close>

definition andThen :: "'a out option \<Rightarrow> (tracer \<Rightarrow> 'a \<Rightarrow> 'b out option) \<Rightarrow> 'b out option" where
  "andThen m k = Option.bind m (\<lambda>r. case r of
     Panics p \<Rightarrow> Some (Panics p) | Fails t e \<Rightarrow> Some (Fails t e) | Returns t a \<Rightarrow> k t a)"

lemma andThen_simps [simp]:
  "andThen None k = None" "andThen (Some (Panics p)) k = Some (Panics p)"
  "andThen (Some (Fails t e)) k = Some (Fails t e)" "andThen (Some (Returns t a)) k = k t a"
  by (simp_all add: andThen_def)

lemma andThen_mono [partial_function_mono]:
  assumes "mono_option B" and "\<And>t a. mono_option (\<lambda>f. C t a f)"
  shows "mono_option (\<lambda>f. andThen (B f) (\<lambda>t a. C t a f))"
proof -
  have "mono_option (\<lambda>f. case r of Panics p \<Rightarrow> Some (Panics p) | Fails t e \<Rightarrow> Some (Fails t e) | Returns t a \<Rightarrow> C t a f)" for r
    using assms(2) by (cases r) (auto intro: partial_function_mono)
  then show ?thesis unfolding andThen_def by (intro bind_mono assms(1))
qed

definition resolveAndTrack :: "geth \<Rightarrow> trieReader \<Rightarrow> tracer \<Rightarrow> bytes \<Rightarrow> bytes \<Rightarrow> node out" where
  "resolveAndTrack G R tr h prf =
     (case nodeBlob R prf (BytesToHash G h) of
        Inl e \<Rightarrow> Fails tr e
      | Inr blob \<Rightarrow>
          (case mustDecodeNode G (Some h) blob of
             Inl p \<Rightarrow> Panics p
           | Inr n \<Rightarrow> Returns (onRead tr prf blob) n))"

definition resolve :: "geth \<Rightarrow> trieReader \<Rightarrow> tracer \<Rightarrow> node \<Rightarrow> bytes \<Rightarrow> node out" where
  "resolve G R tr n prf =
     (case n of hashNode h \<Rightarrow> resolveAndTrack G R tr h prf | _ \<Rightarrow> Returns tr n)"

definition newFlag :: nodeFlag where
  "newFlag = \<lparr>flag_hash = None, flag_dirty = True\<rparr>"

definition concat_bytes :: "bytes \<Rightarrow> bytes \<Rightarrow> bytes" where
  "concat_bytes s1 s2 = s1 @ s2"

definition invalidNode :: panic where
  "invalidNode = PanicMsg ''invalid node''"

section \<open>Lookup\<close>

partial_function (option) tryGet ::
    "geth \<Rightarrow> trieReader \<Rightarrow> tracer \<Rightarrow> node \<Rightarrow> bytes \<Rightarrow> nat \<Rightarrow> (bytes option \<times> node \<times> bool) out option" where
  "tryGet G R tr origNode key pos =
     (case origNode of
        nilNode \<Rightarrow> Some (Returns tr (None, nilNode, False))
      | valueNode v \<Rightarrow> Some (Returns tr (Some v, valueNode v, False))
      | shortNode nk nv nf \<Rightarrow>
          (if length key - pos < length nk \<or> nk \<noteq> take (length nk) (drop pos key)
           then Some (Returns tr (None, origNode, False))
           else andThen (tryGet G R tr nv key (pos + length nk)) (\<lambda>tr1 (val, newnode, didResolve).
                  Some (Returns tr1 (val, if didResolve then shortNode nk newnode nf else origNode, didResolve))))
      | fullNode cs nf \<Rightarrow>
          (if pos \<ge> length key \<or> unat (key ! pos) \<ge> length cs then Some (Panics IndexOutOfRange)
           else andThen (tryGet G R tr (cs ! unat (key ! pos)) key (pos + 1)) (\<lambda>tr1 (val, newnode, didResolve).
                  Some (Returns tr1 (val, if didResolve then fullNode (cs[unat (key ! pos) := newnode]) nf else origNode,
                                     didResolve))))
      | hashNode h \<Rightarrow>
          andThen (Some (resolveAndTrack G R tr h (take pos key))) (\<lambda>tr1 child.
            andThen (tryGet G R tr1 child key pos) (\<lambda>tr2 (val, newnode, _). Some (Returns tr2 (val, newnode, True))))
      | _ \<Rightarrow> Some (Panics invalidNode))"

text \<open>\<open>tryGetNode\<close> returns a count next to the error, so its error is one of the returned values.\<close>

partial_function (option) tryGetNode ::
    "geth \<Rightarrow> trieReader \<Rightarrow> tracer \<Rightarrow> node \<Rightarrow> bytes \<Rightarrow> nat
       \<Rightarrow> (bytes option \<times> node \<times> int \<times> trieError option) out option" where
  "tryGetNode G R tr origNode path pos =
     (if origNode = nilNode then Some (Returns tr (None, nilNode, 0, None))
      else if pos \<ge> length path
      then Some (case (case origNode of hashNode h \<Rightarrow> Inr (Some h, True) | _ \<Rightarrow> cache origNode) of
             Inl p \<Rightarrow> Panics p
           | Inr (None, _) \<Rightarrow> Returns tr (None, origNode, 0, Some NonConsensusNode)
           | Inr (Some h, _) \<Rightarrow>
               (case nodeBlob R path (BytesToHash G h) of
                  Inl e \<Rightarrow> Returns tr (None, origNode, 1, Some e)
                | Inr blob \<Rightarrow> Returns tr (Some blob, origNode, 1, None)))
      else case origNode of
        valueNode v \<Rightarrow> Some (Returns tr (None, nilNode, 0, None))
      | shortNode nk nv nf \<Rightarrow>
          (if length path - pos < length nk \<or> nk \<noteq> take (length nk) (drop pos path)
           then Some (Returns tr (None, origNode, 0, None))
           else andThen (tryGetNode G R tr nv path (pos + length nk)) (\<lambda>tr1 (item, newnode, resolved, err).
                  Some (Returns tr1 (item, if err = None \<and> resolved > 0 then shortNode nk newnode nf else origNode,
                                     resolved, err))))
      | fullNode cs nf \<Rightarrow>
          (if unat (path ! pos) \<ge> length cs then Some (Panics IndexOutOfRange)
           else andThen (tryGetNode G R tr (cs ! unat (path ! pos)) path (pos + 1)) (\<lambda>tr1 (item, newnode, resolved, err).
                  Some (Returns tr1 (item, if err = None \<and> resolved > 0 then fullNode (cs[unat (path ! pos) := newnode]) nf
                                           else origNode, resolved, err))))
      | hashNode h \<Rightarrow>
          (case resolveAndTrack G R tr h (take pos path) of
             Panics p \<Rightarrow> Some (Panics p)
           | Fails tr1 e \<Rightarrow> Some (Returns tr1 (None, origNode, 1, Some e))
           | Returns tr1 child \<Rightarrow>
               andThen (tryGetNode G R tr1 child path pos) (\<lambda>tr2 (item, newnode, resolved, err).
                 Some (Returns tr2 (item, newnode, resolved + 1, err))))
      | _ \<Rightarrow> Some (Panics invalidNode))"

section \<open>Insertion\<close>

partial_function (option) insert_node ::
    "geth \<Rightarrow> trieReader \<Rightarrow> tracer \<Rightarrow> node \<Rightarrow> bytes \<Rightarrow> bytes \<Rightarrow> node \<Rightarrow> (bool \<times> node) out option" where
  "insert_node G R tr n prf key val =
     (if length key = 0
      then Some (case n of
             valueNode v \<Rightarrow> (case val of
                              valueNode v' \<Rightarrow> Returns tr (v \<noteq> v', val)
                            | _ \<Rightarrow> Panics (PanicMsg ''interface conversion''))
           | _ \<Rightarrow> Returns tr (True, val))
      else case n of
        shortNode nk nv nf \<Rightarrow>
          (let matchlen = prefixLen key nk
           in if matchlen = length nk
              then andThen (insert_node G R tr nv (prf @ take matchlen key) (drop matchlen key) val)
                     (\<lambda>tr1 (dirty, nn).
                        Some (Returns tr1 (if \<not> dirty then (False, n) else (True, shortNode nk nn newFlag))))
              else if unat (nk ! matchlen) \<ge> 17 then Some (Panics IndexOutOfRange)
              else andThen (insert_node G R tr nilNode (prf @ take (matchlen + 1) nk) (drop (matchlen + 1) nk) nv)
                (\<lambda>tr1 (_, c1).
                   if matchlen \<ge> length key \<or> unat (key ! matchlen) \<ge> 17 then Some (Panics IndexOutOfRange)
                   else andThen (insert_node G R tr1 nilNode (prf @ take (matchlen + 1) key) (drop (matchlen + 1) key) val)
                     (\<lambda>tr2 (_, c2).
                        let branch = fullNode ((replicate 17 nilNode)[unat (nk ! matchlen) := c1, unat (key ! matchlen) := c2]) newFlag
                        in if matchlen = 0 then Some (Returns tr2 (True, branch))
                           else Some (Returns (onInsert tr2 (prf @ take matchlen key))
                                        (True, shortNode (take matchlen key) branch newFlag)))))
      | fullNode cs nf \<Rightarrow>
          (if unat (key ! 0) \<ge> length cs then Some (Panics IndexOutOfRange)
           else andThen (insert_node G R tr (cs ! unat (key ! 0)) (prf @ [key ! 0]) (drop 1 key) val)
             (\<lambda>tr1 (dirty, nn).
                Some (Returns tr1 (if \<not> dirty then (False, n) else (True, fullNode (cs[unat (key ! 0) := nn]) newFlag)))))
      | nilNode \<Rightarrow> Some (Returns (onInsert tr prf) (True, shortNode key val newFlag))
      | hashNode h \<Rightarrow>
          andThen (Some (resolveAndTrack G R tr h prf)) (\<lambda>tr1 rn.
            andThen (insert_node G R tr1 rn prf key val) (\<lambda>tr2 (dirty, nn).
              Some (Returns tr2 (if \<not> dirty then (False, rn) else (True, nn)))))
      | _ \<Rightarrow> Some (Panics invalidNode))"

section \<open>Deletion\<close>

text \<open>
  The loop that looks for the only remaining child: its index, \<open>-1\<close> when there is none, \<open>-2\<close> when
  there are two or more.
\<close>

fun onlyChild :: "node list \<Rightarrow> int \<Rightarrow> int \<Rightarrow> int" where
  "onlyChild [] i pos = pos"
| "onlyChild (cld # clds) i pos =
     (if cld \<noteq> nilNode then (if pos = -1 then onlyChild clds (i + 1) i else -2)
      else onlyChild clds (i + 1) pos)"

partial_function (option) delete_node ::
    "geth \<Rightarrow> trieReader \<Rightarrow> tracer \<Rightarrow> node \<Rightarrow> bytes \<Rightarrow> bytes \<Rightarrow> (bool \<times> node) out option" where
  "delete_node G R tr n prf key =
     (case n of
        shortNode nk nv nf \<Rightarrow>
          (let matchlen = prefixLen key nk
           in if matchlen < length nk then Some (Returns tr (False, n))
              else if matchlen = length key then Some (Returns (onDelete tr prf) (True, nilNode))
              else andThen (delete_node G R tr nv (prf @ take (length nk) key) (drop (length nk) key))
                (\<lambda>tr1 (dirty, child).
                   Some (if \<not> dirty then Returns tr1 (False, n)
                         else case child of
                           shortNode ck cv cf \<Rightarrow>
                             Returns (onDelete tr1 (prf @ nk)) (True, shortNode (concat_bytes nk ck) cv newFlag)
                         | _ \<Rightarrow> Returns tr1 (True, shortNode nk child newFlag))))
      | fullNode cs nf \<Rightarrow>
          (if length key = 0 \<or> unat (key ! 0) \<ge> length cs then Some (Panics IndexOutOfRange)
           else andThen (delete_node G R tr (cs ! unat (key ! 0)) (prf @ [key ! 0]) (drop 1 key))
             (\<lambda>tr1 (dirty, nn).
                if \<not> dirty then Some (Returns tr1 (False, n))
                else let cs' = cs[unat (key ! 0) := nn]
                     in if nn \<noteq> nilNode then Some (Returns tr1 (True, fullNode cs' newFlag))
                        else let pos = onlyChild cs' 0 (-1)
                             in if pos \<ge> 0
                                then let byte = word_of_int pos :: byte;
                                         c = cs' ! nat pos;
                                         one_nibble = shortNode [byte] c newFlag
                                     in if pos \<noteq> 16
                                        then andThen (Some (resolve G R tr1 c (prf @ [byte]))) (\<lambda>tr2 cnode.
                                               Some (case cnode of
                                                 shortNode ck cv cf \<Rightarrow>
                                                   Returns (onDelete tr2 (prf @ [byte])) (True, shortNode (byte # ck) cv newFlag)
                                               | _ \<Rightarrow> Returns tr2 (True, one_nibble)))
                                        else Some (Returns tr1 (True, one_nibble))
                                else Some (Returns tr1 (True, fullNode cs' newFlag))))
      | valueNode v \<Rightarrow> Some (Returns tr (True, nilNode))
      | nilNode \<Rightarrow> Some (Returns tr (False, nilNode))
      | hashNode h \<Rightarrow>
          andThen (Some (resolveAndTrack G R tr h prf)) (\<lambda>tr1 rn.
            andThen (delete_node G R tr1 rn prf key) (\<lambda>tr2 (dirty, nn).
              Some (Returns tr2 (if \<not> dirty then (False, rn) else (True, nn)))))
      | _ \<Rightarrow> Some (Panics invalidNode))"

section \<open>The trie\<close>

record Trie =
  root :: node
  owner :: hash
  unhashed :: int
  reader :: trieReader
  trc :: tracer

definition Trie_Copy :: "Trie \<Rightarrow> Trie" where
  "Trie_Copy t =
     \<lparr>root = root t, owner = owner t, unhashed = unhashed t, reader = reader t, trc = tracer_copy (trc t)\<rparr>"

definition New ::
    "geth \<Rightarrow> ID \<Rightarrow> (hash \<Rightarrow> u64 \<Rightarrow> nodeStore option) \<Rightarrow> u64 \<Rightarrow> panic + trieError + Trie" where
  "New G i db codec =
     (case newTrieReader (StateRoot i) (id_Owner i) db codec of
        Inl e \<Rightarrow> Inr (Inl e)
      | Inr rd \<Rightarrow>
          (let trie = \<lparr>root = nilNode, owner = id_Owner i, unhashed = 0, reader = rd, trc = newTracer\<rparr>
           in if id_Root i \<noteq> 0 \<and> id_Root i \<noteq> EmptyRootHash G
              then case resolveAndTrack G rd (trc trie) (hash_bytes (id_Root i)) [] of
                     Panics p \<Rightarrow> Inl p
                   | Fails _ e \<Rightarrow> Inr (Inl e)
                   | Returns tr rootnode \<Rightarrow> Inr (Inr (trie\<lparr>root := rootnode, trc := tr\<rparr>))
              else Inr (Inr trie)))"

text \<open>\<open>NewEmpty\<close> panics with the error of \<open>New\<close>. The codec numbers are those of the \<open>ipld\<close> package.\<close>

definition NewEmpty :: "geth \<Rightarrow> (hash \<Rightarrow> u64 \<Rightarrow> nodeStore option) \<Rightarrow> u64 \<Rightarrow> panic + Trie" where
  "NewEmpty G db StateTrieCodec =
     (case New G (TrieID 0) db StateTrieCodec of
        Inl p \<Rightarrow> Inl p
      | Inr (Inl err) \<Rightarrow> Inl (PanicMsg ''trie error'')
      | Inr (Inr tr) \<Rightarrow> Inr tr)"

text \<open>
  A method on the trie: \<open>None\<close> when it does not return, otherwise a panic, or what it returns
  (a value and an error) with the trie after it.
\<close>

type_synonym ('a, 't) methodOf = "(panic + ('a \<times> trieError option) \<times> 't) option"
type_synonym 'a trieMethod = "('a, Trie) methodOf"

definition TryGet :: "geth \<Rightarrow> Trie \<Rightarrow> bytes \<Rightarrow> bytes option trieMethod" where
  "TryGet G t key =
     map_option (\<lambda>r. case r of
         Panics p \<Rightarrow> Inl p
       | Fails tr e \<Rightarrow> Inr ((None, Some e), t\<lparr>trc := tr\<rparr>)
       | Returns tr (val, newroot, didResolve) \<Rightarrow>
           Inr ((val, None), if didResolve then t\<lparr>trc := tr, root := newroot\<rparr> else t\<lparr>trc := tr\<rparr>))
       (tryGet G (reader t) (trc t) (root t) (keybytesToHex key) 0)"

definition TryGetNode :: "geth \<Rightarrow> Trie \<Rightarrow> bytes \<Rightarrow> (bytes option \<times> int) trieMethod" where
  "TryGetNode G t path =
     map_option (\<lambda>r. case r of
         Panics p \<Rightarrow> Inl p
       | Fails tr e \<Rightarrow> Inr (((None, 0), Some e), t\<lparr>trc := tr\<rparr>)
       | Returns tr (item, newroot, resolved, err) \<Rightarrow>
           (case err of
              Some e \<Rightarrow> Inr (((None, resolved), Some e), t\<lparr>trc := tr\<rparr>)
            | None \<Rightarrow> Inr (((item, resolved), None),
                           if resolved > 0 then t\<lparr>trc := tr, root := newroot\<rparr> else t\<lparr>trc := tr\<rparr>)))
       (tryGetNode G (reader t) (trc t) (root t) (compactToHex path) 0)"

text \<open>The common end of \<open>tryUpdate\<close> and \<open>TryDelete\<close>: keep the new root unless there is an error.\<close>

definition setRoot :: "Trie \<Rightarrow> (bool \<times> node) out \<Rightarrow> panic + (unit \<times> trieError option) \<times> Trie" where
  "setRoot t r =
     (case r of
        Panics p \<Rightarrow> Inl p
      | Fails tr e \<Rightarrow> Inr (((), Some e), t\<lparr>trc := tr\<rparr>)
      | Returns tr (_, n) \<Rightarrow> Inr (((), None), t\<lparr>trc := tr, root := n\<rparr>))"

definition tryUpdate :: "geth \<Rightarrow> Trie \<Rightarrow> bytes \<Rightarrow> bytes \<Rightarrow> unit trieMethod" where
  "tryUpdate G t key val =
     (let t1 = t\<lparr>unhashed := unhashed t + 1\<rparr>;
          k = keybytesToHex key
      in map_option (setRoot t1)
           (if length val \<noteq> 0 then insert_node G (reader t1) (trc t1) (root t1) [] k (valueNode val)
            else delete_node G (reader t1) (trc t1) (root t1) [] k))"

definition TryUpdate :: "geth \<Rightarrow> Trie \<Rightarrow> bytes \<Rightarrow> bytes \<Rightarrow> unit trieMethod" where
  "TryUpdate G t key val = tryUpdate G t key val"

definition TryDelete :: "geth \<Rightarrow> Trie \<Rightarrow> bytes \<Rightarrow> unit trieMethod" where
  "TryDelete G t key =
     (let t1 = t\<lparr>unhashed := unhashed t + 1\<rparr>
      in map_option (setRoot t1) (delete_node G (reader t1) (trc t1) (root t1) [] (keybytesToHex key)))"

text \<open>\<open>Get\<close>, \<open>Update\<close> and \<open>Delete\<close> log an error and drop it.\<close>

definition dropErr :: "('a, 't) methodOf \<Rightarrow> (panic + 'a \<times> 't) option" where
  "dropErr m = map_option (map_sum id (\<lambda>((v, _), t). (v, t))) m"

definition Trie_Get :: "geth \<Rightarrow> Trie \<Rightarrow> bytes \<Rightarrow> (panic + bytes option \<times> Trie) option" where
  "Trie_Get G t key = dropErr (TryGet G t key)"

definition Trie_Update :: "geth \<Rightarrow> Trie \<Rightarrow> bytes \<Rightarrow> bytes \<Rightarrow> (panic + unit \<times> Trie) option" where
  "Trie_Update G t key val = dropErr (TryUpdate G t key val)"

definition Trie_Delete :: "geth \<Rightarrow> Trie \<Rightarrow> bytes \<Rightarrow> (panic + unit \<times> Trie) option" where
  "Trie_Delete G t key = dropErr (TryDelete G t key)"

definition Trie_Reset :: "Trie \<Rightarrow> Trie" where
  "Trie_Reset t = t\<lparr>root := nilNode, owner := 0, unhashed := 0, trc := tracer_reset (trc t)\<rparr>"

end
