(* ===== verification/TrieCorrect.thy ===== *)
theory TrieCorrect
  imports TrieOps
begin

text \<open>
  What a node means, and that lookup, insertion and deletion do to it what they should. \<open>tnode\<close>
  relates a node at a path to its kind and to the map from key suffixes to values it
  stands for, resolving hash nodes through the reader; it is also the
  well-formedness invariant of the trie (canonical shape: no empty or nested short nodes, full
  nodes with at least two children). The properties say that \<open>TryGet\<close>, \<open>TryUpdate\<close> and
  \<open>TryDelete\<close> return on every well-formed trie and are lookup, update and
  removal on the map.
\<close>

section \<open>Meaning of nodes\<close>

datatype kind = KNil | KVal | KShort | KFull

definition resolves :: "geth \<Rightarrow> trieReader \<Rightarrow> bytes \<Rightarrow> bytes \<Rightarrow> bytes \<Rightarrow> node \<Rightarrow> bool" where
  "resolves G R p h blob n \<longleftrightarrow>
     nodeBlob R p (BytesToHash G h) = Inr blob \<and> mustDecodeNode G (Some h) blob = Inr n"

definition prefixed :: "bytes \<Rightarrow> (bytes \<rightharpoonup> bytes) \<Rightarrow> (bytes \<rightharpoonup> bytes)" where
  "prefixed k m = (\<lambda>s. if prefix k s then m (drop (length k) s) else None)"

definition branching :: "(nat \<Rightarrow> bytes \<rightharpoonup> bytes) \<Rightarrow> (bytes \<rightharpoonup> bytes)" where
  "branching ms = (\<lambda>s. case s of [] \<Rightarrow> None | x # xs \<Rightarrow> if unat x < 17 then ms (unat x) xs else None)"

definition two_children :: "node list \<Rightarrow> bool" where
  "two_children cs \<longleftrightarrow> (\<exists>i<17. \<exists>j<17. i \<noteq> j \<and> cs ! i \<noteq> nilNode \<and> cs ! j \<noteq> nilNode)"

inductive tnode :: "geth \<Rightarrow> trieReader \<Rightarrow> bytes \<Rightarrow> node \<Rightarrow> kind \<Rightarrow> (bytes \<rightharpoonup> bytes) \<Rightarrow> bool"
  for G :: geth and R :: trieReader where
  t_nil: "tnode G R p nilNode KNil Map.empty"
| t_val: "v \<noteq> [] \<Longrightarrow> tnode G R p (valueNode v) KVal [[] \<mapsto> v]"
| t_short: "tnode G R (p @ k) c kd m \<Longrightarrow> kd = KVal \<and> hex_key k \<or> kd = KFull \<and> nibbles k \<and> k \<noteq> [] \<Longrightarrow>
    tnode G R p (shortNode k c f) KShort (prefixed k m)"
| t_full: "length cs = 17 \<Longrightarrow> (\<And>i. i < 17 \<Longrightarrow> tnode G R (p @ [word_of_nat i]) (cs ! i) (ks i) (ms i)) \<Longrightarrow>
    (\<And>i. i < 16 \<Longrightarrow> ks i \<noteq> KVal) \<Longrightarrow> ks 16 = KNil \<or> ks 16 = KVal \<Longrightarrow>
    two_children cs \<Longrightarrow>
    tnode G R p (fullNode cs f) KFull (branching ms)"
| t_hash: "resolves G R p h blob n \<Longrightarrow> tnode G R p n kd m \<Longrightarrow> kd = KShort \<or> kd = KFull \<Longrightarrow>
    (\<And>h'. n \<noteq> hashNode h') \<Longrightarrow> tnode G R p (hashNode h) kd m"

inductive_cases tnode_nilE: "tnode G R p nilNode kd m"
inductive_cases tnode_valE: "tnode G R p (valueNode v) kd m"
inductive_cases tnode_shortE: "tnode G R p (shortNode k c f) kd m"
inductive_cases tnode_fullE: "tnode G R p (fullNode cs f) kd m"
inductive_cases tnode_hashE: "tnode G R p (hashNode h) kd m"
inductive_cases tnode_KValE: "tnode G R p n KVal m"
inductive_cases tnode_KNilE: "tnode G R p n KNil m"

text \<open>The suffixes a node of a kind can be asked for.\<close>

fun suffix_ok :: "kind \<Rightarrow> bytes \<Rightarrow> bool" where
  "suffix_ok KNil s = True"
| "suffix_ok KVal s = (s = [])"
| "suffix_ok KShort s = hex_key s"
| "suffix_ok KFull s = hex_key s"

lemma hex_key_Cons: "hex_key (x # s) \<longleftrightarrow> (x < 16 \<and> hex_key s) \<or> (x = 16 \<and> s = [])"
  by (auto simp: hex_key_def Cons_eq_append_conv)

lemma hex_key_append: "nibbles k \<Longrightarrow> hex_key (k @ s) \<longleftrightarrow> hex_key s"
  by (induction k) (auto simp: hex_key_Cons)

lemma hex_key_not_Nil [simp]: "\<not> hex_key []"
  by (simp add: hex_key_def)

lemma hex_key_prefix: "hex_key k \<Longrightarrow> hex_key (k @ s) \<Longrightarrow> s = []"
  by (induction k) (auto simp: hex_key_Cons)

lemma byte_le16: "hex_key (x # s) \<Longrightarrow> unat x < 17"
  by (auto simp: hex_key_Cons word_less_nat_alt)

lemma word_of_unat [simp]: "word_of_nat (unat x) = (x :: byte)"
  by simp

lemma unat_inj [simp]: "unat x = unat y \<longleftrightarrow> x = (y :: byte)"
  by (metis word_of_unat)

lemma tnode_nil_iff: "tnode G R p n kd m \<Longrightarrow> n = nilNode \<longleftrightarrow> kd = KNil"
  by (cases rule: tnode.cases) auto

lemma suffix_ok_short:
  assumes "kd = KVal \<and> hex_key k \<or> kd = KFull \<and> nibbles k \<and> k \<noteq> []" "hex_key (k @ s)"
  shows "suffix_ok kd s"
  using assms by (auto simp: hex_key_append dest: hex_key_prefix)

lemma suffix_ok_full:
  assumes "hex_key (x # s)" "\<And>i. i < 16 \<Longrightarrow> ks i \<noteq> KVal" "ks 16 = KNil \<or> ks 16 = KVal"
  shows "suffix_ok (ks (unat x)) s"
proof (cases "x = 16")
  case True
  then show ?thesis using assms by (auto simp: hex_key_Cons)
next
  case False
  then have "hex_key s" "unat x < 16" using assms(1) by (auto simp: hex_key_Cons word_less_nat_alt)
  then show ?thesis using assms(2) [of "unat x"] by (cases "ks (unat x)") auto
qed

section \<open>Lookup\<close>

lemma prefix_take_drop: "prefix k s \<longleftrightarrow> length k \<le> length s \<and> k = take (length k) s"
  by (metis append_take_drop_id length_append le_add1 prefix_def append_eq_conv_conj)

lemma two_children_update:
  "two_children cs \<Longrightarrow> (cs ! i \<noteq> nilNode \<Longrightarrow> n \<noteq> nilNode) \<Longrightarrow> length cs = 17 \<Longrightarrow> two_children (cs[i := n])"
  unfolding two_children_def by (metis nth_list_update_eq nth_list_update_neq)

lemma tryGet_correct:
  assumes "tnode G R p n kd m" "suffix_ok kd s"
  shows "\<exists>tr' n' did. tryGet G R tr n (p @ s) (length p) = Some (Returns tr' (m s, n', did))
    \<and> (if did then tnode G R p n' kd m else n' = n)"
  using assms
proof (induction arbitrary: s tr rule: tnode.induct)
  case (t_nil p)
  then show ?case by (subst tryGet.simps) (simp, rule exI [of _ False], simp)
next
  case (t_val v p)
  then show ?case by (subst tryGet.simps) (simp, rule exI [of _ False], simp)
next
  case (t_short p k c kd m f)
  show ?case
  proof (cases "prefix k s")
    case False
    then show ?thesis by (subst tryGet.simps) (auto simp: prefix_take_drop prefixed_def)
  next
    case True
    then obtain s' where s: "s = k @ s'" by (auto simp: prefix_def)
    have "suffix_ok kd s'" using suffix_ok_short t_short s by simp
    then obtain tr' n' did where g: "tryGet G R tr c ((p @ k) @ s') (length (p @ k)) = Some (Returns tr' (m s', n', did))"
      "if did then tnode G R (p @ k) n' kd m else n' = c" using t_short.IH by blast
    then have "tnode G R p (shortNode k n' f) KShort (prefixed k m)" if did
      using that t_short.hyps by (intro tnode.t_short) auto
    then show ?thesis using g by (subst tryGet.simps) (auto simp: s prefixed_def)
  qed
next
  case (t_full cs p ks ms f)
  obtain x s' where s: "s = x # s'" "unat x < 17" using t_full.prems byte_le16 by (cases s) auto
  have ok: "suffix_ok (ks (unat x)) s'" using t_full.prems t_full.hyps s(1) by (intro suffix_ok_full) auto
  obtain tr' n' did where g: "tryGet G R tr (cs ! unat x) ((p @ [x]) @ s') (length (p @ [x])) = Some (Returns tr' (ms (unat x) s', n', did))"
    "if did then tnode G R (p @ [x]) n' (ks (unat x)) (ms (unat x)) else n' = cs ! unat x"
    using t_full.IH [OF s(2) ok] unfolding word_of_unat by blast
  have "tnode G R p (fullNode (cs[unat x := n']) f) KFull (branching ms)" if did
  proof (rule tnode.t_full)
    have "n' \<noteq> nilNode \<longleftrightarrow> cs ! unat x \<noteq> nilNode"
      using g(2) that tnode_nil_iff [OF t_full.hyps(2) [OF s(2)]] by (simp add: tnode_nil_iff)
    then show "two_children (cs[unat x := n'])"
      using t_full.hyps by (intro two_children_update) auto
    show "tnode G R (p @ [word_of_nat i]) (cs[unat x := n'] ! i) (ks i) (ms i)" if "i < 17" for i
      using that \<open>did\<close> g(2) t_full.hyps(1,2) by (cases "i = unat x") auto
  qed (use t_full.hyps in auto)
  then show ?case using g s t_full.hyps(1) by (subst tryGet.simps) (auto simp: nth_append branching_def)
next
  case (t_hash p h blob n kd m)
  have r: "resolveAndTrack G R tr h p = Returns (onRead tr p blob) n"
    using t_hash.hyps(1) by (simp add: resolveAndTrack_def resolves_def)
  obtain tr' n' did where "tryGet G R (onRead tr p blob) n (p @ s) (length p) = Some (Returns tr' (m s, n', did))"
    "if did then tnode G R p n' kd m else n' = n" using t_hash.IH [OF t_hash.prems] by blast
  then show ?case using r t_hash.hyps(2) by (subst tryGet.simps) (auto split: if_splits)
qed

section \<open>Maps of nodes\<close>

lemma prefixed_append [simp]: "prefixed j (prefixed k m) = prefixed (j @ k) m"
  by (auto simp: prefixed_def fun_eq_iff prefix_def add.commute)

lemma prefixed_Nil [simp]: "prefixed [] m = m"
  by (simp add: prefixed_def)

lemma prefixed_hit [simp]: "prefixed k m (k @ s) = m s" "prefixed k m k = m []"
  by (simp_all add: prefixed_def)

lemma prefixLen_self [simp]: "prefixLen k k = length k"
  by (simp add: prefixLen_full)

lemma prefixed_miss: "\<not> prefix k s \<Longrightarrow> prefixed k m s = None"
  by (simp add: prefixed_def)

lemma prefixed_upd: "prefixed k (m(s := o1)) = (prefixed k m)(k @ s := o1)"
  by (auto simp: prefixed_def fun_eq_iff prefix_def)

lemma prefixed_empty [simp]: "prefixed k Map.empty = Map.empty"
  by (auto simp: prefixed_def)

lemma branching_hit [simp]: "unat x < 17 \<Longrightarrow> branching ms (x # s) = ms (unat x) s"
  by (simp add: branching_def)

lemma branching_upd:
  "unat x < 17 \<Longrightarrow> branching (ms(unat x := (ms (unat x))(s := o1))) = (branching ms)(x # s := o1)"
  by (auto simp: branching_def fun_eq_iff split: list.splits)

lemma branching_single:
  assumes "unat x < 17" "\<And>i. i < 17 \<Longrightarrow> i \<noteq> unat x \<Longrightarrow> ms i = Map.empty"
  shows "branching ms = prefixed [x] (ms (unat x))"
proof
  fix t :: bytes
  show "branching ms t = prefixed [x] (ms (unat x)) t"
    using assms(1) assms(2) [of "unat (hd t)"] by (cases t) (auto simp: branching_def prefixed_def)
qed

lemma branching_two:
  assumes "x \<noteq> y" "unat x < 17" "unat y < 17"
  shows "branching (\<lambda>i. if i = unat x then m else if i = unat y then [s \<mapsto> v] else Map.empty)
    = (prefixed [x] m)(y # s \<mapsto> v)"
proof
  fix t :: bytes
  show "branching (\<lambda>i. if i = unat x then m else if i = unat y then [s \<mapsto> v] else Map.empty) t
    = ((prefixed [x] m)(y # s \<mapsto> v)) t"
    using assms by (cases t) (auto simp: branching_def prefixed_def)
qed

section \<open>Insertion\<close>

text \<open>How insertion at a suffix changes the kind of a node.\<close>

definition ins_kind :: "kind \<Rightarrow> bytes \<Rightarrow> kind \<Rightarrow> bool" where
  "ins_kind kd s kd' \<longleftrightarrow> kd' \<noteq> KNil \<and> (kd' = KVal \<longleftrightarrow> s = []) \<and> (kd = KFull \<longrightarrow> kd' = KFull)"

definition inserts_to :: "geth \<Rightarrow> trieReader \<Rightarrow> bytes \<Rightarrow> kind \<Rightarrow> (bytes \<rightharpoonup> bytes) \<Rightarrow> bytes \<Rightarrow> bytes
    \<Rightarrow> (bool \<times> node) out option \<Rightarrow> bool" where
  "inserts_to G R p kd m s v r \<longleftrightarrow> (\<exists>tr n kd'. r = Some (Returns tr (m s \<noteq> Some v, n))
     \<and> tnode G R p n kd' (m(s \<mapsto> v)) \<and> ins_kind kd s kd')"

lemma insert_nil: "insert_node G R tr nilNode p k val =
    Some (if k = [] then Returns tr (True, val) else Returns (onInsert tr p) (True, shortNode k val newFlag))"
  by (subst insert_node.simps) simp

lemma tnode_two:
  assumes "tnode G R (p @ [x]) a ka ma" "tnode G R (p @ [y]) b kb mb" "x \<noteq> y" "unat x < 17" "unat y < 17"
    "ka \<noteq> KNil" "kb \<noteq> KNil" "x < 16 \<longleftrightarrow> ka \<noteq> KVal" "y < 16 \<longleftrightarrow> kb \<noteq> KVal"
  shows "tnode G R p (fullNode ((replicate 17 nilNode)[unat x := a, unat y := b]) f) KFull
    (branching (\<lambda>i. if i = unat x then ma else if i = unat y then mb else Map.empty))"
proof -
  have neq: "unat x \<noteq> unat y" using assms(3) by simp
  have sm: "unat x < 16 \<longleftrightarrow> ka \<noteq> KVal" "unat y < 16 \<longleftrightarrow> kb \<noteq> KVal" using assms(8,9) by (simp_all add: word_less_nat_alt)
  have nn: "a \<noteq> nilNode" "b \<noteq> nilNode" using assms tnode_nil_iff by blast+
  show ?thesis
  proof (rule tnode.t_full [where ks = "\<lambda>i. if i = unat x then ka else if i = unat y then kb else KNil"])
    show "two_children ((replicate 17 nilNode)[unat x := a, unat y := b])"
      unfolding two_children_def using assms(4,5) neq nn by (intro exI [of _ "unat x"] conjI exI [of _ "unat y"]) auto
  qed (use assms(1-5) neq sm in \<open>auto simp: nth_list_update intro: tnode.t_nil\<close>)
qed

lemma tnode_rest:
  assumes "tnode G R (p @ k) c kd m" "kd = KVal \<and> hex_key (x # k) \<or> kd = KFull \<and> nibbles (x # k)"
  shows "\<exists>kd'. tnode G R p (if k = [] then c else shortNode k c newFlag) kd' (prefixed k m)
    \<and> kd' \<noteq> KNil \<and> (x < 16 \<longleftrightarrow> kd' \<noteq> KVal) \<and> unat x < 17"
proof (cases "k = []")
  case True
  then show ?thesis using assms by (auto simp: hex_key_Cons word_less_nat_alt intro!: exI [of _ kd])
next
  case False
  then have "kd = KVal \<and> hex_key k \<or> kd = KFull \<and> nibbles k \<and> k \<noteq> []" "x < 16"
    using assms(2) by (auto simp: hex_key_Cons)
  then show ?thesis using False assms(1) by (auto simp: word_less_nat_alt intro!: exI [of _ KShort] tnode.t_short)
qed


text \<open>The update of one child keeps a full node well formed.\<close>

lemma tnode_full_update:
  assumes "length cs = 17" "\<And>i. i < 17 \<Longrightarrow> tnode G R (p @ [word_of_nat i]) (cs ! i) (ks i) (ms i)"
    "\<And>i. i < 16 \<Longrightarrow> ks i \<noteq> KVal" "ks 16 = KNil \<or> ks 16 = KVal" "two_children (cs[unat x := n])"
    "tnode G R (p @ [x]) n kd m" "unat x < 17" "x < 16 \<Longrightarrow> kd \<noteq> KVal" "x = 16 \<Longrightarrow> kd = KNil \<or> kd = KVal"
  shows "tnode G R p (fullNode (cs[unat x := n]) f) KFull (branching (ms(unat x := m)))"
proof (rule tnode.t_full [where ks = "ks(unat x := kd)"])
  show "tnode G R (p @ [word_of_nat i]) (cs[unat x := n] ! i) ((ks(unat x := kd)) i) ((ms(unat x := m)) i)" if "i < 17" for i
    using that assms(1,2,6) by (cases "i = unat x") auto
  show "(ks(unat x := kd)) i \<noteq> KVal" if "i < 16" for i
    using that assms(3,8) by (auto simp: word_less_nat_alt)
  show "(ks(unat x := kd)) 16 = KNil \<or> (ks(unat x := kd)) 16 = KVal"
    using assms(4,9) unat_inj [of x 16] by (auto simp del: unat_inj)
qed (use assms(1,5) in auto)

text \<open>Splitting a short node whose key leaves the inserted key at a nibble.\<close>

lemma hex_split:
  assumes "hex_key s" "hex_key k \<or> nibbles k" "\<not> prefix k s"
  obtains c x y k' s' where "k = c @ x # k'" "s = c @ y # s'" "x \<noteq> y" "nibbles c" "prefixLen s k = length c"
proof -
  let ?i = "prefixLen s k"
  have "\<not> prefix s k"
  proof
    assume "prefix s k"
    then obtain t where t: "k = s @ t" by (auto simp: prefix_def)
    then have "\<not> nibbles k" using assms(1) by (auto simp: hex_key_def)
    then have "t = []" using assms t hex_key_prefix by blast
    then show False using t assms(3) by simp
  qed
  then have lt: "?i < length s" "?i < length k"
    using assms(3) prefixLen_le [of s k] prefixLen_take [of s k] prefixLen_full [of s k]
    by (metis le_neq_implies_less take_all_iff take_is_prefix order_refl)+
  have s: "s = take ?i s @ s ! ?i # drop (Suc ?i) s" and k: "k = take ?i k @ k ! ?i # drop (Suc ?i) k"
    using lt by (simp_all add: id_take_nth_drop)
  have "nibbles (take ?i s)"
    using assms(1) lt(1) by (auto simp: hex_key_def nibbles_def) (meson in_set_takeD)
  then show thesis using that [of "take ?i s" "k ! ?i" "drop (Suc ?i) k" "s ! ?i" "drop (Suc ?i) s"]
    s k prefixLen_take [of s k] prefixLen_differ [OF lt] lt by (metis length_take min.absorb4)
qed

lemma insert_short_split:
  assumes c: "tnode G R (p @ k) nv kd m" "kd = KVal \<and> hex_key k \<or> kd = KFull \<and> nibbles k \<and> k \<noteq> []"
    and s: "hex_key s" "\<not> prefix k s" "v \<noteq> []"
  shows "inserts_to G R p KShort (prefixed k m) s v (insert_node G R tr (shortNode k nv f) p s (valueNode v))"
proof -
  obtain c x y k' s' where sp: "k = c @ x # k'" "s = c @ y # s'" "x \<noteq> y" "nibbles c" "prefixLen s k = length c"
    using hex_split s(1,2) c(2) by metis
  have "kd = KVal \<and> hex_key (x # k') \<or> kd = KFull \<and> nibbles (x # k')"
    using c(2) sp by (auto simp: hex_key_append)
  moreover have "tnode G R ((p @ c @ [x]) @ k') nv kd m" using c(1) sp by simp
  ultimately obtain kx where kx: "tnode G R (p @ c @ [x]) (if k' = [] then nv else shortNode k' nv newFlag) kx (prefixed k' m)"
    "kx \<noteq> KNil" "x < 16 \<longleftrightarrow> kx \<noteq> KVal" "unat x < 17" using tnode_rest by blast
  have "hex_key (y # s')" using s(1) sp by (simp add: hex_key_append)
  then obtain ky where ky: "tnode G R (p @ c @ [y]) (if s' = [] then valueNode v else shortNode s' (valueNode v) newFlag) ky (prefixed s' [[] \<mapsto> v])"
    "ky \<noteq> KNil" "y < 16 \<longleftrightarrow> ky \<noteq> KVal" "unat y < 17"
    using tnode_rest [OF tnode.t_val [OF s(3)], where k = s' and x = y and p = "p @ c @ [y]"] by blast
  define br where "br = fullNode ((replicate 17 nilNode)[unat x := if k' = [] then nv else shortNode k' nv newFlag,
      unat y := if s' = [] then valueNode v else shortNode s' (valueNode v) newFlag]) newFlag"
  have pv: "prefixed s' [[] \<mapsto> v] = [s' \<mapsto> v]" using prefixed_upd [of s' Map.empty "[]"] by simp
  have "tnode G R (p @ c) br KFull (branching (\<lambda>i. if i = unat x then prefixed k' m else if i = unat y then [s' \<mapsto> v] else Map.empty))"
    using tnode_two [of G R "p @ c", OF _ _ sp(3) kx(4) ky(4) kx(2) ky(2) kx(3) ky(3)] kx(1) ky(1)
    unfolding br_def pv by simp
  then have br: "tnode G R (p @ c) br KFull ((prefixed (x # k') m)(y # s' \<mapsto> v))"
    unfolding branching_two [OF sp(3) kx(4) ky(4)] by simp
  have mp: "(prefixed k m)(s \<mapsto> v) = prefixed c ((prefixed (x # k') m)(y # s' \<mapsto> v))"
    unfolding prefixed_upd using sp by simp
  have ms: "prefixed k m s \<noteq> Some v" using s(2) by (simp add: prefixed_miss)
  have "\<exists>tr'. insert_node G R tr (shortNode k nv f) p s (valueNode v) =
      Some (Returns tr' (True, if c = [] then br else shortNode c br newFlag))"
    using sp kx(4) ky(4) by (subst insert_node.simps) (auto simp: insert_nil nth_append br_def Let_def)
  moreover have "\<exists>kd'. tnode G R p (if c = [] then br else shortNode c br newFlag) kd' ((prefixed k m)(s \<mapsto> v)) \<and> ins_kind KShort s kd'"
  proof (cases "c = []")
    case True
    then show ?thesis using br mp sp(2) by (intro exI [of _ KFull]) (simp add: ins_kind_def)
  next
    case False
    then show ?thesis using tnode.t_short [OF br, of newFlag] mp sp(2,4) by (intro exI [of _ KShort]) (simp add: ins_kind_def)
  qed
  ultimately show ?thesis using ms unfolding inserts_to_def by auto
qed

theorem insert_node_correct:
  assumes "tnode G R p n kd m" "suffix_ok kd s" "s = [] \<or> hex_key s" "v \<noteq> []"
  shows "inserts_to G R p kd m s v (insert_node G R tr n p s (valueNode v))"
  using assms(1-3)
proof (induction arbitrary: s tr rule: tnode.induct)
  case (t_nil p)
  have "tnode G R p (shortNode s (valueNode v) newFlag) KShort [s \<mapsto> v]" if "hex_key s"
    using tnode.t_short [OF tnode.t_val [OF assms(4)], where k = s] that prefixed_upd [of s Map.empty "[]"] by simp
  then show ?case using t_nil.prems(2) assms(4)
    by (auto simp: inserts_to_def insert_nil ins_kind_def intro: tnode.t_val)
next
  case (t_val w p)
  then show ?case
    by (subst insert_node.simps) (auto simp: inserts_to_def ins_kind_def assms(4) intro!: tnode.t_val exI [of _ KVal])
next
  case (t_short p k c kd m f)
  show ?case
  proof (cases "prefix k s")
    case False
    then show ?thesis using insert_short_split [OF t_short.hyps] t_short.prems assms(4) by auto
  next
    case True
    then obtain s' where s: "s = k @ s'" by (auto simp: prefix_def)
    have ok: "suffix_ok kd s'" "s' = [] \<or> hex_key s'" using suffix_ok_short [of kd k s'] t_short s by (auto split: kind.splits)
    then obtain tr' n' kd' where g: "insert_node G R tr c (p @ k) s' (valueNode v) = Some (Returns tr' (m s' \<noteq> Some v, n'))"
      "tnode G R (p @ k) n' kd' (m(s' \<mapsto> v))" "ins_kind kd s' kd'" using t_short.IH unfolding inserts_to_def by blast
    have kd': "kd' = kd" using g(3) t_short.hyps(2) ok by (auto simp: ins_kind_def)
    have "tnode G R p (shortNode k n' newFlag) KShort ((prefixed k m)(s \<mapsto> v))"
      using tnode.t_short [OF g(2)] t_short.hyps(2) kd' s by (simp add: prefixed_upd)
    moreover have "tnode G R p (shortNode k c f) KShort ((prefixed k m)(s \<mapsto> v))" if "m s' = Some v"
      using tnode.t_short [OF t_short.hyps] that s by (simp add: fun_upd_idem)
    moreover have "s \<noteq> []" using t_short.prems by auto
    ultimately show ?thesis using g(1) s
      by (subst insert_node.simps) (auto simp: inserts_to_def ins_kind_def intro!: exI [of _ KShort])
  qed
next
  case (t_full cs p ks ms f)
  obtain x s' where s: "s = x # s'" "unat x < 17" using t_full.prems byte_le16 by (cases s) auto
  have hk: "x < 16 \<and> hex_key s' \<or> x = 16 \<and> s' = []" using t_full.prems s(1) by (simp add: hex_key_Cons)
  have ok: "suffix_ok (ks (unat x)) s'" using t_full.prems t_full.hyps s(1) by (intro suffix_ok_full) auto
  then obtain tr' n' kd' where g: "insert_node G R tr (cs ! unat x) (p @ [x]) s' (valueNode v)
      = Some (Returns tr' (ms (unat x) s' \<noteq> Some v, n'))"
    "tnode G R (p @ [x]) n' kd' ((ms (unat x))(s' \<mapsto> v))" "ins_kind (ks (unat x)) s' kd'"
    using t_full.IH [OF s(2) ok] hk unfolding inserts_to_def word_of_unat by blast
  have "n' \<noteq> nilNode" using g(2,3) tnode_nil_iff by (auto simp: ins_kind_def)
  then have "tnode G R p (fullNode (cs[unat x := n']) newFlag) KFull ((branching ms)(s \<mapsto> v))"
    using tnode_full_update [OF t_full.hyps(1-4) _ g(2) s(2)] two_children_update [OF t_full.hyps(5)] t_full.hyps(1) g(3) hk s
    by (auto simp: branching_upd ins_kind_def)
  moreover have "tnode G R p (fullNode cs f) KFull ((branching ms)(s \<mapsto> v))" if "ms (unat x) s' = Some v"
    using tnode.t_full [OF t_full.hyps] that s by (simp add: fun_upd_idem)
  ultimately show ?case using g(1) s t_full.hyps(1)
    by (subst insert_node.simps) (auto simp: inserts_to_def ins_kind_def intro!: exI [of _ KFull])
next
  case (t_hash p h blob n kd m)
  have r: "resolveAndTrack G R tr h p = Returns (onRead tr p blob) n"
    using t_hash.hyps(1) by (simp add: resolveAndTrack_def resolves_def)
  have ne: "s \<noteq> []" using t_hash.prems t_hash.hyps(3) by auto
  obtain tr' n' kd' where "insert_node G R (onRead tr p blob) n p s (valueNode v) = Some (Returns tr' (m s \<noteq> Some v, n'))"
    "tnode G R p n' kd' (m(s \<mapsto> v))" "ins_kind kd s kd'"
    using t_hash.IH [OF t_hash.prems] unfolding inserts_to_def by blast
  then show ?case using r ne t_hash.hyps(2,3)
    by (subst insert_node.simps) (auto simp: inserts_to_def ins_kind_def fun_upd_idem)
qed

section \<open>Deletion\<close>

lemma onlyChild_found: "0 \<le> q \<Longrightarrow> onlyChild cs i q = (if \<forall>c \<in> set cs. c = nilNode then q else -2)"
  by (induction cs arbitrary: i) auto

text \<open>The search finds the only child exactly when there is one.\<close>

lemma onlyChild_cases:
  assumes "0 \<le> i"
  obtains (none) "onlyChild cs i (-1) = -1" "\<And>j. j < length cs \<Longrightarrow> cs ! j = nilNode"
  | (one) j where "j < length cs" "onlyChild cs i (-1) = i + int j" "cs ! j \<noteq> nilNode"
      "\<And>j'. j' < length cs \<Longrightarrow> j' \<noteq> j \<Longrightarrow> cs ! j' = nilNode"
  | (many) j j' where "onlyChild cs i (-1) = -2" "j < j'" "j' < length cs" "cs ! j \<noteq> nilNode" "cs ! j' \<noteq> nilNode"
  using assms
proof (induction cs arbitrary: i thesis)
  case (Cons c cs)
  show ?case
  proof (cases "c = nilNode")
    case True
    show ?thesis
    proof (rule Cons.IH [of "i + 1"])
      show "0 \<le> i + 1" using Cons.prems(4) by simp
    next
      assume "onlyChild cs (i + 1) (-1) = -1" "\<And>j. j < length cs \<Longrightarrow> cs ! j = nilNode"
      then show thesis using True by (intro Cons.prems(1)) (auto simp: nth_Cons split: nat.splits)
    next
      fix j assume "j < length cs" "onlyChild cs (i + 1) (-1) = i + 1 + int j" "cs ! j \<noteq> nilNode"
        "\<And>j'. j' < length cs \<Longrightarrow> j' \<noteq> j \<Longrightarrow> cs ! j' = nilNode"
      then show thesis using True by (intro Cons.prems(2) [of "Suc j"]) (auto simp: nth_Cons split: nat.splits)
    next
      fix j j' assume "onlyChild cs (i + 1) (-1) = -2" "j < j'" "j' < length cs" "cs ! j \<noteq> nilNode" "cs ! j' \<noteq> nilNode"
      then show thesis using True by (intro Cons.prems(3) [of "Suc j" "Suc j'"]) auto
    qed
  next
    case False
    show ?thesis
    proof (cases "\<forall>c \<in> set cs. c = nilNode")
      case True
      then show thesis using False Cons.prems(4)
        by (intro Cons.prems(2) [of 0]) (auto simp: onlyChild_found nth_Cons split: nat.splits)
    next
      case ex: False
      then obtain j where "j < length cs" "cs ! j \<noteq> nilNode" by (auto simp: in_set_conv_nth)
      then show thesis using False ex Cons.prems(4)
        by (intro Cons.prems(3) [of 0 "Suc j"]) (auto simp: onlyChild_found)
    qed
  qed
qed auto

text \<open>How deletion changes the kind; a node that changed is never a reference.\<close>

definition del_kind :: "kind \<Rightarrow> kind \<Rightarrow> bool" where
  "del_kind kd kd' \<longleftrightarrow> (case kd of KNil \<Rightarrow> kd' = KNil | KVal \<Rightarrow> kd' = KNil
     | KShort \<Rightarrow> kd' = KNil \<or> kd' = KShort | KFull \<Rightarrow> kd' = KShort \<or> kd' = KFull)"

definition deletes_to :: "geth \<Rightarrow> trieReader \<Rightarrow> bytes \<Rightarrow> kind \<Rightarrow> (bytes \<rightharpoonup> bytes) \<Rightarrow> bytes
    \<Rightarrow> (bool \<times> node) out option \<Rightarrow> bool" where
  "deletes_to G R p kd m s r \<longleftrightarrow> (\<exists>tr n kd'. r = Some (Returns tr (m s \<noteq> None, n))
     \<and> tnode G R p n kd' (m(s := None))
     \<and> (if m s = None then kd' = kd else del_kind kd kd' \<and> (\<forall>h. n \<noteq> hashNode h)))"

lemma tnode_KNil: "tnode G R p n KNil m \<Longrightarrow> m = Map.empty"
  by (auto elim: tnode_KNilE)

lemma tnode_KShort:
  assumes "tnode G R p n KShort m" "\<And>h. n \<noteq> hashNode h"
  obtains k c f kd m' where "n = shortNode k c f" "m = prefixed k m'" "tnode G R (p @ k) c kd m'"
    "kd = KVal \<and> hex_key k \<or> kd = KFull \<and> nibbles k \<and> k \<noteq> []"
  using assms by (cases rule: tnode.cases) auto

lemma tnode_KFull:
  assumes "tnode G R p n KFull m" "\<And>h. n \<noteq> hashNode h"
  obtains cs f where "n = fullNode cs f"
  using assms by (cases rule: tnode.cases) auto

text \<open>A short node pulled over a short child.\<close>

lemma tnode_merge:
  assumes "tnode G R (p @ k) c kd m" "kd = KVal \<and> hex_key k \<or> kd = KFull \<and> nibbles k \<and> k \<noteq> []" "nibbles j" "p = q @ j"
  shows "tnode G R q (shortNode (j @ k) c f) KShort (prefixed j (prefixed k m))"
  using tnode.t_short [of G R q "j @ k" c kd m f] assms by (auto simp: hex_key_append)

lemma resolve_tnode:
  assumes "tnode G R p n kd m"
  shows "\<exists>tr' n'. resolve G R tr n p = Returns tr' n' \<and> tnode G R p n' kd m \<and> (\<forall>h. n' \<noteq> hashNode h)"
  using assms by (cases n) (auto simp: resolve_def resolveAndTrack_def resolves_def elim: tnode_hashE)

text \<open>A full node with one remaining child becomes a short node.\<close>

lemma collapse_full:
  assumes "\<And>i. i < 17 \<Longrightarrow> tnode G R (p @ [word_of_nat i]) (cs ! i) (ks i) (ms i)"
    "\<And>i. i < 16 \<Longrightarrow> ks i \<noteq> KVal" "ks 16 = KNil \<or> ks 16 = KVal"
    "unat x < 17" "cs ! unat x \<noteq> nilNode" "\<And>i. i < 17 \<Longrightarrow> i \<noteq> unat x \<Longrightarrow> cs ! i = nilNode"
  shows "\<exists>tr' k c. (if unat x \<noteq> 16
     then andThen (Some (resolve G R tr (cs ! unat x) (p @ [x]))) (\<lambda>tr2 cnode.
       Some (case cnode of
         shortNode ck cv cf \<Rightarrow> Returns (onDelete tr2 (p @ [x])) (True, shortNode (x # ck) cv newFlag)
       | _ \<Rightarrow> Returns tr2 (True, shortNode [x] (cs ! unat x) newFlag)))
     else Some (Returns tr (True, shortNode [x] (cs ! unat x) newFlag))) = Some (Returns tr' (True, shortNode k c newFlag))
     \<and> tnode G R p (shortNode k c newFlag) KShort (branching ms)"
proof -
  have c: "tnode G R (p @ [x]) (cs ! unat x) (ks (unat x)) (ms (unat x))" using assms(1) [OF assms(4)] by simp
  have nn: "ks (unat x) \<noteq> KNil" using tnode_nil_iff [OF c] assms(5) by simp
  have "ms i = Map.empty" if "i < 17" "i \<noteq> unat x" for i
    using assms(1) [OF that(1)] assms(6) [OF that] tnode_nil_iff tnode_KNil by fastforce
  then have m: "branching ms = prefixed [x] (ms (unat x))" by (intro branching_single assms(4)) auto
  show ?thesis
  proof (cases "unat x = 16")
    case True
    then have x: "x = 16" using unat_inj [of x 16] by (simp del: unat_inj)
    have "ks (unat x) = KVal" using True assms(3) nn by simp
    then have "tnode G R p (shortNode [x] (cs ! unat x) newFlag) KShort (branching ms)"
      using tnode.t_short [OF c, of newFlag] unfolding m by (simp add: x hex_key_Cons)
    then show ?thesis using True by simp
  next
    case False
    then have lt: "unat x < 16" using assms(4) by simp
    then have x: "x < 16" by (simp add: word_less_nat_alt)
    have kd: "ks (unat x) = KShort \<or> ks (unat x) = KFull" using assms(2) [OF lt] nn by (cases "ks (unat x)") auto
    obtain tr2 n where r: "resolve G R tr (cs ! unat x) (p @ [x]) = Returns tr2 n"
      "tnode G R (p @ [x]) n (ks (unat x)) (ms (unat x))" "\<And>h. n \<noteq> hashNode h" using resolve_tnode [OF c] by blast
    show ?thesis
    proof (cases "ks (unat x) = KShort")
      case True
      then obtain k c2 f kd2 m2 where n: "n = shortNode k c2 f" "ms (unat x) = prefixed k m2"
        "tnode G R ((p @ [x]) @ k) c2 kd2 m2" "kd2 = KVal \<and> hex_key k \<or> kd2 = KFull \<and> nibbles k \<and> k \<noteq> []"
        using tnode_KShort r by metis
      have "tnode G R p (shortNode (x # k) c2 newFlag) KShort (branching ms)"
        using tnode_merge [OF n(3,4), of "[x]" p newFlag] x unfolding m n(2) by simp
      then show ?thesis using False r(1) n(1) by simp
    next
      case full: False
      then obtain cs2 f where n: "n = fullNode cs2 f" using tnode_KFull r kd by metis
      have "tnode G R p (shortNode [x] (cs ! unat x) newFlag) KShort (branching ms)"
        using tnode.t_short [OF c, of newFlag] full kd x unfolding m by simp
      then show ?thesis using False r(1) n by simp
    qed
  qed
qed

lemma two_children_onlyChild:
  assumes "length cs = 17" "two_children cs" "onlyChild (cs[i := nilNode]) 0 (-1) = r" "r < 0" "i < 17"
  shows "two_children (cs[i := nilNode])"
proof (rule onlyChild_cases [of 0 "cs[i := nilNode]"])
  assume "\<And>j. j < length (cs[i := nilNode]) \<Longrightarrow> cs[i := nilNode] ! j = nilNode"
  then have "cs ! j = nilNode" if "j < 17" "j \<noteq> i" for j using that assms(1) by (metis length_list_update nth_list_update_neq)
  then show ?thesis using assms(2) unfolding two_children_def by metis
next
  fix j j' assume "j < j'" "j' < length (cs[i := nilNode])" "cs[i := nilNode] ! j \<noteq> nilNode" "cs[i := nilNode] ! j' \<noteq> nilNode"
  then show ?thesis unfolding two_children_def using assms(1) by (intro exI [of _ j] conjI exI [of _ j']) auto
qed (use assms in auto)

text \<open>What deletion in a full node does once the child is gone.\<close>

lemma delete_full_nil:
  assumes cs: "length cs = 17" "\<And>i. i < 17 \<Longrightarrow> tnode G R (p @ [word_of_nat i]) (cs ! i) (ks i) (ms i)"
    "\<And>i. i < 16 \<Longrightarrow> ks i \<noteq> KVal" "ks 16 = KNil \<or> ks 16 = KVal" "two_children cs"
    and x: "unat x < 17" "delete_node G R tr (cs ! unat x) (p @ [x]) s = Some (Returns tr1 (True, nilNode))"
  shows "\<exists>tr' n kd. delete_node G R tr (fullNode cs f) p (x # s) = Some (Returns tr' (True, n))
    \<and> tnode G R p n kd (branching (ms(unat x := Map.empty))) \<and> (kd = KShort \<or> kd = KFull) \<and> (\<forall>h. n \<noteq> hashNode h)"
proof -
  let ?cs = "cs[unat x := nilNode]" and ?ks = "ks(unat x := KNil)" and ?ms = "ms(unat x := Map.empty)"
  let ?r = "onlyChild ?cs 0 (-1)"
  have cs': "\<And>i. i < 17 \<Longrightarrow> tnode G R (p @ [word_of_nat i]) (?cs ! i) (?ks i) (?ms i)"
    "\<And>i. i < 16 \<Longrightarrow> ?ks i \<noteq> KVal" "?ks 16 = KNil \<or> ?ks 16 = KVal"
    using cs(1-4) by (auto simp: nth_list_update intro: tnode.t_nil)
  show ?thesis
  proof (cases "?r < 0")
    case True
    then have "tnode G R p (fullNode ?cs newFlag) KFull (branching ?ms)"
      using two_children_onlyChild [OF cs(1,5) refl _ x(1)] cs' cs(1) by (intro tnode.t_full [where ks = ?ks]) auto
    then show ?thesis using x True cs(1) by (subst delete_node.simps) (auto simp: Let_def)
  next
    case False
    then obtain j where j: "j < 17" "?r = int j" "?cs ! j \<noteq> nilNode" "\<And>j'. j' < 17 \<Longrightarrow> j' \<noteq> j \<Longrightarrow> ?cs ! j' = nilNode"
      using cs(1) by - (rule onlyChild_cases [of 0 ?cs], auto)
    define y :: byte where "y = word_of_nat j"
    have y: "unat y = j" "word_of_int (int j) = y" using j(1) by (simp_all add: y_def unsigned_of_nat take_bit_nat_eq_self)
    have jy: "unat y < 17" "?cs ! unat y \<noteq> nilNode" "\<And>i. i < 17 \<Longrightarrow> i \<noteq> unat y \<Longrightarrow> ?cs ! i = nilNode"
      using j y(1) by auto
    obtain tr' k c where "(if unat y \<noteq> 16
     then andThen (Some (resolve G R tr1 (?cs ! unat y) (p @ [y]))) (\<lambda>tr2 cnode.
       Some (case cnode of
         shortNode ck cv cf \<Rightarrow> Returns (onDelete tr2 (p @ [y])) (True, shortNode (y # ck) cv newFlag)
       | _ \<Rightarrow> Returns tr2 (True, shortNode [y] (?cs ! unat y) newFlag)))
     else Some (Returns tr1 (True, shortNode [y] (?cs ! unat y) newFlag))) = Some (Returns tr' (True, shortNode k c newFlag))"
     "tnode G R p (shortNode k c newFlag) KShort (branching ?ms)"
      using collapse_full [OF cs' jy, of tr1] by blast
    then show ?thesis using x j(2) y cs(1)
      by (subst delete_node.simps) (auto simp: Let_def cong: if_cong node.case_cong)
  qed
qed

text \<open>A deletion below a short node whose child is a full node.\<close>

lemma delete_short_found:
  assumes g: "delete_node G R tr c (p @ k) s = Some (Returns tr' (True, n))" "tnode G R (p @ k) n kd m"
      "kd = KShort \<or> kd = KFull" "\<And>h. n \<noteq> hashNode h"
    and k: "nibbles k" "k \<noteq> []" "s \<noteq> []"
  shows "\<exists>tr2 n2. delete_node G R tr (shortNode k c f) p (k @ s) = Some (Returns tr2 (True, n2))
    \<and> tnode G R p n2 KShort (prefixed k m) \<and> (\<forall>h. n2 \<noteq> hashNode h)"
proof (cases "kd = KShort")
  case True
  then obtain k2 c2 f2 kd2 m2 where n: "n = shortNode k2 c2 f2" "m = prefixed k2 m2"
    "tnode G R ((p @ k) @ k2) c2 kd2 m2" "kd2 = KVal \<and> hex_key k2 \<or> kd2 = KFull \<and> nibbles k2 \<and> k2 \<noteq> []"
    using tnode_KShort g(2,4) by metis
  then have "tnode G R p (shortNode (k @ k2) c2 newFlag) KShort (prefixed k m)"
    using tnode_merge [OF n(3,4) k(1) refl] by simp
  then show ?thesis using g(1) k(3) n(1) by (subst delete_node.simps) (auto simp: concat_bytes_def)
next
  case False
  then obtain cs f2 where n: "n = fullNode cs f2" using tnode_KFull g(2-4) by metis
  have "tnode G R p (shortNode k n newFlag) KShort (prefixed k m)"
    using g(2,3) False k by (intro tnode.t_short) auto
  then show ?thesis using g(1) k(3) n by (subst delete_node.simps) auto
qed

lemma deletes_to_none:
  "m s = None \<Longrightarrow> tnode G R p n kd m \<Longrightarrow> deletes_to G R p kd m s (Some (Returns tr (False, n)))"
  by (auto simp: deletes_to_def fun_upd_idem)

lemma delete_short:
  assumes c: "tnode G R (p @ k) c kd m" "kd = KVal \<and> hex_key k \<or> kd = KFull \<and> nibbles k \<and> k \<noteq> []"
    and IH: "\<And>s. suffix_ok kd s \<Longrightarrow> deletes_to G R (p @ k) kd m s (delete_node G R tr c (p @ k) s)"
    and s: "hex_key s"
  shows "deletes_to G R p KShort (prefixed k m) s (delete_node G R tr (shortNode k c f) p s)"
proof -
  have self: "tnode G R p (shortNode k c f) KShort (prefixed k m)" by (rule tnode.t_short [OF c])
  consider (miss) "\<not> prefix k s" | (leaf) "kd = KVal" "s = k" | (deep) s' where "kd = KFull" "s = k @ s'" "hex_key s'"
    using c(2) s by (cases "prefix k s") (auto simp: hex_key_append elim!: prefixE dest: hex_key_prefix)
  then show ?thesis
  proof cases
    case miss
    then have "prefixLen s k < length k" using prefixLen_full [of s k] prefixLen_le(2) [of s k] by linarith
    then show ?thesis using deletes_to_none [OF prefixed_miss [OF miss] self]
      by (subst delete_node.simps) simp
  next
    case leaf
    then obtain w where "m = [[] \<mapsto> w]" using c(1) by (auto elim: tnode_KValE)
    then have "(prefixed k m)(s := None) = Map.empty" "prefixed k m s \<noteq> None"
      using leaf prefixed_upd [of k m "[]" None] by auto
    then show ?thesis using leaf
      by (subst delete_node.simps) (auto simp: deletes_to_def del_kind_def intro: tnode.t_nil exI [of _ KNil])
  next
    case deep
    then have ne: "s' \<noteq> []" by auto
    obtain tr' n' kd' where g: "delete_node G R tr c (p @ k) s' = Some (Returns tr' (m s' \<noteq> None, n'))"
      "tnode G R (p @ k) n' kd' (m(s' := None))"
      "if m s' = None then kd' = kd else del_kind kd kd' \<and> (\<forall>h. n' \<noteq> hashNode h)"
      using IH [of s'] deep unfolding deletes_to_def by auto
    show ?thesis
    proof (cases "m s' = None")
      case True
      then have "prefixed k m s = None" using deep by simp
      from deletes_to_none [OF this self] show ?thesis using g(1) deep ne True
        by (subst delete_node.simps) auto
    next
      case False
      then have "\<exists>tr2 n2. delete_node G R tr (shortNode k c f) p s = Some (Returns tr2 (True, n2))
          \<and> tnode G R p n2 KShort (prefixed k (m(s' := None))) \<and> (\<forall>h. n2 \<noteq> hashNode h)"
        using delete_short_found [of G R tr c p k s' tr' n' kd'] g deep ne c(2) by (auto simp: del_kind_def)
      then show ?thesis using False deep by (auto simp: deletes_to_def prefixed_upd del_kind_def)
    qed
  qed
qed

lemma delete_full:
  assumes cs: "length cs = 17" "\<And>i. i < 17 \<Longrightarrow> tnode G R (p @ [word_of_nat i]) (cs ! i) (ks i) (ms i)"
    "\<And>i. i < 16 \<Longrightarrow> ks i \<noteq> KVal" "ks 16 = KNil \<or> ks 16 = KVal" "two_children cs"
    and IH: "deletes_to G R (p @ [x]) (ks (unat x)) (ms (unat x)) s (delete_node G R tr (cs ! unat x) (p @ [x]) s)"
    and x: "unat x < 17"
  shows "deletes_to G R p KFull (branching ms) (x # s) (delete_node G R tr (fullNode cs f) p (x # s))"
proof -
  have self: "tnode G R p (fullNode cs f) KFull (branching ms)" by (rule tnode.t_full [OF cs])
  obtain tr' n' kd' where g: "delete_node G R tr (cs ! unat x) (p @ [x]) s = Some (Returns tr' (ms (unat x) s \<noteq> None, n'))"
    "tnode G R (p @ [x]) n' kd' ((ms (unat x))(s := None))"
    "if ms (unat x) s = None then kd' = ks (unat x) else del_kind (ks (unat x)) kd' \<and> (\<forall>h. n' \<noteq> hashNode h)"
    using IH unfolding deletes_to_def by blast
  show ?thesis
  proof (cases "ms (unat x) s = None")
    case True
    then show ?thesis using g(1) x cs(1) deletes_to_none [OF _ self, of "x # s"] by (subst delete_node.simps) auto
  next
    case found: False
    have up: "branching (ms(unat x := (ms (unat x))(s := None))) = (branching ms)(x # s := None)" "branching ms (x # s) \<noteq> None"
      using x found by (simp_all add: branching_upd)
    show ?thesis
    proof (cases "n' = nilNode")
      case True
      then have "(ms (unat x))(s := None) = Map.empty" using g(2) tnode_nil_iff tnode_KNil by metis
      then show ?thesis using delete_full_nil [OF cs x, of tr s tr' f] g(1) found True up
        by (auto simp: deletes_to_def del_kind_def)
    next
      case False
      then have "kd' \<noteq> KNil" using tnode_nil_iff [OF g(2)] by simp
      then have kd': "kd' \<noteq> KVal" "x \<noteq> 16" using g(3) found cs(4) by (auto simp: del_kind_def split: kind.splits)
      have "tnode G R p (fullNode (cs[unat x := n']) newFlag) KFull ((branching ms)(x # s := None))"
        using tnode_full_update [OF cs(1-4) two_children_update [OF cs(5) False cs(1)] g(2) x] kd' up by simp
      then show ?thesis using g(1) x cs(1) found False
        by (subst delete_node.simps) (auto simp: deletes_to_def del_kind_def Let_def)
    qed
  qed
qed

theorem delete_node_correct:
  assumes "tnode G R p n kd m" "suffix_ok kd s"
  shows "deletes_to G R p kd m s (delete_node G R tr n p s)"
  using assms
proof (induction arbitrary: s tr rule: tnode.induct)
  case (t_nil p)
  then show ?case by (subst delete_node.simps) (auto simp: deletes_to_def intro: tnode.t_nil)
next
  case (t_val w p)
  then show ?case by (subst delete_node.simps) (auto simp: deletes_to_def del_kind_def intro: tnode.t_nil)
next
  case (t_short p k c kd m f)
  then show ?case by (intro delete_short) auto
next
  case (t_full cs p ks ms f)
  obtain x s' where s: "s = x # s'" "unat x < 17" using t_full.prems byte_le16 by (cases s) auto
  have ok: "suffix_ok (ks (unat x)) s'" using t_full.prems t_full.hyps s(1) by (intro suffix_ok_full) auto
  have "deletes_to G R (p @ [x]) (ks (unat x)) (ms (unat x)) s' (delete_node G R tr (cs ! unat x) (p @ [x]) s')"
    using t_full.IH [OF s(2) ok] unfolding word_of_unat by blast
  from delete_full [OF t_full.hyps this s(2)] show ?case by (simp add: s(1))
next
  case (t_hash p h blob n kd m)
  have r: "resolveAndTrack G R tr h p = Returns (onRead tr p blob) n"
    using t_hash.hyps(1) by (simp add: resolveAndTrack_def resolves_def)
  obtain tr' n' kd' where "delete_node G R (onRead tr p blob) n p s = Some (Returns tr' (m s \<noteq> None, n'))"
    "tnode G R p n' kd' (m(s := None))" "if m s = None then kd' = kd else del_kind kd kd' \<and> (\<forall>h. n' \<noteq> hashNode h)"
    using t_hash.IH [OF t_hash.prems] unfolding deletes_to_def by blast
  then show ?case using r t_hash.hyps(2)
    by (subst delete_node.simps) (auto simp: deletes_to_def fun_upd_idem split: if_splits)
qed

end
