(* ===== verification/TrieCanonical.thy ===== *)
theory TrieCanonical
  imports TrieCorrect
begin

text \<open>
  The shape of a loaded trie is determined by its content: two well-formed nodes without
  references that stand for the same map are equal up to their cache flags. In particular a trie is
  empty exactly when its root is nil, and the order of the updates that built it
  leaves no trace.
\<close>

section \<open>Nodes without references and flags\<close>

fun loaded :: "node \<Rightarrow> bool" where
  "loaded (hashNode h) = False"
| "loaded (shortNode k v f) = loaded v"
| "loaded (fullNode cs f) = (\<forall>c \<in> set cs. loaded c)"
| "loaded n = True"

fun strip :: "node \<Rightarrow> node" where
  "strip (shortNode k v f) = shortNode k (strip v) newFlag"
| "strip (fullNode cs f) = fullNode (map strip cs) newFlag"
| "strip n = n"

section \<open>What the maps of nodes look like\<close>

lemma word_of_nat_17 [simp]: "i < 17 \<Longrightarrow> unat (word_of_nat i :: byte) = i"
  by (simp add: unsigned_of_nat take_bit_nat_eq_self)

lemma branching_at: "i < 17 \<Longrightarrow> branching ms (word_of_nat i # s) = ms i s"
  by simp

lemma prefixed_inject: "prefixed k m = prefixed k m' \<longleftrightarrow> m = m'"
  by (metis prefixed_hit(1) ext)

lemma tnode_nonempty: "tnode G R p n kd m \<Longrightarrow> kd \<noteq> KNil \<Longrightarrow> m \<noteq> Map.empty"
proof (induction rule: tnode.induct)
  case (t_short p k c kd m f)
  then show ?case using prefixed_inject [of k m Map.empty] by (auto simp del: prefixed_empty simp: prefixed_empty [symmetric])
next
  case (t_full cs p ks ms f)
  then obtain i where i: "i < 17" "cs ! i \<noteq> nilNode" by (auto simp: two_children_def)
  then have "ms i \<noteq> Map.empty" using t_full.IH t_full.hyps(2) tnode_nil_iff by blast
  then show ?case using branching_at [OF i(1), of ms] by (metis ext)
qed auto

lemma tnode_empty_iff: "tnode G R p n kd m \<Longrightarrow> m = Map.empty \<longleftrightarrow> n = nilNode"
  using tnode_nonempty tnode_KNil tnode_nil_iff by metis

lemma tnode_two_keys:
  assumes "tnode G R p (fullNode cs f) kd m"
  obtains x y s t where "x \<noteq> y" "m (x # s) \<noteq> None" "m (y # t) \<noteq> None"
proof -
  obtain ks ms where m: "m = branching ms" and cs: "two_children cs"
    "\<And>i. i < 17 \<Longrightarrow> tnode G R (p @ [word_of_nat i]) (cs ! i) (ks i) (ms i)"
    using assms by (cases rule: tnode.cases) auto
  then obtain i j where ij: "i < 17" "j < 17" "i \<noteq> j" "ms i \<noteq> Map.empty" "ms j \<noteq> Map.empty"
    unfolding two_children_def using tnode_empty_iff by metis
  then obtain s t where "ms i s \<noteq> None" "ms j t \<noteq> None" by (meson ext)
  moreover have "(word_of_nat i :: byte) \<noteq> word_of_nat j" using ij(1-3) word_of_nat_17 by metis
  ultimately show thesis using that ij(1,2) unfolding m by (metis branching_at)
qed

lemma tnode_short_key: "tnode G R p (shortNode k c f) kd m \<Longrightarrow> k \<noteq> []"
  by (auto elim!: tnode_shortE)

lemma tnode_short_heads: "tnode G R p (shortNode k c f) kd m \<Longrightarrow> m s \<noteq> None \<Longrightarrow> prefix k s"
  by (auto elim!: tnode_shortE simp: prefixed_def split: if_splits)

lemma short_not_full:
  assumes "tnode G R p (shortNode k c f) kd m" shows "\<not> tnode G R p (fullNode cs f') kd' m"
proof
  assume "tnode G R p (fullNode cs f') kd' m"
  then obtain x y s t where "x \<noteq> y" "m (x # s) \<noteq> None" "m (y # t) \<noteq> None" by (rule tnode_two_keys)
  then have "prefix k (x # s)" "prefix k (y # t)" using tnode_short_heads [OF assms] by blast+
  then show False using tnode_short_key [OF assms] \<open>x \<noteq> y\<close> by (cases k) auto
qed

text \<open>The key of a short node over a full node is a prefix of every common prefix of the keys.\<close>

lemma short_full_key:
  assumes "tnode G R q (fullNode cs f) kd m" "\<And>s. prefixed k m s \<noteq> None \<Longrightarrow> prefix j s"
  shows "prefix j k"
proof -
  obtain x y s t where xy: "x \<noteq> y" "m (x # s) \<noteq> None" "m (y # t) \<noteq> None" using tnode_two_keys [OF assms(1)] .
  then have "prefix j (k @ x # s)" "prefix j (k @ y # t)" by (auto intro: assms(2))
  with xy(1) show ?thesis by (auto simp: prefix_append prefix_Cons)
qed

lemma loaded_KFull:
  assumes "tnode G R p c KFull m" "loaded c" obtains cs f where "c = fullNode cs f"
  using assms tnode_KFull by (metis loaded.simps(1))

lemma loaded_value:
  assumes "tnode G R p n kd m" "m [] = Some v" "loaded n" shows "n = valueNode v"
  using assms by (cases rule: tnode.cases) (auto simp: prefixed_def branching_def split: if_splits)

section \<open>Equal maps, equal shapes\<close>

lemma shape_short:
  assumes c: "tnode G R (p @ k) c kd m" "kd = KVal \<and> hex_key k \<or> kd = KFull \<and> nibbles k \<and> k \<noteq> []" "loaded c"
    and d: "tnode G R (p @ k') d kd' m'" "kd' = KVal \<and> hex_key k' \<or> kd' = KFull \<and> nibbles k' \<and> k' \<noteq> []" "loaded d"
    and eq: "prefixed k m = prefixed k' m'"
  shows "k = k' \<and> m = m'"
proof -
  have pre: "prefix k s \<and> prefix k' s" if "prefixed k m s \<noteq> None" for s
    using that that [unfolded eq] by (auto simp: prefixed_def split: if_splits)
  have full: "prefix j k" if "kd = KFull" "\<And>s. prefixed k m s \<noteq> None \<Longrightarrow> prefix j s" for j
    using loaded_KFull c(1,3) that short_full_key by metis
  have full': "prefix j k'" if "kd' = KFull" "\<And>s. prefixed k' m' s \<noteq> None \<Longrightarrow> prefix j s" for j
    using loaded_KFull d(1,3) that short_full_key by metis
  have leaf: "prefixed k m k \<noteq> None" if "kd = KVal" using c(1) that by (auto elim: tnode_KValE)
  have leaf': "prefixed k' m' k' \<noteq> None" if "kd' = KVal" using d(1) that by (auto elim: tnode_KValE)
  have "prefix k' k" using c(2) full leaf pre by blast
  moreover have "prefix k k'" using d(2) full' leaf' pre eq by metis
  ultimately have "k = k'" by (rule prefix_order.antisym [rotated])
  then show ?thesis using eq prefixed_inject by blast
qed

theorem shape_unique:
  assumes "tnode G R p n kd m" "loaded n" "tnode G R p n' kd' m" "loaded n'"
  shows "strip n = strip n'"
  using assms
proof (induction arbitrary: n' kd' rule: tnode.induct)
  case (t_nil p)
  then show ?case using tnode_empty_iff by metis
next
  case (t_val v p)
  have "n' = valueNode v" by (rule loaded_value [OF t_val.prems(2) _ t_val.prems(3)]) simp
  then show ?case by simp
next
  case (t_short p k c kd m f)
  have self: "tnode G R p (shortNode k c f) KShort (prefixed k m)" by (rule tnode.t_short [OF t_short.hyps])
  have no1: "n' \<noteq> nilNode" using tnode_empty_iff t_short.prems(2) tnode_nonempty [OF self] by blast
  have no2: "n' \<noteq> valueNode v" for v
    using t_short.prems(2) tnode_short_heads [OF self, of "[]"] tnode_short_key [OF self] by (auto elim!: tnode_valE)
  have no3: "n' \<noteq> fullNode cs f'" for cs f' using short_not_full [OF self] t_short.prems(2) by blast
  obtain k' c' f' kd2 m' where n': "n' = shortNode k' c' f'" "tnode G R (p @ k') c' kd2 m'"
    "kd2 = KVal \<and> hex_key k' \<or> kd2 = KFull \<and> nibbles k' \<and> k' \<noteq> []" "prefixed k m = prefixed k' m'"
    using t_short.prems(2,3) no1 no2 no3 by (cases rule: tnode.cases) auto
  then have "k = k'" "m = m'" using shape_short [OF t_short.hyps _ n'(2,3)] t_short.prems by auto
  then show ?case using t_short.IH t_short.prems n' by simp
next
  case (t_full cs p ks ms f)
  have self: "tnode G R p (fullNode cs f) KFull (branching ms)" by (rule tnode.t_full [OF t_full.hyps])
  have no1: "n' \<noteq> nilNode" using tnode_empty_iff t_full.prems(2) tnode_nonempty [OF self] by blast
  have no2: "n' \<noteq> valueNode v" for v using t_full.prems(2) by (auto elim!: tnode_valE simp: branching_def dest!: fun_cong [where x = "[]"])
  have no3: "n' \<noteq> shortNode k c f'" for k c f' using short_not_full self t_full.prems(2) by blast
  obtain cs' f' ks' ms' where n': "n' = fullNode cs' f'" "length cs' = 17" "branching ms = branching ms'"
    "\<And>i. i < 17 \<Longrightarrow> tnode G R (p @ [word_of_nat i]) (cs' ! i) (ks' i) (ms' i)"
    using t_full.prems(2,3) no1 no2 no3 by (cases rule: tnode.cases) auto
  have "ms i = ms' i" if "i < 17" for i using branching_at [OF that] n'(3) by (metis ext)
  then have "strip (cs ! i) = strip (cs' ! i)" if "i < 17" for i
    using t_full.IH [OF that] n'(4) [OF that] t_full.prems(1,3) t_full.hyps(1) n'(1,2) that by auto
  then show ?case using n'(1,2) t_full.hyps(1) by (auto intro: nth_equalityI)
qed auto

end
