(* ===== verification/TrieMap.thy ===== *)
theory TrieMap
  imports TrieCanonical
begin

text \<open>
  The trie as a map from key bytes to value bytes. The locale \<open>byte_store\<close> is the interface its
  clients use (lookup, update, removal of the keys it accepts, none of which panics, fails or hangs
  on a well-formed store); sequences of writes are reasoned about once, inside it. \<open>Trie\<close>
  is its first provider, the secure trie the second.
\<close>

section \<open>The interface\<close>

datatype update = Put bytes bytes | Remove bytes

fun write_map :: "(bytes \<rightharpoonup> bytes) \<Rightarrow> update \<Rightarrow> (bytes \<rightharpoonup> bytes)" where
  "write_map m (Put k v) = (if v = [] then m(k := None) else m(k \<mapsto> v))"
| "write_map m (Remove k) = m(k := None)"

fun write_key :: "update \<Rightarrow> bytes" where
  "write_key (Put k v) = k"
| "write_key (Remove k) = k"

text \<open>Writes one after the other; the first panic, error or divergence ends the run.\<close>

fun write_all :: "('t \<Rightarrow> update \<Rightarrow> (unit, 't) methodOf) \<Rightarrow> 't \<Rightarrow> update list \<Rightarrow> (unit, 't) methodOf" where
  "write_all step t [] = Some (Inr (((), None), t))"
| "write_all step t (w # ws) =
     (case step t w of
        None \<Rightarrow> None
      | Some (Inl p) \<Rightarrow> Some (Inl p)
      | Some (Inr ((_, Some e), t')) \<Rightarrow> Some (Inr (((), Some e), t'))
      | Some (Inr ((_, None), t')) \<Rightarrow> write_all step t' ws)"

fun write_step :: "('t \<Rightarrow> bytes \<Rightarrow> bytes \<Rightarrow> (unit, 't) methodOf) \<Rightarrow> ('t \<Rightarrow> bytes \<Rightarrow> (unit, 't) methodOf)
    \<Rightarrow> 't \<Rightarrow> update \<Rightarrow> (unit, 't) methodOf" where
  "write_step put rem t (Put k v) = put t k v"
| "write_step put rem t (Remove k) = rem t k"

locale byte_store =
  fixes holds :: "'t \<Rightarrow> (bytes \<rightharpoonup> bytes) \<Rightarrow> bool"
    and ok :: "bytes \<Rightarrow> bool"
    and look :: "'t \<Rightarrow> bytes \<Rightarrow> (bytes option, 't) methodOf"
    and put :: "'t \<Rightarrow> bytes \<Rightarrow> bytes \<Rightarrow> (unit, 't) methodOf"
    and rem :: "'t \<Rightarrow> bytes \<Rightarrow> (unit, 't) methodOf"
  assumes look_law: "holds t m \<Longrightarrow> ok k \<Longrightarrow> \<exists>t'. look t k = Some (Inr ((m k, None), t')) \<and> holds t' m"
    and put_law: "holds t m \<Longrightarrow> ok k \<Longrightarrow> \<exists>t'. put t k v = Some (Inr (((), None), t')) \<and> holds t' (write_map m (Put k v))"
    and rem_law: "holds t m \<Longrightarrow> ok k \<Longrightarrow> \<exists>t'. rem t k = Some (Inr (((), None), t')) \<and> holds t' (write_map m (Remove k))"
begin

lemma step_law:
  "holds t m \<Longrightarrow> ok (write_key w) \<Longrightarrow> \<exists>t'. write_step put rem t w = Some (Inr (((), None), t')) \<and> holds t' (write_map m w)"
  using put_law rem_law by (cases w) auto

lemma write_all_law:
  "holds t m \<Longrightarrow> list_all (ok \<circ> write_key) ws \<Longrightarrow>
   \<exists>t'. write_all (write_step put rem) t ws = Some (Inr (((), None), t')) \<and> holds t' (foldl write_map m ws)"
proof (induction ws arbitrary: t m)
  case (Cons w ws)
  then obtain t' where t': "write_step put rem t w = Some (Inr (((), None), t'))" "holds t' (write_map m w)"
    using step_law by fastforce
  with Cons.IH [OF t'(2)] Cons.prems(2) show ?case by simp
qed simp

lemma refines:
  assumes "holds t m" "list_all (ok \<circ> write_key) ws"
  shows "\<exists>t1. write_all (write_step put rem) t ws = Some (Inr (((), None), t1))
    \<and> (\<forall>k. ok k \<longrightarrow> (\<exists>t2. look t1 k = Some (Inr ((foldl write_map m ws k, None), t2)) \<and> holds t2 (foldl write_map m ws)))"
  using write_all_law [OF assms] look_law by blast

end

section \<open>The trie provides it\<close>

definition content :: "geth \<Rightarrow> Trie \<Rightarrow> (bytes \<rightharpoonup> bytes) \<Rightarrow> bool" where
  "content G t m \<longleftrightarrow> (\<exists>kd mm. tnode G (reader t) [] (root t) kd mm \<and> kd \<noteq> KVal
     \<and> dom mm \<subseteq> range keybytesToHex \<and> m = (\<lambda>k. mm (keybytesToHex k)))"

lemma suffix_ok_root: "kd \<noteq> KVal \<Longrightarrow> suffix_ok kd (keybytesToHex k)"
  by (cases kd) auto

lemma content_get:
  assumes "content G t m"
  shows "\<exists>t'. TryGet G t k = Some (Inr ((m k, None), t')) \<and> content G t' m"
proof -
  obtain kd mm where c: "tnode G (reader t) [] (root t) kd mm" "kd \<noteq> KVal" "dom mm \<subseteq> range keybytesToHex"
    "m = (\<lambda>k. mm (keybytesToHex k))" using assms by (auto simp: content_def)
  obtain tr n did where g: "tryGet G (reader t) (trc t) (root t) (keybytesToHex k) 0 = Some (Returns tr (mm (keybytesToHex k), n, did))"
    "if did then tnode G (reader t) [] n kd mm else n = root t"
    using tryGet_correct [OF c(1) suffix_ok_root [OF c(2), of k], of "trc t"] by auto
  then show ?thesis using c by (auto simp: TryGet_def content_def intro!: exI [of _ kd] exI [of _ mm])
qed

lemma content_setRoot:
  assumes "tnode G (reader t) [] n kd (mm(keybytesToHex k := v))" "kd \<noteq> KVal" "dom mm \<subseteq> range keybytesToHex"
  shows "content G (t\<lparr>trc := tr, root := n\<rparr>) ((\<lambda>k. mm (keybytesToHex k))(k := v))"
proof -
  have "dom (mm(keybytesToHex k := v)) \<subseteq> range keybytesToHex" using assms(3) by (cases v) auto
  then show ?thesis using assms(1,2) unfolding content_def
    by (intro exI [of _ kd] exI [of _ "mm(keybytesToHex k := v)"] conjI) (simp_all add: fun_eq_iff del: dom_fun_upd)
qed

lemma content_unhashed: "content G (t\<lparr>unhashed := u\<rparr>) m = content G t m"
  by (simp add: content_def)

lemma content_insert:
  assumes "content G t m" "v \<noteq> []"
  shows "\<exists>t'. map_option (setRoot t) (insert_node G (reader t) (trc t) (root t) [] (keybytesToHex k) (valueNode v))
    = Some (Inr (((), None), t')) \<and> content G t' (m(k \<mapsto> v))"
proof -
  obtain kd mm where c: "tnode G (reader t) [] (root t) kd mm" "kd \<noteq> KVal" "dom mm \<subseteq> range keybytesToHex"
    "m = (\<lambda>k. mm (keybytesToHex k))" using assms(1) by (auto simp: content_def)
  obtain tr d n kd' where g: "insert_node G (reader t) (trc t) (root t) [] (keybytesToHex k) (valueNode v) = Some (Returns tr (d, n))"
    "tnode G (reader t) [] n kd' (mm(keybytesToHex k \<mapsto> v))" "ins_kind kd (keybytesToHex k) kd'"
    using insert_node_correct [OF c(1) suffix_ok_root [OF c(2), of k] _ assms(2), of "trc t"]
    unfolding inserts_to_def by auto
  have "kd' \<noteq> KVal" using g(3) by (auto simp: ins_kind_def keybytesToHex_unpack)
  from content_setRoot [OF g(2) this c(3)] show ?thesis using g(1) c(4) by (auto simp: setRoot_def)
qed

lemma content_delete:
  assumes "content G t m"
  shows "\<exists>t'. map_option (setRoot t) (delete_node G (reader t) (trc t) (root t) [] (keybytesToHex k))
    = Some (Inr (((), None), t')) \<and> content G t' (m(k := None))"
proof -
  obtain kd mm where c: "tnode G (reader t) [] (root t) kd mm" "kd \<noteq> KVal" "dom mm \<subseteq> range keybytesToHex"
    "m = (\<lambda>k. mm (keybytesToHex k))" using assms(1) by (auto simp: content_def)
  obtain tr d n kd' where g: "delete_node G (reader t) (trc t) (root t) [] (keybytesToHex k) = Some (Returns tr (d, n))"
    "tnode G (reader t) [] n kd' (mm(keybytesToHex k := None))" "if mm (keybytesToHex k) = None then kd' = kd else del_kind kd kd'"
    using delete_node_correct [OF c(1) suffix_ok_root [OF c(2), of k], of "trc t"] unfolding deletes_to_def by (auto split: if_splits)
  have "kd' \<noteq> KVal" using g(3) c(2) by (cases kd) (auto simp: del_kind_def split: if_splits)
  from content_setRoot [OF g(2) this c(3)] show ?thesis using g(1) c(4) by (auto simp: setRoot_def)
qed

interpretation trie: byte_store "content G" "\<lambda>_. True" "TryGet G" "TryUpdate G" "TryDelete G" for G
proof
  fix t :: Trie and m k v
  assume c: "content G t m"
  have c1: "content G (t\<lparr>unhashed := unhashed t + 1\<rparr>) m" using c by (simp add: content_unhashed)
  show "\<exists>t'. TryGet G t k = Some (Inr ((m k, None), t')) \<and> content G t' m" by (rule content_get [OF c])
  show "\<exists>t'. TryUpdate G t k v = Some (Inr (((), None), t')) \<and> content G t' (write_map m (Put k v))"
    using content_insert [OF c1, of v k] content_delete [OF c1, of k] by (simp add: TryUpdate_def tryUpdate_def Let_def)
  show "\<exists>t'. TryDelete G t k = Some (Inr (((), None), t')) \<and> content G t' (write_map m (Remove k))"
    using content_delete [OF c1, of k] by (simp add: TryDelete_def Let_def)
qed

lemma content_empty: "root t = nilNode \<Longrightarrow> content G t Map.empty"
  unfolding content_def by (intro exI [of _ KNil] exI [of _ Map.empty]) (auto intro: tnode.t_nil)

lemma content_empty_iff: "content G t m \<Longrightarrow> m = Map.empty \<longleftrightarrow> root t = nilNode"
proof -
  assume "content G t m"
  then obtain kd mm where c: "tnode G (reader t) [] (root t) kd mm" "dom mm \<subseteq> range keybytesToHex"
    "m = (\<lambda>k. mm (keybytesToHex k))" by (auto simp: content_def)
  have "m = Map.empty \<longleftrightarrow> mm = Map.empty"
  proof
    assume e: "m = Map.empty"
    have "dom mm = {}"
    proof (rule ccontr)
      assume "dom mm \<noteq> {}"
      then obtain h where h: "h \<in> dom mm" by blast
      then obtain k where "h = keybytesToHex k" using c(2) by auto
      then show False using h e c(3) by (metis domIff)
    qed
    then show "mm = Map.empty" by simp
  qed (simp add: c(3))
  then show ?thesis using tnode_empty_iff [OF c(1)] by simp
qed

end
