(* ===== verification/TrieInvariant.thy ===== *)
theory TrieInvariant
  imports TrieMap
begin

text \<open>
  Invariants of nodes at their paths. What holds of nil and of values, passes from a node to its
  parts and back when a part is replaced and the flags are reset, and survives resolving a
  reference, is kept by insertion and deletion: the locale \<open>node_invariant\<close> says so once, for
  every invariant of that kind. The first is that a trie without references keeps
  having none.
\<close>

section \<open>Facts on every run\<close>

text \<open>What can be said of the error, and of the values, of a call that may call others.\<close>

definition fails_with :: "(trieError \<Rightarrow> bool) \<Rightarrow> 'a out option \<Rightarrow> bool" where
  "fails_with P m \<longleftrightarrow> (\<forall>t e. m = Some (Fails t e) \<longrightarrow> P e)"

definition ensures :: "('a \<Rightarrow> bool) \<Rightarrow> 'a out option \<Rightarrow> bool" where
  "ensures Q m \<longleftrightarrow> (\<forall>t a. m = Some (Returns t a) \<longrightarrow> Q a)"

lemma fails_with_simps [simp]:
  "fails_with P (Some (Returns t a))" "fails_with P (Some (Panics p))" "fails_with P None"
  "fails_with P (Some (Fails t e)) \<longleftrightarrow> P e"
  by (simp_all add: fails_with_def)

lemma ensures_simps [simp]:
  "ensures Q (Some (Returns t a)) \<longleftrightarrow> Q a" "ensures Q (Some (Panics p))" "ensures Q None" "ensures Q (Some (Fails t e))"
  by (simp_all add: ensures_def)

lemma fails_with_andThen:
  "fails_with P m \<Longrightarrow> (\<And>t a. fails_with P (k t a)) \<Longrightarrow> fails_with P (andThen m k)"
  by (cases m) (auto simp: fails_with_def andThen_def split: out.splits)

lemma ensures_andThen:
  "ensures P m \<Longrightarrow> (\<And>t a. P a \<Longrightarrow> ensures Q (k t a)) \<Longrightarrow> ensures Q (andThen m k)"
  by (cases m) (auto simp: ensures_def andThen_def split: out.splits)

lemma resolveAndTrack_resolves:
  "resolveAndTrack G R tr h p = Returns tr' n \<Longrightarrow> \<exists>blob. resolves G R p h blob n \<and> tr' = onRead tr p blob"
  by (auto simp: resolveAndTrack_def resolves_def split: sum.splits)

section \<open>Invariants at paths\<close>

locale node_invariant =
  fixes G :: geth and R :: trieReader and I :: "bytes \<Rightarrow> node \<Rightarrow> bool"
  assumes nil: "I p nilNode"
    and short_new: "I (p @ k) v \<Longrightarrow> k \<noteq> [] \<or> (\<exists>v' f'. I p (shortNode k v' f')) \<Longrightarrow> I p (shortNode k v newFlag)"
    and full_new: "(\<And>i. i < length cs \<Longrightarrow> I (p @ [word_of_nat i]) (cs ! i)) \<Longrightarrow>
      length cs = 17 \<or> (\<exists>cs' f'. length cs' = length cs \<and> I p (fullNode cs' f')) \<Longrightarrow> I p (fullNode cs newFlag)"
    and short_sub: "I p (shortNode k v f) \<Longrightarrow> I (p @ k) v"
    and full_sub: "I p (fullNode cs f) \<Longrightarrow> i < length cs \<Longrightarrow> I (p @ [word_of_nat i]) (cs ! i)"
    and resolved: "I p (hashNode h) \<Longrightarrow> resolves G R p h blob n \<Longrightarrow> I p n"
begin

definition keeps :: "bytes \<Rightarrow> (bool \<times> node) out option \<Rightarrow> bool" where
  "keeps p m \<longleftrightarrow> ensures (\<lambda>(d, n). I p n) m"

lemma keeps_simps [simp]:
  "keeps p (Some (Returns t (d, n))) \<longleftrightarrow> I p n" "keeps p (Some (Panics e))" "keeps p None"
  by (simp_all add: keeps_def)

lemma keeps_andThen:
  "keeps q m \<Longrightarrow> (\<And>t d n. I q n \<Longrightarrow> keeps p (k t (d, n))) \<Longrightarrow> keeps p (andThen m k)"
  unfolding keeps_def by (rule ensures_andThen [where P = "\<lambda>(d, n). I q n"]) auto

lemma keeps_resolve:
  "I q (hashNode h) \<Longrightarrow> (\<And>t n. I q n \<Longrightarrow> keeps p (k t n)) \<Longrightarrow> keeps p (andThen (Some (resolveAndTrack G R tr h q)) k)"
  unfolding keeps_def
  by (rule ensures_andThen [where P = "I q"]) (auto simp: ensures_def dest!: resolveAndTrack_resolves dest: resolved)

lemma full_new_update:
  assumes "I p (fullNode cs f)" "I (p @ [x]) n" shows "I p (fullNode (cs[unat x := n]) newFlag)"
proof (rule full_new)
  show "I (p @ [word_of_nat i]) (cs[unat x := n] ! i)" if "i < length (cs[unat x := n])" for i
    using that full_sub [OF assms(1), of i] assms(2) by (cases "i = unat x") auto
qed (use assms(1) in auto)

lemma full_new_two:
  assumes "I (p @ [x]) a" "I (p @ [y]) b"
  shows "I p (fullNode ((replicate 17 nilNode)[unat x := a, unat y := b]) newFlag)"
proof (rule full_new)
  show "I (p @ [word_of_nat i]) ((replicate 17 nilNode)[unat x := a, unat y := b] ! i)"
    if "i < length ((replicate 17 nilNode)[unat x := a, unat y := b])" for i
    using that assms nil by (cases "i = unat y"; cases "i = unat x") auto
qed simp

lemma child: "I p (fullNode cs f) \<Longrightarrow> \<not> length cs \<le> unat x \<Longrightarrow> I (p @ [x]) (cs ! unat x)"
  using full_sub [of p cs f "unat x"] by simp

lemma split_paths:
  assumes "prefixLen key nk \<noteq> length nk"
  shows "take (prefixLen key nk + 1) nk = take (prefixLen key nk) key @ [nk ! prefixLen key nk]"
    "\<not> length key \<le> prefixLen key nk \<Longrightarrow>
      take (prefixLen key nk + 1) key = take (prefixLen key nk) key @ [key ! prefixLen key nk]"
  using assms prefixLen_le(2) [of key nk] prefixLen_take [of key nk] by (simp_all add: take_Suc_conv_app_nth)

lemma insert_split_keeps:
  assumes f: "\<And>tr n p k v. I p n \<Longrightarrow> I (p @ k) v \<Longrightarrow> keeps p (f G R tr n p k v)"
    and nv: "I (p @ nk) nv" and v: "I (p @ key) val" and ml: "matchlen = prefixLen key nk" "matchlen \<noteq> length nk"
  shows "keeps p (andThen (f G R tr nilNode (p @ take (matchlen + 1) nk) (drop (matchlen + 1) nk) nv)
     (\<lambda>tr1 (_, c1).
        if matchlen \<ge> length key \<or> unat (key ! matchlen) \<ge> 17 then Some (Panics IndexOutOfRange)
        else andThen (f G R tr1 nilNode (p @ take (matchlen + 1) key) (drop (matchlen + 1) key) val)
          (\<lambda>tr2 (_, c2).
             let branch = fullNode ((replicate 17 nilNode)[unat (nk ! matchlen) := c1, unat (key ! matchlen) := c2]) newFlag
             in if matchlen = 0 then Some (Returns tr2 (True, branch))
                else Some (Returns (onInsert tr2 (p @ take matchlen key))
                             (True, shortNode (take matchlen key) branch newFlag)))))"
proof (rule keeps_andThen)
  show "keeps (p @ take (matchlen + 1) nk) (f G R tr nilNode (p @ take (matchlen + 1) nk) (drop (matchlen + 1) nk) nv)"
    using nv by (intro f nil) (simp add: ml)
next
  fix tr1 d c1 assume c1: "I (p @ take (matchlen + 1) nk) c1"
  have "keeps p (andThen (f G R tr1 nilNode (p @ take (matchlen + 1) key) (drop (matchlen + 1) key) val)
          (\<lambda>tr2 (_, c2).
             let branch = fullNode ((replicate 17 nilNode)[unat (nk ! matchlen) := c1, unat (key ! matchlen) := c2]) newFlag
             in if matchlen = 0 then Some (Returns tr2 (True, branch))
                else Some (Returns (onInsert tr2 (p @ take matchlen key))
                             (True, shortNode (take matchlen key) branch newFlag))))"
    if lt: "\<not> length key \<le> matchlen"
  proof (rule keeps_andThen)
    show "keeps (p @ take (matchlen + 1) key) (f G R tr1 nilNode (p @ take (matchlen + 1) key) (drop (matchlen + 1) key) val)"
      using v by (intro f nil) simp
  next
    fix tr2 d c2 assume c2: "I (p @ take (matchlen + 1) key) c2"
    let ?br = "fullNode ((replicate 17 nilNode)[unat (nk ! matchlen) := c1, unat (key ! matchlen) := c2]) newFlag"
    have "I (p @ take matchlen key) ?br"
      using c1 c2 split_paths [OF ml(2) [unfolded ml(1)]] lt unfolding ml(1)
      by (intro full_new_two) simp_all
    then show "keeps p (case (d, c2) of (_, c2) \<Rightarrow>
        let branch = fullNode ((replicate 17 nilNode)[unat (nk ! matchlen) := c1, unat (key ! matchlen) := c2]) newFlag
             in if matchlen = 0 then Some (Returns tr2 (True, branch))
                else Some (Returns (onInsert tr2 (p @ take matchlen key))
                             (True, shortNode (take matchlen key) branch newFlag)))"
      using lt by (auto simp: Let_def intro!: short_new)
  qed
  then show "keeps p (case (d, c1) of (_, c1) \<Rightarrow>
        if matchlen \<ge> length key \<or> unat (key ! matchlen) \<ge> 17 then Some (Panics IndexOutOfRange)
        else andThen (f G R tr1 nilNode (p @ take (matchlen + 1) key) (drop (matchlen + 1) key) val)
          (\<lambda>tr2 (_, c2).
             let branch = fullNode ((replicate 17 nilNode)[unat (nk ! matchlen) := c1, unat (key ! matchlen) := c2]) newFlag
             in if matchlen = 0 then Some (Returns tr2 (True, branch))
                else Some (Returns (onInsert tr2 (p @ take matchlen key))
                             (True, shortNode (take matchlen key) branch newFlag))))"
    by simp
qed

text \<open>The rewrapping of a child in its parent.\<close>

lemma keeps_short:
  "I p (shortNode k c nf) \<Longrightarrow> keeps (p @ k) m \<Longrightarrow>
   keeps p (andThen m (\<lambda>tr1 (dirty, nn). Some (Returns tr1 (if \<not> dirty then (False, shortNode k c nf) else (True, shortNode k nn newFlag)))))"
  by (rule keeps_andThen) (auto intro: short_new)

lemma keeps_full:
  "I p (fullNode cs nf) \<Longrightarrow> keeps (p @ [x]) m \<Longrightarrow>
   keeps p (andThen m (\<lambda>tr1 (dirty, nn). Some (Returns tr1 (if \<not> dirty then (False, fullNode cs nf) else (True, fullNode (cs[unat x := nn]) newFlag)))))"
  by (rule keeps_andThen) (auto intro: full_new_update)

lemma keeps_hash:
  assumes "I p (hashNode h)" "\<And>tr n. I p n \<Longrightarrow> keeps p (f tr n)"
  shows "keeps p (andThen (Some (resolveAndTrack G R tr h p)) (\<lambda>tr1 rn.
    andThen (f tr1 rn) (\<lambda>tr2 (dirty, nn). Some (Returns tr2 (if \<not> dirty then (False, rn) else (True, nn))))))"
  by (rule keeps_resolve [OF assms(1)], rule keeps_andThen [OF assms(2)]) auto

lemma insert_keeps:
  assumes "insert_node G R tr n p k v = Some y" "I p n" "I (p @ k) v"
  shows "keeps p (Some y)"
proof -
  have "G = G \<longrightarrow> R = R \<longrightarrow> I p n \<longrightarrow> I (p @ k) v \<longrightarrow> keeps p (Some y)"
    using assms(1)
  proof (rule insert_node.raw_induct [where P = "\<lambda>G' R' tr n p k v y. G' = G \<longrightarrow> R' = R \<longrightarrow>
      I p n \<longrightarrow> I (p @ k) v \<longrightarrow> keeps p (Some y)", rotated], goal_cases)
    case (1 f G' R' tr n p k v y)
    have f: "keeps p (f G R tr n p k v)" if "I p n" "I (p @ k) v" for tr n p k v
      using 1(1) that by (cases "f G R tr n p k v") auto
    show ?case
    proof (intro impI)
      assume GR: "G' = G" "R' = R" and n: "I p n" and v: "I (p @ k) v"
      note y = 1(2) [unfolded GR]
      show "keeps p (Some y)"
      proof (cases "k = []")
        case True
        then show ?thesis using v y by (auto split: node.splits)
      next
        case k: False
        show ?thesis
        proof (cases n)
          case nilNode
          then show ?thesis using y k v by (auto intro!: short_new)
        next
          case (fullNode cs nf)
          have "keeps (p @ [k ! 0]) (f G R tr (cs ! unat (k ! 0)) (p @ [k ! 0]) (drop 1 k) v)" if "\<not> length cs \<le> unat (k ! 0)"
            using n v k that fullNode child by (intro f) (auto simp: Cons_nth_drop_Suc)
          from keeps_full [OF n [unfolded fullNode] this] show ?thesis using y k fullNode by (auto split: if_splits)
        next
          case (shortNode nk nv nf)
          have nv: "I (p @ nk) nv" using n shortNode short_sub by blast
          show ?thesis
          proof (cases "prefixLen k nk = length nk")
            case True
            then have kk: "take (length nk) k = nk" "nk @ drop (length nk) k = k"
              using prefixLen_take [of k nk] append_take_drop_id [of "length nk" k] by simp_all
            have "keeps (p @ nk) (f G R tr nv (p @ nk) (drop (length nk) k) v)" using nv v kk by (intro f) auto
            from keeps_short [OF n [unfolded shortNode] this] show ?thesis using y k shortNode True kk by (auto simp: Let_def)
          next
            case False
            from insert_split_keeps [where f = f and tr = tr, OF f nv v refl False] show ?thesis
              using y k shortNode False by (auto simp: Let_def split: if_splits)
          qed
        next
          case (hashNode h)
          from keeps_hash [of p h "\<lambda>tr n. f G R tr n p k v" tr] show ?thesis using y k n v f hashNode by auto
        qed (use y k in auto)
      qed
    qed
  qed
  then show ?thesis using assms by simp
qed

lemma keeps_merge:
  assumes "I p (shortNode k c nf)" "keeps (p @ k) m"
  shows "keeps p (andThen m (\<lambda>tr1 (dirty, child).
     Some (if \<not> dirty then Returns tr1 (False, shortNode k c nf)
           else case child of
             shortNode ck cv cf \<Rightarrow> Returns (onDelete tr1 (p @ k)) (True, shortNode (concat_bytes k ck) cv newFlag)
           | _ \<Rightarrow> Returns tr1 (True, shortNode k child newFlag))))"
proof (rule keeps_andThen [OF assms(2)])
  fix t d n assume n: "I (p @ k) n"
  have w: "I p (shortNode k n newFlag)" using assms(1) n by (blast intro: short_new)
  have "I p (shortNode (k @ ck) cv newFlag)" if "n = shortNode ck cv cf" for ck cv cf
  proof (rule short_new)
    show "I (p @ k @ ck) cv" using n that short_sub [of "p @ k"] by simp
    show "k @ ck \<noteq> [] \<or> (\<exists>v' f'. I p (shortNode (k @ ck) v' f'))" using assms(1) by auto
  qed
  with w assms(1) show "keeps p (case (d, n) of (dirty, child) \<Rightarrow>
     Some (if \<not> dirty then Returns t (False, shortNode k c nf)
           else case child of
             shortNode ck cv cf \<Rightarrow> Returns (onDelete t (p @ k)) (True, shortNode (concat_bytes k ck) cv newFlag)
           | _ \<Rightarrow> Returns t (True, shortNode k child newFlag)))"
    by (auto simp: concat_bytes_def split: node.splits)
qed

lemma resolve_keeps: "I p n \<Longrightarrow> ensures (I p) (Some (resolve G R tr n p))"
  by (auto simp: resolve_def ensures_def split: node.splits dest!: resolveAndTrack_resolves dest: resolved)

lemma keeps_collapse:
  assumes "I (p @ [x]) c"
  shows "keeps p (andThen (Some (resolve G R tr c (p @ [x]))) (\<lambda>tr2 cnode.
     Some (case cnode of
       shortNode ck cv cf \<Rightarrow> Returns (onDelete tr2 (p @ [x])) (True, shortNode (x # ck) cv newFlag)
     | _ \<Rightarrow> Returns tr2 (True, shortNode [x] c newFlag))))"
  unfolding keeps_def
proof (rule ensures_andThen [OF resolve_keeps [OF assms]])
  fix t n assume n: "I (p @ [x]) n"
  have w: "I p (shortNode [x] c newFlag)" using assms by (intro short_new) auto
  have "I p (shortNode (x # ck) cv newFlag)" if "n = shortNode ck cv cf" for ck cv cf
    using n that short_sub [of "p @ [x]" ck cv cf] by (intro short_new) auto
  with w show "ensures (\<lambda>(d, n). I p n) (Some (case n of
       shortNode ck cv cf \<Rightarrow> Returns (onDelete t (p @ [x])) (True, shortNode (x # ck) cv newFlag)
     | _ \<Rightarrow> Returns t (True, shortNode [x] c newFlag)))"
    by (auto split: node.splits)
qed

lemma keeps_reduce:
  assumes "I p (fullNode cs nf)" "keeps (p @ [x]) m"
  shows "keeps p (andThen m (\<lambda>tr1 (dirty, nn).
     if \<not> dirty then Some (Returns tr1 (False, fullNode cs nf))
     else let cs' = cs[unat x := nn]
          in if nn \<noteq> nilNode then Some (Returns tr1 (True, fullNode cs' newFlag))
             else let pos = onlyChild cs' 0 (-1)
                  in if pos \<ge> 0
                     then let byte = word_of_int pos :: byte; c = cs' ! nat pos; one_nibble = shortNode [byte] c newFlag
                          in if pos \<noteq> 16
                             then andThen (Some (resolve G R tr1 c (p @ [byte]))) (\<lambda>tr2 cnode.
                                    Some (case cnode of
                                      shortNode ck cv cf \<Rightarrow>
                                        Returns (onDelete tr2 (p @ [byte])) (True, shortNode (byte # ck) cv newFlag)
                                    | _ \<Rightarrow> Returns tr2 (True, one_nibble)))
                             else Some (Returns tr1 (True, one_nibble))
                     else Some (Returns tr1 (True, fullNode cs' newFlag))))"
proof (rule keeps_andThen [OF assms(2)])
  fix t d n assume n: "I (p @ [x]) n"
  let ?cs = "cs[unat x := n]" and ?pos = "onlyChild (cs[unat x := n]) 0 (-1)"
  have full: "I p (fullNode ?cs newFlag)" using assms(1) n by (rule full_new_update)
  have c: "I (p @ [word_of_int ?pos]) (?cs ! nat ?pos)" if pos: "0 \<le> ?pos"
  proof -
    have lt: "nat ?pos < length ?cs" using pos by (rule_tac onlyChild_cases [of 0 ?cs]) auto
    have "(word_of_int ?pos :: byte) = word_of_nat (nat ?pos)" using pos by simp
    then show ?thesis using full_sub [OF full lt] by simp
  qed
  have one: "I p (shortNode [word_of_int ?pos] (?cs ! nat ?pos) newFlag)" if "0 \<le> ?pos"
    using c [OF that] by (intro short_new) auto
  show "keeps p (case (d, n) of (dirty, nn) \<Rightarrow>
     if \<not> dirty then Some (Returns t (False, fullNode cs nf))
     else let cs' = cs[unat x := nn]
          in if nn \<noteq> nilNode then Some (Returns t (True, fullNode cs' newFlag))
             else let pos = onlyChild cs' 0 (-1)
                  in if pos \<ge> 0
                     then let byte = word_of_int pos :: byte; c = cs' ! nat pos; one_nibble = shortNode [byte] c newFlag
                          in if pos \<noteq> 16
                             then andThen (Some (resolve G R t c (p @ [byte]))) (\<lambda>tr2 cnode.
                                    Some (case cnode of
                                      shortNode ck cv cf \<Rightarrow>
                                        Returns (onDelete tr2 (p @ [byte])) (True, shortNode (byte # ck) cv newFlag)
                                    | _ \<Rightarrow> Returns tr2 (True, one_nibble)))
                             else Some (Returns t (True, one_nibble))
                     else Some (Returns t (True, fullNode cs' newFlag)))"
    unfolding Let_def prod.case using assms(1) full one keeps_collapse [OF c, of t]
    by (cases "n = nilNode"; cases "?pos = 16") auto
qed

lemma delete_keeps:
  assumes "delete_node G R tr n p k = Some y" "I p n"
  shows "keeps p (Some y)"
proof -
  have "G = G \<longrightarrow> R = R \<longrightarrow> I p n \<longrightarrow> keeps p (Some y)"
    using assms(1)
  proof (rule delete_node.raw_induct [where P = "\<lambda>G' R' tr n p k y. G' = G \<longrightarrow> R' = R \<longrightarrow>
      I p n \<longrightarrow> keeps p (Some y)", rotated], goal_cases)
    case (1 f G' R' tr n p k y)
    have f: "keeps p (f G R tr n p k)" if "I p n" for tr n p k
      using 1(1) that by (cases "f G R tr n p k") auto
    show ?case
    proof (intro impI)
      assume GR: "G' = G" "R' = R" and n: "I p n"
      note y = 1(2) [unfolded GR]
      show "keeps p (Some y)"
      proof (cases n)
        case (fullNode cs nf)
        have "keeps (p @ [k ! 0]) (f G R tr (cs ! unat (k ! 0)) (p @ [k ! 0]) (drop 1 k))" if "\<not> length cs \<le> unat (k ! 0)"
          using n that fullNode child by (intro f) auto
        from keeps_reduce [OF n [unfolded fullNode] this] show ?thesis
          using y fullNode nil by (auto split: if_splits)
      next
        case (shortNode nk nv nf)
        show ?thesis
        proof (cases "prefixLen k nk < length nk \<or> prefixLen k nk = length k")
          case True
          then show ?thesis using y n shortNode nil by (auto simp: Let_def split: if_splits)
        next
          case False
          then have kk: "take (length nk) k = nk"
            using prefixLen_take [of k nk] prefixLen_le(2) [of k nk] by simp
          have "keeps (p @ nk) (f G R tr nv (p @ nk) (drop (length nk) k))"
            using n shortNode short_sub by (intro f) auto
          from keeps_merge [OF n [unfolded shortNode] this] show ?thesis using y shortNode False kk by (auto simp: Let_def)
        qed
      next
        case (hashNode h)
        from keeps_hash [of p h "\<lambda>tr n. f G R tr n p k" tr] show ?thesis using y n f hashNode by auto
      qed (use y n nil in auto)
    qed
  qed
  then show ?thesis using assms by simp
qed

end

section \<open>Tries without references\<close>

interpretation loaded_inv: node_invariant G R "\<lambda>p n. loaded n" for G R
  by unfold_locales (auto simp: all_set_conv_all_nth)

end
