(* ===== verification/TrieProps.thy ===== *)
theory TrieProps
  imports TrieInvariant
begin

text \<open>
  What clients of the trie can rely on: its operations refine those of a map, they leave no
  trace of their order, an error is always a missing node and changes nothing. The
  witnesses run on a trie without a backing store.
\<close>

section \<open>Facts on every run\<close>

lemma resolveAndTrack_Fails:
  "resolveAndTrack G R tr h p = Fails tr' e \<Longrightarrow> tr' = tr \<and> nodeBlob R p (BytesToHash G h) = Inl e"
  by (auto simp: resolveAndTrack_def split: sum.splits)

lemma nodeBlob_Inl:
  "nodeBlob R p h = Inl e \<Longrightarrow> \<exists>err. e = MissingNodeError (rd_owner R) h p err"
  by (auto simp: nodeBlob_def split: if_splits option.splits prod.splits)

definition missing :: "trieReader \<Rightarrow> trieError \<Rightarrow> bool" where
  "missing R e \<longleftrightarrow> (\<exists>p h err. nodeBlob R p h = Inl e \<and> e = MissingNodeError (rd_owner R) h p err)"

lemma resolve_missing: "resolveAndTrack G R tr h p = Fails tr' e \<Longrightarrow> missing R e"
  using resolveAndTrack_Fails nodeBlob_Inl unfolding missing_def by metis

lemma fails_with_resolve:
  "fails_with (missing R) (Some (resolveAndTrack G R tr h p))" "fails_with (missing R) (Some (resolve G R tr n p))"
  by (auto simp: fails_with_def resolve_def intro: resolve_missing split: node.splits)

lemma insert_fails_missing: "insert_node G R tr n p k v = Some y \<Longrightarrow> fails_with (missing R) (Some y)"
  apply (erule insert_node.raw_induct [where P = "\<lambda>G R tr n p k v y. fails_with (missing R) (Some y)", rotated])
  subgoal premises prems for f G R tr n p k v y
  proof -
    have f: "fails_with (missing R) (f G R tr n p k v)" for G R tr n p k v
      using prems(1) by (fastforce simp: fails_with_def)
    show ?thesis unfolding prems(2) [symmetric]
      by (auto split: node.splits simp: Let_def intro!: fails_with_andThen f fails_with_resolve)
  qed
  done

lemma delete_fails_missing: "delete_node G R tr n p k = Some y \<Longrightarrow> fails_with (missing R) (Some y)"
  apply (erule delete_node.raw_induct [where P = "\<lambda>G R tr n p k y. fails_with (missing R) (Some y)", rotated])
  subgoal premises prems for f G R tr n p k y
  proof -
    have f: "fails_with (missing R) (f G R tr n p k)" for G R tr n p k
      using prems(1) by (fastforce simp: fails_with_def)
    show ?thesis unfolding prems(2) [symmetric]
      by (auto split: node.splits simp: Let_def intro!: fails_with_andThen f fails_with_resolve)
  qed
  done

lemma tryGet_fails_missing: "tryGet G R tr n k i = Some y \<Longrightarrow> fails_with (missing R) (Some y)"
  apply (erule tryGet.raw_induct [where P = "\<lambda>G R tr n k i y. fails_with (missing R) (Some y)", rotated])
  subgoal premises prems for f G R tr n k i y
  proof -
    have f: "fails_with (missing R) (f G R tr n k i)" for G R tr n k i
      using prems(1) by (fastforce simp: fails_with_def)
    show ?thesis unfolding prems(2) [symmetric]
      by (auto split: node.splits simp: Let_def intro!: fails_with_andThen f fails_with_resolve)
  qed
  done

lemma setRoot_keeps:
  "setRoot t r = Inr (((), e), t') \<Longrightarrow> Q (root t) \<Longrightarrow> ensures (\<lambda>(d, n). Q n) (Some r) \<Longrightarrow> Q (root t') \<and> reader t' = reader t"
  by (auto simp: setRoot_def split: out.splits prod.splits)

lemma step_loaded:
  assumes "write_step (TryUpdate G) (TryDelete G) t w = Some (Inr (((), e), t'))" "loaded (root t)"
  shows "loaded (root t') \<and> reader t' = reader t"
proof -
  let ?t1 = "t\<lparr>unhashed := unhashed t + 1\<rparr>"
  obtain r where r: "setRoot ?t1 r = Inr (((), e), t')"
    "(\<exists>k v. v \<noteq> [] \<and> insert_node G (reader t) (trc t) (root t) [] k (valueNode v) = Some r)
     \<or> (\<exists>k. delete_node G (reader t) (trc t) (root t) [] k = Some r)"
    using assms(1) by (cases w) (auto simp: TryUpdate_def tryUpdate_def TryDelete_def Let_def split: if_splits)
  then have "ensures (\<lambda>(d, n). loaded n) (Some r)"
    using loaded_inv.insert_keeps loaded_inv.delete_keeps assms(2) unfolding loaded_inv.keeps_def by fastforce
  then show ?thesis using setRoot_keeps [OF r(1), of loaded] assms(2) by simp
qed

lemma write_all_loaded:
  "write_all (write_step (TryUpdate G) (TryDelete G)) t ws = Some (Inr (((), None), t')) \<Longrightarrow> loaded (root t) \<Longrightarrow>
   loaded (root t') \<and> reader t' = reader t"
proof (induction ws arbitrary: t)
  case (Cons w ws)
  then obtain t1 where t1: "write_step (TryUpdate G) (TryDelete G) t w = Some (Inr (((), None), t1))"
    "write_all (write_step (TryUpdate G) (TryDelete G)) t1 ws = Some (Inr (((), None), t'))"
    by (auto split: option.splits sum.splits)
  then show ?case using Cons.IH [OF t1(2)] step_loaded [OF t1(1) Cons.prems(2)] by simp
qed simp

lemma setRoot_err:
  "setRoot t y = Inr ((u, Some e), t') \<Longrightarrow> fails_with P (Some y) \<Longrightarrow> P e \<and> root t' = root t \<and> reader t' = reader t"
  by (cases y) (auto simp: setRoot_def)

lemma content_shape:
  assumes "content G t m" "content G t' m" "loaded (root t)" "loaded (root t')" "reader t = reader t'"
  shows "strip (root t) = strip (root t')"
proof -
  obtain kd mm where c: "tnode G (reader t) [] (root t) kd mm" "dom mm \<subseteq> range keybytesToHex"
    "m = (\<lambda>k. mm (keybytesToHex k))" using assms(1) by (auto simp: content_def)
  obtain kd' mm' where c': "tnode G (reader t) [] (root t') kd' mm'" "dom mm' \<subseteq> range keybytesToHex"
    "m = (\<lambda>k. mm' (keybytesToHex k))" using assms(2,5) by (auto simp: content_def)
  have "mm s = mm' s" for s
  proof (cases "s \<in> range keybytesToHex")
    case True
    then show ?thesis using c(3) c'(3) by (metis imageE)
  next
    case False
    then show ?thesis using c(2) c'(2) by (metis domIff subsetD)
  qed
  then have "mm = mm'" by blast
  then show ?thesis using shape_unique c(1) c'(1) assms(3,4) by blast
qed

lemma trie_writes: "content G t m \<Longrightarrow>
  \<exists>t'. write_all (write_step (TryUpdate G) (TryDelete G)) t ws = Some (Inr (((), None), t')) \<and> content G t' (foldl write_map m ws)"
  by (rule trie.write_all_law) (simp_all add: comp_def list_all_iff)

text \<open>\<open>New\<close> on its two successful branches.\<close>

lemma New_empty:
  assumes "db (StateRoot i) codec = Some store" "id_Root i = 0 \<or> id_Root i = EmptyRootHash G"
  shows "\<exists>t. New G i db codec = Inr (Inr t) \<and> content G t Map.empty \<and> trc t = newTracer \<and> root t = nilNode
    \<and> reader t = \<lparr>rd_owner = id_Owner i, rd_reader = Some store, rd_banned = None\<rparr>"
  using assms by (auto simp: New_def newTrieReader_def intro!: content_empty)

lemma New_content:
  fixes i :: ID and store :: nodeStore
  defines "rd \<equiv> \<lparr>rd_owner = id_Owner i, rd_reader = Some store, rd_banned = None\<rparr>"
  assumes db: "db (StateRoot i) codec = Some store" and r: "id_Root i \<noteq> 0" "id_Root i \<noteq> EmptyRootHash G"
    and t: "tnode G rd [] (hashNode (hash_bytes (id_Root i))) kd mm" and d: "dom mm \<subseteq> range keybytesToHex"
  shows "\<exists>t blob. New G i db codec = Inr (Inr t) \<and> content G t (\<lambda>k. mm (keybytesToHex k)) \<and> reader t = rd
    \<and> resolves G rd [] (hash_bytes (id_Root i)) blob (root t)"
  using t
proof (cases rule: tnode.cases)
  case (t_hash blob n)
  then show ?thesis using db r d
    by (auto simp: New_def newTrieReader_def resolveAndTrack_def resolves_def content_def rd_def
        intro!: exI [of _ kd] exI [of _ mm])
qed

section \<open>Properties\<close>

text \<open>C8: The trie refines a map: on a well-formed trie (references into the database included) any
  sequence of \<open>TryUpdate\<close> (an empty value removes) and \<open>TryDelete\<close> returns without error or
  panic, and every lookup afterwards returns what the same writes leave in the map,
  without changing it.\<close>

theorem trie_refines_map:
  assumes "content G t m"
  shows "\<exists>t1. write_all (write_step (TryUpdate G) (TryDelete G)) t ws = Some (Inr (((), None), t1))
    \<and> (\<forall>k. \<exists>t2. TryGet G t1 k = Some (Inr ((foldl write_map m ws k, None), t2)) \<and> content G t2 (foldl write_map m ws))"
  using trie.refines [OF assms, of ws] by (simp add: comp_def list_all_iff)

definition blankTrie :: Trie where
  "blankTrie = \<lparr>root = nilNode, owner = 0, unhashed = 0, reader = newEmptyReader, trc = newTracer\<rparr>"

lemma blankTrie_empty: "content G blankTrie Map.empty"
  by (rule content_empty) (simp add: blankTrie_def)

theorem trie_refines_map_witness:
  "content ref_geth blankTrie Map.empty \<and>
   (\<exists>t1 t2. write_all (write_step (TryUpdate ref_geth) (TryDelete ref_geth)) blankTrie
       [Put [1, 2] [7], Put [1, 3] [8], Put [1, 2] [], Remove [9]] = Some (Inr (((), None), t1))
     \<and> TryGet ref_geth t1 [1, 3] = Some (Inr ((Some [8], None), t2)))"
proof -
  obtain t1 where t1: "write_all (write_step (TryUpdate ref_geth) (TryDelete ref_geth)) blankTrie
       [Put [1, 2] [7], Put [1, 3] [8], Put [1, 2] [], Remove [9]] = Some (Inr (((), None), t1))"
    "\<And>k. \<exists>t2. TryGet ref_geth t1 k = Some (Inr ((foldl write_map Map.empty
       [Put [1, 2] [7], Put [1, 3] [8], Put [1, 2] [], Remove [9]] k, None), t2))"
    using trie_refines_map [OF blankTrie_empty] by blast
  moreover from t1(2) [of "[1, 3]"] obtain t2 where "TryGet ref_geth t1 [1, 3] = Some (Inr ((Some [8], None), t2))"
    by auto
  ultimately show ?thesis using blankTrie_empty by blast
qed

text \<open>C17: History independence: on a trie that is loaded completely (no node of it is a mere hash), two sequences of updates
  that leave the same map leave tries of the same shape, node for node and key for key, whatever their
  order and whatever was inserted and removed in between. (A trie that still holds hashes keeps
  them where it is not written to, so there only the map and the root hash are independent of the history.)\<close>

theorem trie_history_independent:
  assumes "content G t m" "loaded (root t)" "foldl write_map m ws = foldl write_map m ws'"
  shows "\<exists>t1 t2. write_all (write_step (TryUpdate G) (TryDelete G)) t ws = Some (Inr (((), None), t1))
    \<and> write_all (write_step (TryUpdate G) (TryDelete G)) t ws' = Some (Inr (((), None), t2))
    \<and> strip (root t1) = strip (root t2)"
proof -
  obtain t1 t2 where t1: "write_all (write_step (TryUpdate G) (TryDelete G)) t ws = Some (Inr (((), None), t1))"
    "content G t1 (foldl write_map m ws)"
    and t2: "write_all (write_step (TryUpdate G) (TryDelete G)) t ws' = Some (Inr (((), None), t2))"
    "content G t2 (foldl write_map m ws)" using trie_writes [OF assms(1)] assms(3) by metis
  then have "strip (root t1) = strip (root t2)"
    using write_all_loaded [OF t1(1) assms(2)] write_all_loaded [OF t2(1) assms(2)] content_shape by metis
  then show ?thesis using t1(1) t2(1) by blast
qed

theorem trie_history_independent_witness:
  "\<exists>t1 t2. write_all (write_step (TryUpdate ref_geth) (TryDelete ref_geth)) blankTrie
      [Put [1, 2] [7], Put [1, 3] [8], Put [5] [9], Remove [5]] = Some (Inr (((), None), t1))
    \<and> write_all (write_step (TryUpdate ref_geth) (TryDelete ref_geth)) blankTrie
      [Put [1, 3] [8], Put [1, 2] [7]] = Some (Inr (((), None), t2))
    \<and> strip (root t1) = strip (root t2)"
proof (rule trie_history_independent [OF blankTrie_empty])
  show "loaded (root blankTrie)" by (simp add: blankTrie_def)
  show "foldl write_map Map.empty [Put [1, 2] [7], Put [1, 3] [8], Put [5] [9], Remove [5]]
      = foldl write_map Map.empty [Put [1, 3] [8], Put [1, 2] [7]]" by (simp add: fun_eq_iff)
qed

text \<open>C18: An error of a lookup, an update or a deletion is always a \<open>MissingNodeError\<close> for a node the
  reader cannot deliver, with the reader's owner in it, and the trie keeps its root: a
  failed operation changes nothing that is stored.\<close>

theorem trie_errors_are_missing_nodes:
  assumes "TryGet G t k = Some (Inr ((r, Some e), t')) \<or> TryUpdate G t k v = Some (Inr ((u, Some e), t'))
    \<or> TryDelete G t k = Some (Inr ((u, Some e), t'))"
  shows "missing (reader t) e \<and> root t' = root t \<and> reader t' = reader t"
  using assms
proof (elim disjE)
  assume g: "TryGet G t k = Some (Inr ((r, Some e), t'))"
  then obtain y where y: "tryGet G (reader t) (trc t) (root t) (keybytesToHex k) 0 = Some y" by (auto simp: TryGet_def)
  then show ?thesis using g tryGet_fails_missing [OF y] by (cases y) (auto simp: TryGet_def split: if_splits)
next
  assume "TryUpdate G t k v = Some (Inr ((u, Some e), t'))"
  then show ?thesis
    by (cases "v = []") (auto simp: TryUpdate_def tryUpdate_def Let_def
        dest: setRoot_err [OF _ insert_fails_missing] setRoot_err [OF _ delete_fails_missing])
next
  assume "TryDelete G t k = Some (Inr ((u, Some e), t'))"
  then show ?thesis by (auto simp: TryDelete_def Let_def dest!: setRoot_err [OF _ delete_fails_missing])
qed

definition danglingTrie :: Trie where
  "danglingTrie = blankTrie\<lparr>root := hashNode [1]\<rparr>"

theorem trie_errors_are_missing_nodes_witness:
  "\<exists>e t'. TryUpdate ref_geth danglingTrie [5] [7] = Some (Inr (((), Some e), t')) \<and> missing (reader danglingTrie) e
    \<and> root t' = hashNode [1]"
proof -
  have k: "keybytesToHex [5] = [0, 5, 16]" by (simp add: keybytesToHex_unpack)
  obtain e t' where u: "TryUpdate ref_geth danglingTrie [5] [7] = Some (Inr (((), Some e), t'))"
    by (simp add: TryUpdate_def tryUpdate_def Let_def danglingTrie_def blankTrie_def k insert_node.simps
        resolveAndTrack_def nodeBlob_def newEmptyReader_def setRoot_def)
  then show ?thesis using trie_errors_are_missing_nodes [of ref_geth danglingTrie "[5]" None e t' "[7]"]
    by (simp add: danglingTrie_def)
qed

text \<open>C20: \<open>New\<close> on every branch: a missing store is an error; the zero hash and the empty-root hash
  give an empty trie without reading anything; otherwise the root node is loaded,
  a \<open>MissingNodeError\<close> comes back when it is not there, and when it denotes a map the new
  trie holds that map.\<close>

theorem New_opens:
  "(db (StateRoot i) codec = None \<longrightarrow> New G i db codec = Inr (Inl (StateNotFound (StateRoot i)))) \<and>
   (db (StateRoot i) codec = Some store \<longrightarrow>
     (id_Root i = 0 \<or> id_Root i = EmptyRootHash G \<longrightarrow>
        (\<exists>t. New G i db codec = Inr (Inr t) \<and> content G t Map.empty \<and> trc t = newTracer)) \<and>
     (id_Root i \<noteq> 0 \<and> id_Root i \<noteq> EmptyRootHash G \<longrightarrow>
        (let rd = \<lparr>rd_owner = id_Owner i, rd_reader = Some store, rd_banned = None\<rparr>
         in (\<forall>e. nodeBlob rd [] (BytesToHash G (hash_bytes (id_Root i))) = Inl e \<longrightarrow>
               New G i db codec = Inr (Inl e) \<and> missing rd e) \<and>
            (\<forall>kd mm. tnode G rd [] (hashNode (hash_bytes (id_Root i))) kd mm \<and> dom mm \<subseteq> range keybytesToHex \<longrightarrow>
               (\<exists>t. New G i db codec = Inr (Inr t) \<and> content G t (\<lambda>k. mm (keybytesToHex k)))))))"
proof (intro conjI impI)
  assume "db (StateRoot i) codec = None"
  then show "New G i db codec = Inr (Inl (StateNotFound (StateRoot i)))" by (simp add: New_def newTrieReader_def)
next
  assume "db (StateRoot i) codec = Some store" "id_Root i = 0 \<or> id_Root i = EmptyRootHash G"
  then show "\<exists>t. New G i db codec = Inr (Inr t) \<and> content G t Map.empty \<and> trc t = newTracer"
    using New_empty by blast
next
  assume db: "db (StateRoot i) codec = Some store" and r: "id_Root i \<noteq> 0 \<and> id_Root i \<noteq> EmptyRootHash G"
  let ?rd = "\<lparr>rd_owner = id_Owner i, rd_reader = Some store, rd_banned = None\<rparr>"
  have e: "New G i db codec = Inr (Inl e) \<and> missing ?rd e"
    if "nodeBlob ?rd [] (BytesToHash G (hash_bytes (id_Root i))) = Inl e" for e
    using that db r nodeBlob_Inl [OF that] by (auto simp: New_def newTrieReader_def resolveAndTrack_def missing_def)
  have l: "\<exists>t. New G i db codec = Inr (Inr t) \<and> content G t (\<lambda>k. mm (keybytesToHex k))"
    if t: "tnode G ?rd [] (hashNode (hash_bytes (id_Root i))) kd mm" and d: "dom mm \<subseteq> range keybytesToHex" for kd mm
    using New_content [of db i codec store G kd mm] db t d r by blast
  show "let rd = ?rd in (\<forall>e. nodeBlob rd [] (BytesToHash G (hash_bytes (id_Root i))) = Inl e \<longrightarrow>
               New G i db codec = Inr (Inl e) \<and> missing rd e) \<and>
            (\<forall>kd mm. tnode G rd [] (hashNode (hash_bytes (id_Root i))) kd mm \<and> dom mm \<subseteq> range keybytesToHex \<longrightarrow>
               (\<exists>t. New G i db codec = Inr (Inr t) \<and> content G t (\<lambda>k. mm (keybytesToHex k))))"
    unfolding Let_def using e l by blast
qed

definition leafRaw :: node where
  "leafRaw = rawShortNode [0x20, 0x12] (valueNode [1, 2, 3])"

definition leafStore :: nodeStore where
  "leafStore own p h = (nodeToBytes ref_geth leafRaw, None)"

lemma leafStore_tnode:
  "tnode ref_geth \<lparr>rd_owner = 0, rd_reader = Some leafStore, rd_banned = None\<rparr> [] (hashNode (hash_bytes 5)) KShort
     [keybytesToHex [0x12] \<mapsto> [1, 2, 3]]" (is "tnode _ ?R _ _ _ _")
proof -
  let ?f = "\<lparr>flag_hash = Some (hash_bytes 5), flag_dirty = False\<rparr>"
  have k: "compactToHex [0x20, 0x12] = keybytesToHex [0x12]" by (simp add: compactToHex_Cons keybytesToHex_unpack)
  have "collapsed ref_geth leafRaw"
    by (simp add: leafRaw_def rlp_small_def k keybytesToHex_unpack hasTerm_last is_smallValue_def ref_geth_def
        ref_string_def rlp_header_def)
  then have "mustDecodeNode ref_geth (Some (hash_bytes 5)) (nodeToBytes ref_geth leafRaw)
      = Inr (shortNode (keybytesToHex [0x12]) (valueNode [1, 2, 3]) ?f)"
    by (rule mustDecode_encode [OF ref.rlp_axioms]) (simp add: leafRaw_def k)
  moreover have "nodeToBytes ref_geth leafRaw \<noteq> []"
    by (simp add: leafRaw_def nodeToBytes_def ref_geth_def ref_list_def rlp_header_def)
  ultimately have "resolves ref_geth ?R [] (hash_bytes 5) (nodeToBytes ref_geth leafRaw)
      (shortNode (keybytesToHex [0x12]) (valueNode [1, 2, 3]) ?f)"
    by (simp add: resolves_def nodeBlob_def leafStore_def)
  moreover have "tnode ref_geth ?R [] (shortNode (keybytesToHex [0x12]) (valueNode [1, 2, 3]) ?f) KShort
      (prefixed (keybytesToHex [0x12]) [[] \<mapsto> [1, 2, 3]])"
    by (rule tnode.t_short [OF tnode.t_val]) auto
  ultimately show ?thesis using prefixed_upd [of "keybytesToHex [0x12]" Map.empty "[]"] by (auto intro: tnode.t_hash)
qed

theorem New_opens_witness:
  "\<exists>t m. New ref_geth (StateTrieID 5) (\<lambda>_ _. Some leafStore) 0x96 = Inr (Inr t) \<and> content ref_geth t m \<and> m [0x12] = Some [1, 2, 3]"
proof -
  let ?mm = "[keybytesToHex [0x12] \<mapsto> [1, 2, 3]]"
  have e: "EmptyRootHash ref_geth = 2" by (simp add: ref_geth_def)
  have d: "dom ?mm \<subseteq> range keybytesToHex" by simp
  have "\<exists>t. New ref_geth (StateTrieID 5) (\<lambda>_ _. Some leafStore) 0x96 = Inr (Inr t)
      \<and> content ref_geth t (\<lambda>k. ?mm (keybytesToHex k))"
    using New_opens [of "\<lambda>_ _. Some leafStore" "StateTrieID 5" "0x96" ref_geth leafStore] leafStore_tnode d
    unfolding Let_def by (simp add: StateTrieID_def e del: fun_upd_apply dom_fun_upd) blast
  then obtain t where "New ref_geth (StateTrieID 5) (\<lambda>_ _. Some leafStore) 0x96 = Inr (Inr t)"
    "content ref_geth t (\<lambda>k. ?mm (keybytesToHex k))" by blast
  then show ?thesis by (intro exI [of _ t] exI [of _ "\<lambda>k. ?mm (keybytesToHex k)"]) simp
qed

end
