(* ===== verification/TrieHash.thy ===== *)
theory TrieHash
  imports TrieProps
begin

text \<open>
  Hashing and committing a trie: \<open>trie_by_cid/trie/hasher.go\<close>, \<open>committer.go\<close>, \<open>nodeset.go\<close>, and the methods
  \<open>Hash\<close>, \<open>Commit\<close> of \<open>trie.go\<close> and \<open>markDeletions\<close> of \<open>tracer.go\<close> that use them. Pools and buffers
  are left out, and so is the parallel branch of \<open>hashFullNodeChildren\<close>: its goroutines compute, one
  child each, what the sequential loop computes.
\<close>

section \<open>Hasher\<close>

definition hashData :: "geth \<Rightarrow> bytes \<Rightarrow> node" where
  "hashData G bs = hashNode (hash_bytes (keccak256 G bs))"

definition shortnodeToHash :: "geth \<Rightarrow> node \<Rightarrow> bool \<Rightarrow> node" where
  "shortnodeToHash G n force =
     (let enc = encode G n in if length enc < 32 \<and> \<not> force then n else hashData G enc)"

definition fullnodeToHash :: "geth \<Rightarrow> node \<Rightarrow> bool \<Rightarrow> node" where
  "fullnodeToHash G n force =
     (let enc = encode G n in if length enc < 32 \<and> \<not> force then n else hashData G enc)"

text \<open>\<open>cached.flags.hash\<close>: the hash when there is one, nil when the node is to be embedded.\<close>

definition setHash :: "node \<Rightarrow> nodeFlag \<Rightarrow> nodeFlag" where
  "setHash hashed f = f\<lparr>flag_hash := (case hashed of hashNode h \<Rightarrow> Some h | _ \<Rightarrow> None)\<rparr>"

text \<open>
  The children of a full node: the sixteen branches are hashed, a nil one becomes the
  empty value in the collapsed node, and the seventeenth child is left as it is.
\<close>

fun hasher_hash :: "geth \<Rightarrow> node \<Rightarrow> bool \<Rightarrow> panic + (node \<times> node)"
  and hashShortNodeChildren :: "geth \<Rightarrow> bytes \<Rightarrow> node \<Rightarrow> nodeFlag \<Rightarrow> panic + (node \<times> node)"
  and hashFullNodeChildren :: "geth \<Rightarrow> nat \<Rightarrow> node list \<Rightarrow> panic + (node list \<times> node list)" where
  "hasher_hash G n force =
     (case cache n of
        Inl p \<Rightarrow> Inl p
      | Inr (Some h, _) \<Rightarrow> Inr (hashNode h, n)
      | Inr (None, _) \<Rightarrow>
          (case n of
             shortNode k v f \<Rightarrow>
               (case hashShortNodeChildren G k v f of
                  Inl p \<Rightarrow> Inl p
                | Inr (coll, cach) \<Rightarrow>
                    (let hashed = shortnodeToHash G coll force
                     in case cach of
                          shortNode ck cv cf \<Rightarrow> Inr (hashed, shortNode ck cv (setHash hashed cf))
                        | _ \<Rightarrow> Inr (hashed, cach)))
           | fullNode cs f \<Rightarrow>
               (case hashFullNodeChildren G 0 cs of
                  Inl p \<Rightarrow> Inl p
                | Inr (coll, cach) \<Rightarrow>
                    (let hashed = fullnodeToHash G (fullNode coll f) force
                     in Inr (hashed, fullNode cach (setHash hashed f))))
           | _ \<Rightarrow> Inr (n, n)))"
| "hashShortNodeChildren G k v f =
     (case hexToCompact k of
        Inl p \<Rightarrow> Inl p
      | Inr ck \<Rightarrow>
          (if (case v of fullNode _ _ \<Rightarrow> True | shortNode _ _ _ \<Rightarrow> True | _ \<Rightarrow> False)
           then (case hasher_hash G v False of
                   Inl p \<Rightarrow> Inl p
                 | Inr (hashed, cach) \<Rightarrow> Inr (shortNode ck hashed f, shortNode k cach f))
           else Inr (shortNode ck v f, shortNode k v f)))"
| "hashFullNodeChildren G i [] = Inr ([], [])"
| "hashFullNodeChildren G i (c # cs) =
     (case (if i \<ge> 16 then Inr (c, c)
            else if c \<noteq> nilNode then hasher_hash G c False
            else Inr (nilValueNode, nilNode)) of
        Inl p \<Rightarrow> Inl p
      | Inr (hashed, cach) \<Rightarrow>
          (case hashFullNodeChildren G (i + 1) cs of
             Inl p \<Rightarrow> Inl p
           | Inr (hs, caches) \<Rightarrow> Inr (hashed # hs, cach # caches)))"

declare hasher_hash.simps [simp del] hashShortNodeChildren.simps [simp del]

definition proofHash :: "geth \<Rightarrow> node \<Rightarrow> panic + (node \<times> node)" where
  "proofHash G original =
     (case original of
        shortNode k v f \<Rightarrow>
          (case hashShortNodeChildren G k v f of
             Inl p \<Rightarrow> Inl p
           | Inr (sn, _) \<Rightarrow> Inr (sn, shortnodeToHash G sn False))
      | fullNode cs f \<Rightarrow>
          (case hashFullNodeChildren G 0 cs of
             Inl p \<Rightarrow> Inl p
           | Inr (fs, _) \<Rightarrow> Inr (fullNode fs f, fullnodeToHash G (fullNode fs f) False))
      | _ \<Rightarrow> Inr (original, original))"

end
