(* ===== verification/TrieCommit.thy ===== *)
theory TrieCommit
  imports TrieHash "HOL-Library.List_Lexorder"
begin

text \<open>
  The node sets a commit produces (\<open>nodeset.go\<close>), the committer (\<open>committer.go\<close>), the deletions the
  tracer adds (\<open>tracer.go\<close>), and \<open>Hash\<close> and \<open>Commit\<close> of \<open>trie.go\<close>. A loop over a Go map takes
  the order in which the map is visited as an argument.
\<close>

section \<open>Node sets\<close>

record memoryNode =
  mn_hash :: hash
  mn_size :: "16 word"
  mn_node :: node

definition deletedNode :: memoryNode where
  "deletedNode = \<lparr>mn_hash = 0, mn_size = 0, mn_node = nilNode\<rparr>"

definition memoryNode_rlp :: "geth \<Rightarrow> memoryNode \<Rightarrow> bytes" where
  "memoryNode_rlp G n = (case mn_node n of rawNode b \<Rightarrow> b | nd \<Rightarrow> nodeToBytes G nd)"

definition memoryNode_obj :: "geth \<Rightarrow> memoryNode \<Rightarrow> panic + node" where
  "memoryNode_obj G n =
     (case mn_node n of
        rawNode b \<Rightarrow> mustDecodeNode G (Some (hash_bytes (mn_hash n))) b
      | nd \<Rightarrow> expandNode (Some (hash_bytes (mn_hash n))) nd)"

definition isDeleted :: "memoryNode \<Rightarrow> bool" where
  "isDeleted n \<longleftrightarrow> mn_hash n = 0"

record leaf =
  leaf_blob :: bytes
  leaf_parent :: hash

record NodeSet =
  ns_owner :: hash
  ns_nodes :: "bytes \<rightharpoonup> memoryNode"
  ns_leaves :: "leaf list"
  ns_updates :: int
  ns_deletes :: int
  ns_accessList :: "bytes \<rightharpoonup> bytes"

definition NewNodeSet :: "hash \<Rightarrow> (bytes \<rightharpoonup> bytes) \<Rightarrow> NodeSet" where
  "NewNodeSet own acc =
     \<lparr>ns_owner = own, ns_nodes = Map.empty, ns_leaves = [], ns_updates = 0, ns_deletes = 0, ns_accessList = acc\<rparr>"

definition markUpdated :: "NodeSet \<Rightarrow> bytes \<Rightarrow> memoryNode \<Rightarrow> NodeSet" where
  "markUpdated S path n = S\<lparr>ns_nodes := (ns_nodes S)(path \<mapsto> n), ns_updates := ns_updates S + 1\<rparr>"

definition markDeleted :: "NodeSet \<Rightarrow> bytes \<Rightarrow> NodeSet" where
  "markDeleted S path = S\<lparr>ns_nodes := (ns_nodes S)(path \<mapsto> deletedNode), ns_deletes := ns_deletes S + 1\<rparr>"

definition addLeaf :: "NodeSet \<Rightarrow> leaf \<Rightarrow> NodeSet" where
  "addLeaf S l = S\<lparr>ns_leaves := ns_leaves S @ [l]\<rparr>"

definition NodeSet_Size :: "NodeSet \<Rightarrow> int \<times> int" where
  "NodeSet_Size S = (ns_updates S, ns_deletes S)"

text \<open>\<open>paths\<close> is the order in which the map is visited; the nodes come out longest path first
  among those on one branch, in descending order of the paths.\<close>

definition forEachWithOrder :: "NodeSet \<Rightarrow> bytes list \<Rightarrow> ('s \<Rightarrow> bytes \<Rightarrow> memoryNode \<Rightarrow> 's) \<Rightarrow> 's \<Rightarrow> 's" where
  "forEachWithOrder S paths callback s =
     foldl (\<lambda>s path. case ns_nodes S path of None \<Rightarrow> s | Some n \<Rightarrow> callback s path n) s (rev (sort paths))"

definition Hashes :: "NodeSet \<Rightarrow> bytes list \<Rightarrow> hash list" where
  "Hashes S paths = map (\<lambda>path. case ns_nodes S path of None \<Rightarrow> 0 | Some n \<Rightarrow> mn_hash n) paths"

type_synonym MergedNodeSet = "hash \<rightharpoonup> NodeSet"

definition NewMergedNodeSet :: MergedNodeSet where
  "NewMergedNodeSet = Map.empty"

definition Merge :: "MergedNodeSet \<Rightarrow> NodeSet \<Rightarrow> goerr + MergedNodeSet" where
  "Merge sets other =
     (if sets (ns_owner other) \<noteq> None then Inl (Err ''duplicate trie for owner'')
      else Inr (sets(ns_owner other \<mapsto> other)))"

definition NewWithNodeSet :: "NodeSet \<Rightarrow> MergedNodeSet" where
  "NewWithNodeSet S = (case Merge NewMergedNodeSet S of Inl _ \<Rightarrow> NewMergedNodeSet | Inr merged \<Rightarrow> merged)"

definition markDeletions :: "tracer \<Rightarrow> bytes list \<Rightarrow> NodeSet \<Rightarrow> NodeSet" where
  "markDeletions t order S =
     foldl (\<lambda>S path. if ns_accessList S path = None then S else markDeleted S path) S order"

section \<open>Committer\<close>

fun estimateSize :: "node \<Rightarrow> panic + int" where
  "estimateSize (shortNode k v f) =
     (case estimateSize v of Inl p \<Rightarrow> Inl p | Inr s \<Rightarrow> Inr (3 + int (length k) + s))"
| "estimateSize (fullNode cs f) =
     (case mapE (\<lambda>c. if c \<noteq> nilNode then estimateSize c else Inr 1) (take 16 cs) of
        Inl p \<Rightarrow> Inl p | Inr ss \<Rightarrow> Inr (3 + sum_list ss))"
| "estimateSize (valueNode v) = Inr (1 + int (length v))"
| "estimateSize (hashNode h) = Inr (1 + int (length h))"
| "estimateSize n = Inl (PanicMsg ''node type'')"

definition store :: "geth \<Rightarrow> bool \<Rightarrow> NodeSet \<Rightarrow> bytes \<Rightarrow> node \<Rightarrow> panic + (node \<times> NodeSet)" where
  "store G collectLeaf S path n =
     (case cache n of
        Inl p \<Rightarrow> Inl p
      | Inr (None, _) \<Rightarrow> Inr (n, if ns_accessList S path \<noteq> None then markDeleted S path else S)
      | Inr (Some h, _) \<Rightarrow>
          (case estimateSize n of
             Inl p \<Rightarrow> Inl p
           | Inr sz \<Rightarrow>
               (case simplifyNode n of
                  Inl p \<Rightarrow> Inl p
                | Inr raw \<Rightarrow>
                    (let nhash = BytesToHash G h;
                         S1 = markUpdated S path \<lparr>mn_hash = nhash, mn_size = word_of_int sz, mn_node = raw\<rparr>;
                         S2 = (if collectLeaf
                               then (case n of
                                       shortNode _ (valueNode val) _ \<Rightarrow> addLeaf S1 \<lparr>leaf_blob = val, leaf_parent = nhash\<rparr>
                                     | _ \<Rightarrow> S1)
                               else S1)
                     in Inr (hashNode h, S2)))))"

text \<open>
  \<open>commit\<close> gives back the hash or the collapsed node \<open>store\<close> left alone, which is what \<open>store\<close>
  returns. The children loop stops at the seventeenth child, which is taken over.
\<close>

fun commit :: "geth \<Rightarrow> bool \<Rightarrow> NodeSet \<Rightarrow> bytes \<Rightarrow> node \<Rightarrow> panic + (node \<times> NodeSet)"
  and commitChildren :: "geth \<Rightarrow> bool \<Rightarrow> NodeSet \<Rightarrow> bytes \<Rightarrow> nat \<Rightarrow> node list \<Rightarrow> panic + (node list \<times> NodeSet)" where
  "commit G cl S path n =
     (case cache n of
        Inl p \<Rightarrow> Inl p
      | Inr (h, dirty) \<Rightarrow>
          (if h \<noteq> None \<and> \<not> dirty then Inr (hashNode (the h), S)
           else case n of
             shortNode k v f \<Rightarrow>
               (case (if (case v of fullNode _ _ \<Rightarrow> True | _ \<Rightarrow> False) then commit G cl S (path @ k) v else Inr (v, S)) of
                  Inl p \<Rightarrow> Inl p
                | Inr (v', S1) \<Rightarrow>
                    (case hexToCompact k of
                       Inl p \<Rightarrow> Inl p
                     | Inr ck \<Rightarrow> store G cl S1 path (shortNode ck v' f)))
           | fullNode cs f \<Rightarrow>
               (case commitChildren G cl S path 0 cs of
                  Inl p \<Rightarrow> Inl p
                | Inr (kids, S1) \<Rightarrow> store G cl S1 path (fullNode kids f))
           | hashNode hn \<Rightarrow> Inr (hashNode hn, S)
           | _ \<Rightarrow> Inl invalidNode))"
| "commitChildren G cl S path i [] = Inr ([], S)"
| "commitChildren G cl S path i (c # cs) =
     (case (if i < 16 \<and> c \<noteq> nilNode \<and> (case c of hashNode _ \<Rightarrow> False | _ \<Rightarrow> True)
            then commit G cl S (path @ [word_of_nat i]) c else Inr (c, S)) of
        Inl p \<Rightarrow> Inl p
      | Inr (c', S1) \<Rightarrow>
          (case commitChildren G cl S1 path (i + 1) cs of
             Inl p \<Rightarrow> Inl p
           | Inr (cs', S2) \<Rightarrow> Inr (c' # cs', S2)))"

declare commit.simps [simp del]

definition committer_Commit :: "geth \<Rightarrow> bool \<Rightarrow> NodeSet \<Rightarrow> node \<Rightarrow> panic + (node \<times> NodeSet)" where
  "committer_Commit G collectLeaf nodes n =
     (case commit G collectLeaf nodes [] n of
        Inl p \<Rightarrow> Inl p
      | Inr (hashNode h, S) \<Rightarrow> Inr (hashNode h, S)
      | Inr _ \<Rightarrow> Inl (PanicMsg ''interface conversion''))"

section \<open>Hash and Commit of the trie\<close>

text \<open>The root hash, the root with its hashes filled in, and the counter of unhashed changes.\<close>

definition hashRoot :: "geth \<Rightarrow> Trie \<Rightarrow> panic + (node \<times> node) \<times> Trie" where
  "hashRoot G t =
     (if root t = nilNode then Inr ((hashNode (hash_bytes (EmptyRootHash G)), nilNode), t)
      else case hasher_hash G (root t) True of
             Inl p \<Rightarrow> Inl p
           | Inr (hashed, cach) \<Rightarrow> Inr ((hashed, cach), t\<lparr>unhashed := 0\<rparr>))"

definition Trie_Hash :: "geth \<Rightarrow> Trie \<Rightarrow> panic + hash \<times> Trie" where
  "Trie_Hash G t =
     (case hashRoot G t of
        Inl p \<Rightarrow> Inl p
      | Inr ((hashed, cach), t1) \<Rightarrow>
          (case hashed of
             hashNode h \<Rightarrow> Inr (BytesToHash G h, t1\<lparr>root := cach\<rparr>)
           | _ \<Rightarrow> Inl (PanicMsg ''interface conversion'')))"

text \<open>\<open>order\<close> lists the tracer's deletions. A nil node set is \<open>None\<close>; \<open>defer\<close> resets the tracer on
  every return.\<close>

definition Trie_Commit :: "geth \<Rightarrow> bytes list \<Rightarrow> Trie \<Rightarrow> bool \<Rightarrow> panic + (hash \<times> NodeSet option) \<times> Trie" where
  "Trie_Commit G order t collectLeaf =
     (let nodes = markDeletions (trc t) order (NewNodeSet (owner t) (accessed (trc t)))
      in if root t = nilNode
         then Inr ((EmptyRootHash G, Some nodes), t\<lparr>trc := tracer_reset (trc t)\<rparr>)
         else case Trie_Hash G t of
           Inl p \<Rightarrow> Inl p
         | Inr (rootHash, t1) \<Rightarrow>
             (case cache (root t1) of
                Inl p \<Rightarrow> Inl p
              | Inr (hashedNode, dirty) \<Rightarrow>
                  (if \<not> dirty
                   then Inr ((rootHash, None), t1\<lparr>root := (case hashedNode of Some h \<Rightarrow> hashNode h | None \<Rightarrow> hashNode []),
                                                 trc := tracer_reset (trc t1)\<rparr>)
                   else case committer_Commit G collectLeaf nodes (root t1) of
                     Inl p \<Rightarrow> Inl p
                   | Inr (r, S) \<Rightarrow> Inr ((rootHash, Some S), t1\<lparr>root := r, trc := tracer_reset (trc t1)\<rparr>))))"

end
