(* ===== verification/SecureTrie.thy ===== *)
theory SecureTrie
  imports TrieCommit StateCommon
begin

text \<open>
  The trie with hashed keys, \<open>trie_by_cid/trie/secure_trie.go\<close>, and the store of key preimages,
  \<open>preimages.go\<close>. The preimage store is shared by all tries of a database: the methods that use it
  take it as an argument and return it. \<open>ownsCache\<close> is \<open>t == t.secKeyCacheOwner\<close>; the cache map a
  copy shares with its original is never read, since the copy does not own it.
  RLP coding of accounts is third-party code (\<open>accountCodec\<close>).
\<close>

section \<open>Preimages\<close>

record preimageStore =
  ps_disk :: "hash \<Rightarrow> bytes option"
  ps_preimages :: "hash \<rightharpoonup> bytes"
  ps_size :: int

definition newPreimageStore :: "(hash \<Rightarrow> bytes option) \<Rightarrow> preimageStore" where
  "newPreimageStore disk = \<lparr>ps_disk = disk, ps_preimages = Map.empty, ps_size = 0\<rparr>"

text \<open>\<open>order\<close> lists the map that is inserted, with its keys once each.\<close>

definition insertPreimage :: "preimageStore \<Rightarrow> (hash \<times> bytes) list \<Rightarrow> preimageStore" where
  "insertPreimage st order =
     foldl (\<lambda>st (h, pre).
       if ps_preimages st h \<noteq> None then st
       else st\<lparr>ps_preimages := (ps_preimages st)(h \<mapsto> pre), ps_size := ps_size st + 32 + int (length pre)\<rparr>) st order"

definition preimage :: "preimageStore \<Rightarrow> hash \<Rightarrow> bytes option" where
  "preimage st h = (case ps_preimages st h of Some pre \<Rightarrow> Some pre | None \<Rightarrow> ps_disk st h)"

definition preimageStore_size :: "preimageStore \<Rightarrow> int" where
  "preimageStore_size st = ps_size st"

section \<open>StateTrie\<close>

record StateTrie =
  trie :: Trie
  st_preimages :: bool
  secKeyCache :: "bytes \<rightharpoonup> bytes"
  ownsCache :: bool

definition NewStateTrie ::
    "geth \<Rightarrow> ID \<Rightarrow> (hash \<Rightarrow> u64 \<Rightarrow> nodeStore option) \<Rightarrow> bool \<Rightarrow> u64 \<Rightarrow> panic + trieError + StateTrie" where
  "NewStateTrie G i db recording codec =
     (case New G i db codec of
        Inl p \<Rightarrow> Inl p
      | Inr (Inl e) \<Rightarrow> Inr (Inl e)
      | Inr (Inr t) \<Rightarrow> Inr (Inr \<lparr>trie = t, st_preimages = recording, secKeyCache = Map.empty, ownsCache = False\<rparr>))"

definition hashKey :: "geth \<Rightarrow> bytes \<Rightarrow> bytes" where
  "hashKey G key = hash_bytes (keccak256 G key)"

definition getSecKeyCache :: "StateTrie \<Rightarrow> StateTrie" where
  "getSecKeyCache t = (if \<not> ownsCache t then t\<lparr>ownsCache := True, secKeyCache := Map.empty\<rparr> else t)"

text \<open>A call on the inner trie: the outcome, with the inner trie put back.\<close>

definition onTrie :: "StateTrie \<Rightarrow> ('a, Trie) methodOf \<Rightarrow> ('a, StateTrie) methodOf" where
  "onTrie t m = map_option (map_sum id (\<lambda>(r, t'). (r, t\<lparr>trie := t'\<rparr>))) m"

definition StateTrie_TryGet :: "geth \<Rightarrow> StateTrie \<Rightarrow> bytes \<Rightarrow> (bytes option, StateTrie) methodOf" where
  "StateTrie_TryGet G t key = onTrie t (TryGet G (trie t) (hashKey G key))"

definition StateTrie_Get :: "geth \<Rightarrow> StateTrie \<Rightarrow> bytes \<Rightarrow> (panic + bytes option \<times> StateTrie) option" where
  "StateTrie_Get G t key = dropErr (StateTrie_TryGet G t key)"

definition StateTrie_TryGetNode :: "geth \<Rightarrow> StateTrie \<Rightarrow> bytes \<Rightarrow> (bytes option \<times> int, StateTrie) methodOf" where
  "StateTrie_TryGetNode G t path = onTrie t (TryGetNode G (trie t) path)"

text \<open>The end of \<open>TryUpdate\<close> and \<open>TryUpdateAccount\<close>: remember the key unless there is an error.\<close>

definition cacheKey :: "bytes \<Rightarrow> bytes \<Rightarrow> (unit, StateTrie) methodOf \<Rightarrow> (unit, StateTrie) methodOf" where
  "cacheKey hk key m = map_option (map_sum id (\<lambda>((u, err), t).
     ((u, err), if err \<noteq> None then t
                else let t1 = getSecKeyCache t in t1\<lparr>secKeyCache := (secKeyCache t1)(hk \<mapsto> key)\<rparr>))) m"

definition StateTrie_TryUpdate :: "geth \<Rightarrow> StateTrie \<Rightarrow> bytes \<Rightarrow> bytes \<Rightarrow> (unit, StateTrie) methodOf" where
  "StateTrie_TryUpdate G t key val =
     (let hk = hashKey G key in cacheKey hk key (onTrie t (TryUpdate G (trie t) hk val)))"

definition StateTrie_Update :: "geth \<Rightarrow> StateTrie \<Rightarrow> bytes \<Rightarrow> bytes \<Rightarrow> (panic + unit \<times> StateTrie) option" where
  "StateTrie_Update G t key val = dropErr (StateTrie_TryUpdate G t key val)"

definition StateTrie_TryDelete :: "geth \<Rightarrow> StateTrie \<Rightarrow> bytes \<Rightarrow> (unit, StateTrie) methodOf" where
  "StateTrie_TryDelete G t key =
     (let hk = hashKey G key;
          t1 = getSecKeyCache t;
          t2 = t1\<lparr>secKeyCache := (secKeyCache t1)(hk := None)\<rparr>
      in onTrie t2 (TryDelete G (trie t2) hk))"

definition StateTrie_Delete :: "geth \<Rightarrow> StateTrie \<Rightarrow> bytes \<Rightarrow> (panic + unit \<times> StateTrie) option" where
  "StateTrie_Delete G t key = dropErr (StateTrie_TryDelete G t key)"

subsection \<open>Accounts\<close>

text \<open>An error of an account method is one of the trie or one of the codec. \<open>DecodeBytes\<close> fills the
  account it is given, also when it returns an error.\<close>

datatype accountError = TrieFailed trieError | CodecFailed goerr

record accountCodec =
  decodeAccount :: "bytes \<Rightarrow> StateAccount \<times> goerr option"
  encodeAccount :: "StateAccount \<Rightarrow> goerr + bytes"

type_synonym accountResult = "(panic + (StateAccount option \<times> accountError option) \<times> StateTrie) option"

definition decodeResult :: "accountCodec \<Rightarrow> StateTrie \<Rightarrow> (bytes option, Trie) methodOf \<Rightarrow> accountResult" where
  "decodeResult C t m = map_option (map_sum id (\<lambda>((res, err), t').
     ((case err of
         Some e \<Rightarrow> (None, Some (TrieFailed e))
       | None \<Rightarrow> (case res of
           None \<Rightarrow> (None, None)
         | Some blob \<Rightarrow> (case decodeAccount C blob of (acc, e) \<Rightarrow> (Some acc, map_option CodecFailed e)))),
      t\<lparr>trie := t'\<rparr>))) m"

definition TryGetAccount :: "geth \<Rightarrow> accountCodec \<Rightarrow> StateTrie \<Rightarrow> address \<Rightarrow> accountResult" where
  "TryGetAccount G C t addr = decodeResult C t (TryGet G (trie t) (hashKey G (address_bytes addr)))"

definition TryGetAccountByHash :: "geth \<Rightarrow> accountCodec \<Rightarrow> StateTrie \<Rightarrow> hash \<Rightarrow> accountResult" where
  "TryGetAccountByHash G C t addrHsh = decodeResult C t (TryGet G (trie t) (hash_bytes addrHsh))"

definition TryUpdateAccount ::
    "geth \<Rightarrow> accountCodec \<Rightarrow> StateTrie \<Rightarrow> address \<Rightarrow> StateAccount \<Rightarrow> (panic + (unit \<times> accountError option) \<times> StateTrie) option" where
  "TryUpdateAccount G C t addr acc =
     (let hk = hashKey G (address_bytes addr)
      in case encodeAccount C acc of
           Inl e \<Rightarrow> Some (Inr (((), Some (CodecFailed e)), t))
         | Inr blob \<Rightarrow>
             map_option (map_sum id (\<lambda>((u, err), t'). ((u, map_option TrieFailed err), t')))
               (cacheKey hk (address_bytes addr) (onTrie t (TryUpdate G (trie t) hk blob))))"

definition TryDeleteAccount :: "geth \<Rightarrow> StateTrie \<Rightarrow> address \<Rightarrow> (unit, StateTrie) methodOf" where
  "TryDeleteAccount G t addr =
     (let hk = hashKey G (address_bytes addr);
          t1 = getSecKeyCache t;
          t2 = t1\<lparr>secKeyCache := (secKeyCache t1)(hk := None)\<rparr>
      in onTrie t2 (TryDelete G (trie t2) hk))"

subsection \<open>Preimages, hashing, committing, copying\<close>

definition GetKey :: "geth \<Rightarrow> preimageStore \<Rightarrow> StateTrie \<Rightarrow> bytes \<Rightarrow> bytes option \<times> StateTrie" where
  "GetKey G st t shaKey =
     (let t1 = getSecKeyCache t
      in case secKeyCache t1 shaKey of
           Some key \<Rightarrow> (Some key, t1)
         | None \<Rightarrow> (if \<not> st_preimages t1 then None else preimage st (BytesToHash G shaKey), t1))"

text \<open>\<open>keys\<close> is the order in which the key cache is visited, \<open>order\<close> that of the tracer's deletions.\<close>

definition StateTrie_Commit ::
    "geth \<Rightarrow> bytes list \<Rightarrow> bytes list \<Rightarrow> preimageStore \<Rightarrow> StateTrie \<Rightarrow> bool
       \<Rightarrow> panic + (hash \<times> NodeSet option) \<times> preimageStore \<times> StateTrie" where
  "StateTrie_Commit G keys order st t collectLeaf =
     (let t1 = getSecKeyCache t;
          st1 = (if secKeyCache t1 \<noteq> Map.empty \<and> st_preimages t1
                    then insertPreimage st
                           (map (\<lambda>hk. (BytesToHash G hk, case secKeyCache t1 hk of Some key \<Rightarrow> key | None \<Rightarrow> [])) keys)
                    else st);
          t2 = (if secKeyCache t1 \<noteq> Map.empty then t1\<lparr>secKeyCache := Map.empty\<rparr> else t1)
      in case Trie_Commit G order (trie t2) collectLeaf of
           Inl p \<Rightarrow> Inl p
         | Inr (r, t') \<Rightarrow> Inr (r, st1, t2\<lparr>trie := t'\<rparr>))"

definition StateTrie_Hash :: "geth \<Rightarrow> StateTrie \<Rightarrow> panic + hash \<times> StateTrie" where
  "StateTrie_Hash G t = map_sum id (\<lambda>(h, t'). (h, t\<lparr>trie := t'\<rparr>)) (Trie_Hash G (trie t))"

definition StateTrie_Copy :: "StateTrie \<Rightarrow> StateTrie" where
  "StateTrie_Copy t =
     \<lparr>trie = Trie_Copy (trie t), st_preimages = st_preimages t, secKeyCache = secKeyCache t, ownsCache = False\<rparr>"

section \<open>The secure trie is a store over the unhashed keys\<close>

text \<open>
  \<open>secure_content G K t m\<close>: among the keys \<open>K\<close> the trie holds exactly the keys of \<open>m\<close>, each under its hash, and the hash
  has no collision among the keys \<open>K\<close> the trie is used with (the addresses, or the storage
  slots).
\<close>

definition secure_content :: "geth \<Rightarrow> bytes set \<Rightarrow> StateTrie \<Rightarrow> (bytes \<rightharpoonup> bytes) \<Rightarrow> bool" where
  "secure_content G K t m \<longleftrightarrow> inj_on (hashKey G) K \<and> dom m \<subseteq> K \<and>
     (\<exists>mm. content G (trie t) mm \<and> (\<forall>k \<in> K. m k = mm (hashKey G k)))"

lemma getSecKeyCache_simps [simp]: "trie (getSecKeyCache t) = trie t" "ownsCache (getSecKeyCache t)"
  by (simp_all add: getSecKeyCache_def)

lemma secure_upd:
  assumes "inj_on (hashKey G) K" "dom m \<subseteq> K" "\<forall>k \<in> K. m k = mm (hashKey G k)" "k \<in> K"
  shows "dom (m(k := v)) \<subseteq> K" "\<forall>j \<in> K. (m(k := v)) j = (mm(hashKey G k := v)) (hashKey G j)"
  using assms by (auto simp: inj_on_eq_iff split: if_splits)

lemma secure_content_upd:
  assumes "inj_on (hashKey G) K" "dom m \<subseteq> K" "\<forall>k \<in> K. m k = mm (hashKey G k)" "k \<in> K"
    "content G t' (mm(hashKey G k := v))"
  shows "secure_content G K (s\<lparr>trie := t'\<rparr>) (m(k := v))"
  unfolding secure_content_def using assms(1,5) secure_upd [OF assms(1-4), of v]
  by (intro conjI exI [of _ "mm(hashKey G k := v)"]) simp_all

lemma secure_content_trie: "secure_content G K s m \<Longrightarrow> trie s' = trie s \<Longrightarrow> secure_content G K s' m"
  by (simp add: secure_content_def)

lemma write_map_Put: "write_map m (Put k v) = m(k := if v = [] then None else Some v)"
  by simp

lemma secure_put:
  assumes "secure_content G K t m" "k \<in> K"
  shows "\<exists>t'. StateTrie_TryUpdate G t k v = Some (Inr (((), None), t')) \<and> secure_content G K t' (write_map m (Put k v))"
proof -
  obtain mm where mm: "inj_on (hashKey G) K" "dom m \<subseteq> K" "content G (trie t) mm" "\<forall>k \<in> K. m k = mm (hashKey G k)"
    using assms(1) by (auto simp: secure_content_def)
  obtain t' where t': "TryUpdate G (trie t) (hashKey G k) v = Some (Inr (((), None), t'))"
    "content G t' (write_map mm (Put (hashKey G k) v))" using trie.put_law [OF mm(3)] by blast
  have "secure_content G K (t\<lparr>trie := t'\<rparr>) (write_map m (Put k v))"
    using secure_content_upd [OF mm(1,2,4) assms(2)] t'(2) unfolding write_map_Put by blast
  then show ?thesis using t'(1)
    by (auto simp: StateTrie_TryUpdate_def cacheKey_def onTrie_def Let_def simp del: write_map.simps elim!: secure_content_trie)
qed

lemma secure_rem:
  assumes "secure_content G K t m" "k \<in> K"
  shows "\<exists>t'. StateTrie_TryDelete G t k = Some (Inr (((), None), t')) \<and> secure_content G K t' (write_map m (Remove k))"
proof -
  obtain mm where mm: "inj_on (hashKey G) K" "dom m \<subseteq> K" "content G (trie t) mm" "\<forall>k \<in> K. m k = mm (hashKey G k)"
    using assms(1) by (auto simp: secure_content_def)
  obtain t' where t': "TryDelete G (trie t) (hashKey G k) = Some (Inr (((), None), t'))"
    "content G t' (write_map mm (Remove (hashKey G k)))" using trie.rem_law [OF mm(3)] by blast
  then show ?thesis using secure_content_upd [OF mm(1,2,4) assms(2), of t' None]
    by (auto simp: StateTrie_TryDelete_def onTrie_def Let_def)
qed

lemma secure_look:
  assumes "secure_content G K t m" "k \<in> K"
  shows "\<exists>t'. StateTrie_TryGet G t k = Some (Inr ((m k, None), t')) \<and> secure_content G K t' m"
proof -
  obtain mm where mm: "inj_on (hashKey G) K" "dom m \<subseteq> K" "content G (trie t) mm" "\<forall>k \<in> K. m k = mm (hashKey G k)"
    using assms(1) by (auto simp: secure_content_def)
  obtain t' where "TryGet G (trie t) (hashKey G k) = Some (Inr ((mm (hashKey G k), None), t'))" "content G t' mm"
    using trie.look_law [OF mm(3)] by blast
  then show ?thesis using mm assms(2) by (auto simp: StateTrie_TryGet_def onTrie_def secure_content_def)
qed

interpretation secure: byte_store "secure_content G K" "\<lambda>k. k \<in> K" "StateTrie_TryGet G" "StateTrie_TryUpdate G" "StateTrie_TryDelete G"
  for G K
  by unfold_locales (fact secure_look secure_put secure_rem)+

section \<open>Properties\<close>

text \<open>C22: The secure trie refines a map over the keys before hashing: as long as the hash has no
  collision among the keys in use, any sequence of \<open>TryUpdate\<close> and \<open>TryDelete\<close> succeeds and
  every \<open>TryGet\<close> afterwards answers as the map the same writes leave.\<close>

theorem secure_trie_refines_map:
  assumes "secure_content G K t m" "write_key ` set ws \<subseteq> K" "k \<in> K"
  shows "\<exists>t1 t2. write_all (write_step (StateTrie_TryUpdate G) (StateTrie_TryDelete G)) t ws = Some (Inr (((), None), t1))
    \<and> StateTrie_TryGet G t1 k = Some (Inr ((foldl write_map m ws k, None), t2))
    \<and> secure_content G K t2 (foldl write_map m ws)"
proof -
  have "list_all ((\<lambda>k. k \<in> K) \<circ> write_key) ws" using assms(2) by (auto simp: list_all_iff)
  from secure.refines [OF assms(1) this] assms(3) show ?thesis by blast
qed

definition blankStateTrie :: StateTrie where
  "blankStateTrie = \<lparr>trie = blankTrie, st_preimages = True, secKeyCache = Map.empty, ownsCache = False\<rparr>"

lemma blank_secure: "inj_on (hashKey G) K \<Longrightarrow> secure_content G K blankStateTrie Map.empty"
  using blankTrie_empty by (auto simp: secure_content_def blankStateTrie_def)

lemma ref_inj: "inj_on (hashKey ref_geth) {[1], [2]}"
  by (simp add: hashKey_def ref_geth_def be_nat_def)

theorem secure_trie_refines_map_witness:
  "\<exists>t1 t2. write_all (write_step (StateTrie_TryUpdate ref_geth) (StateTrie_TryDelete ref_geth)) blankStateTrie
      [Put [1] [7], Put [2] [8], Remove [1]] = Some (Inr (((), None), t1))
    \<and> StateTrie_TryGet ref_geth t1 [2] = Some (Inr ((Some [8], None), t2))"
  using secure_trie_refines_map [OF blank_secure [OF ref_inj], of "[Put [1] [7], Put [2] [8], Remove [1]]" "[2]"] by auto

text \<open>Writing one account.\<close>

lemma TryUpdateAccount_put:
  "encodeAccount C acc = Inr blob \<Longrightarrow>
   TryUpdateAccount G C t addr acc =
     map_option (map_sum id (\<lambda>((u, err), t'). ((u, map_option TrieFailed err), t'))) (StateTrie_TryUpdate G t (address_bytes addr) blob)"
  by (simp add: TryUpdateAccount_def StateTrie_TryUpdate_def Let_def)

lemma TryGetAccount_look:
  assumes "StateTrie_TryGet G t (address_bytes addr) = Some (Inr ((res, None), t'))"
  shows "TryGetAccount G C t addr = Some (Inr ((case res of None \<Rightarrow> (None, None)
     | Some blob \<Rightarrow> (case decodeAccount C blob of (acc, e) \<Rightarrow> (Some acc, map_option CodecFailed e))), t'))"
  using assms by (auto simp: TryGetAccount_def decodeResult_def StateTrie_TryGet_def onTrie_def)

text \<open>C23: An account written with \<open>TryUpdateAccount\<close> is read back by \<open>TryGetAccount\<close> exactly as it was,
  provided the codec decodes what it encodes; all other accounts stay as they were, and the address
  can be recovered from its hash with \<open>GetKey\<close>, whether preimages are recorded
  or not.\<close>

theorem account_roundtrip:
  assumes "secure_content G K t m" "address_bytes addr \<in> K"
    and "encodeAccount C acc = Inr blob" "blob \<noteq> []" "decodeAccount C blob = (acc, None)"
  shows "\<exists>t1 t2. TryUpdateAccount G C t addr acc = Some (Inr (((), None), t1))
    \<and> TryGetAccount G C t1 addr = Some (Inr ((Some acc, None), t2))
    \<and> secure_content G K t1 (m(address_bytes addr \<mapsto> blob))
    \<and> fst (GetKey G st t1 (hashKey G (address_bytes addr))) = Some (address_bytes addr)"
proof -
  obtain t1 where t1: "StateTrie_TryUpdate G t (address_bytes addr) blob = Some (Inr (((), None), t1))"
    "secure_content G K t1 (m(address_bytes addr \<mapsto> blob))"
    using secure_put [OF assms(1,2), of blob] assms(4) by auto
  obtain t2 where "StateTrie_TryGet G t1 (address_bytes addr) = Some (Inr ((Some blob, None), t2))"
    using secure_look [OF t1(2) assms(2)] by auto
  from TryGetAccount_look [OF this, of C] have "TryGetAccount G C t1 addr = Some (Inr ((Some acc, None), t2))"
    using assms(5) by simp
  moreover have "TryUpdateAccount G C t addr acc = Some (Inr (((), None), t1))"
    using TryUpdateAccount_put [OF assms(3)] t1(1) by simp
  moreover have "ownsCache t1 \<and> secKeyCache t1 (hashKey G (address_bytes addr)) = Some (address_bytes addr)"
    using t1(1) by (auto simp: StateTrie_TryUpdate_def cacheKey_def onTrie_def Let_def split: if_splits)
  ultimately show ?thesis using t1(2) by (auto simp: GetKey_def getSecKeyCache_def Let_def)
qed

definition sampleAccount :: StateAccount where
  "sampleAccount = \<lparr>Nonce = 1, Balance = 5, Root = 2, CodeHash = []\<rparr>"

definition sampleCodec :: accountCodec where
  "sampleCodec = \<lparr>decodeAccount = (\<lambda>b. (sampleAccount, None)), encodeAccount = (\<lambda>a. Inr [0xc1, 0x05])\<rparr>"

theorem account_roundtrip_witness:
  "\<exists>t1 t2. TryUpdateAccount ref_geth sampleCodec blankStateTrie 7 sampleAccount = Some (Inr (((), None), t1))
    \<and> TryGetAccount ref_geth sampleCodec t1 7 = Some (Inr ((Some sampleAccount, None), t2))"
proof -
  have "secure_content ref_geth {address_bytes 7} blankStateTrie Map.empty" by (rule blank_secure) simp
  from account_roundtrip [OF this, of 7 sampleCodec sampleAccount "[0xc1, 0x05]" "newPreimageStore Map.empty"] show ?thesis
    by (simp add: sampleCodec_def) blast
qed

end
