(* ===== verification/CidObject.thy ===== *)
theory CidObject
  imports StateCommon SecureTrie
begin

text \<open>
  State objects of \<open>trie_by_cid/state\<close> (\<open>state_object.go\<close>), whose storage is a trie opened on
  first use. A call returns \<open>None\<close> when a trie lookup does not return (a store whose nodes refer to
  each other in a circle), otherwise a panic or its values with the object and the \<open>StateDB\<close> after
  it. The \<open>Database\<close> interface is a record of its methods, the snapshot layer of go-ethereum another;
  \<open>E\<close> collects them with the account codec. The prefetcher is nil, as it is until
  \<open>StartPrefetcher\<close> is called, which nothing in the repository does.
\<close>

section \<open>Interfaces\<close>

text \<open>Errors of the trie as the error values the \<open>StateDB\<close> keeps: their message.\<close>

fun trieErr :: "trieError \<Rightarrow> goerr" where
  "trieErr (MissingNodeError own h p w) =
     Wrap ''missing trie node'' (hash_bytes h @ hash_bytes own @ p) (case w of None \<Rightarrow> Err ''<nil>'' | Some e \<Rightarrow> e)"
| "trieErr NonConsensusNode = Err ''non-consensus node''"
| "trieErr (StateNotFound r) = Wrap ''state not found'' (hash_bytes r) (Err '''')"

fun accountErr :: "accountError \<Rightarrow> goerr" where
  "accountErr (TrieFailed e) = trieErr e"
| "accountErr (CodecFailed e) = e"

record Database =
  OpenTrie :: "hash \<Rightarrow> panic + trieError + StateTrie"
  OpenStorageTrie :: "hash \<Rightarrow> hash \<Rightarrow> hash \<Rightarrow> panic + trieError + StateTrie"
  CopyTrie :: "StateTrie \<Rightarrow> StateTrie"
  db_ContractCode :: "hash \<Rightarrow> bytes option \<times> goerr option"
  db_ContractCodeSize :: "hash \<Rightarrow> int \<times> goerr option"

text \<open>\<open>snapshot.Snapshot\<close> and its slim accounts, of go-ethereum.\<close>

record slimAccount =
  slim_Nonce :: u64
  slim_Balance :: "int option"
  slim_Root :: bytes
  slim_CodeHash :: bytes

record snapshot =
  snap_Account :: "hash \<Rightarrow> slimAccount option \<times> goerr option"
  snap_Storage :: "hash \<Rightarrow> hash \<Rightarrow> bytes \<times> goerr option"

record stateEnv =
  sdb :: Database
  codec :: accountCodec
  TrimLeftZeroes :: "bytes \<Rightarrow> bytes"
  SlimAccountRLP :: "u64 \<Rightarrow> int \<Rightarrow> hash \<Rightarrow> bytes \<Rightarrow> bytes"

section \<open>Objects and the state they belong to\<close>

record cidObject = stateObject +
  obj_trie :: "StateTrie option"

text \<open>The fields of \<open>StateDB\<close> beyond the common ones. The durations are left out; the counters stay.\<close>

record cidDB = "cidObject StateDB" +
  db_trie :: StateTrie
  originalRoot :: hash
  snaps :: "(hash \<Rightarrow> snapshot option) option"
  snap :: "snapshot option"
  snapAccounts :: "hash \<rightharpoonup> bytes"
  snapStorage :: "hash \<rightharpoonup> (hash \<rightharpoonup> bytes option)"
  AccountUpdated :: int
  StorageUpdated :: int
  AccountDeleted :: int
  StorageDeleted :: int

definition empty :: "geth \<Rightarrow> cidObject \<Rightarrow> bool" where
  "empty G so \<longleftrightarrow> Nonce (data so) = 0 \<and> Balance (data so) = 0 \<and> CodeHash (data so) = hash_bytes (EmptyCodeHash G)"

definition newObject :: "geth \<Rightarrow> address \<Rightarrow> rawAccount \<Rightarrow> cidObject" where
  "newObject G a d =
     \<lparr>address = a, addrHash = keccak256 G (address_bytes a),
      data = \<lparr>Nonce = raw_Nonce d,
              Balance = (case raw_Balance d of None \<Rightarrow> 0 | Some b \<Rightarrow> b),
              Root = (if raw_Root d = 0 then EmptyRootHash G else raw_Root d),
              CodeHash = (case raw_CodeHash d of None \<Rightarrow> hash_bytes (EmptyCodeHash G) | Some h \<Rightarrow> h)\<rparr>,
      code = None, originStorage = Map.empty, pendingStorage = Map.empty, dirtyStorage = Map.empty,
      dirtyCode = False, suicided = False, deleted = False, obj_trie = None\<rparr>"

definition touch :: "cidDB \<Rightarrow> cidObject \<Rightarrow> cidDB" where
  "touch s so =
     (let s1 = journal_append s (touchChange (address so))
      in if address so = ripemd then s1\<lparr>journal := dirty (journal s1) (address so)\<rparr> else s1)"

section \<open>Storage\<close>

definition getTrie :: "stateEnv \<Rightarrow> cidDB \<Rightarrow> cidObject \<Rightarrow> ((goerr + StateTrie) \<times> cidObject) res" where
  "getTrie E s so =
     (case obj_trie so of
        Some tr \<Rightarrow> okR (Inr tr, so)
      | None \<Rightarrow>
          (case OpenStorageTrie (sdb E) (originalRoot s) (addrHash so) (Root (data so)) of
             Inl p \<Rightarrow> Some (Inl p)
           | Inr (Inl e) \<Rightarrow> okR (Inl (trieErr e), so)
           | Inr (Inr tr) \<Rightarrow> okR (Inr tr, so\<lparr>obj_trie := Some tr\<rparr>)))"

text \<open>The end of \<open>GetCommittedState\<close>: decode what was read and cache it.\<close>

definition decodeSlot :: "geth \<Rightarrow> bytes \<Rightarrow> hash \<Rightarrow> cidObject \<Rightarrow> cidDB \<Rightarrow> hash \<times> cidObject \<times> cidDB" where
  "decodeSlot G enc key so s =
     (let (v, s1) = (if length enc > 0
                     then let (_, content, _, err) = rlpSplit G enc
                          in (BytesToHash G content, case err of None \<Rightarrow> s | Some e \<Rightarrow> setError s e)
                     else (0, s))
      in (v, so\<lparr>originStorage := (originStorage so)(key \<mapsto> v)\<rparr>, s1))"

definition snapSlot :: "geth \<Rightarrow> cidDB \<Rightarrow> cidObject \<Rightarrow> hash \<Rightarrow> bytes option" where
  "snapSlot G s so key =
     (case snap s of
        None \<Rightarrow> None
      | Some sn \<Rightarrow> (case snap_Storage sn (addrHash so) (keccak256 G (hash_bytes key)) of
                     (enc, None) \<Rightarrow> Some enc | (_, Some _) \<Rightarrow> None))"

definition obj_GetCommittedState ::
    "geth \<Rightarrow> stateEnv \<Rightarrow> cidDB \<Rightarrow> cidObject \<Rightarrow> hash \<Rightarrow> (hash \<times> cidObject \<times> cidDB) res" where
  "obj_GetCommittedState G E s so key =
     (case pendingStorage so key of
        Some v \<Rightarrow> okR (v, so, s)
      | None \<Rightarrow>
     (case originStorage so key of
        Some v \<Rightarrow> okR (v, so, s)
      | None \<Rightarrow>
          (if address so \<in> stateObjectsDestruct s then okR (0, so, s)
           else case snapSlot G s so key of
             Some enc \<Rightarrow> okR (decodeSlot G enc key so s)
           | None \<Rightarrow>
               bindR (getTrie E s so) (\<lambda>(r, so1).
                 case r of
                   Inl e \<Rightarrow> okR (0, so1, setError s e)
                 | Inr tr \<Rightarrow>
                     bindR (StateTrie_TryGet G tr (hash_bytes key)) (\<lambda>((enc, err), tr1).
                       let so2 = so1\<lparr>obj_trie := Some tr1\<rparr>
                       in case err of
                            Some e \<Rightarrow> okR (0, so2, setError s (trieErr e))
                          | None \<Rightarrow> okR (decodeSlot G (case enc of None \<Rightarrow> [] | Some b \<Rightarrow> b) key so2 s))))))"

definition obj_GetState ::
    "geth \<Rightarrow> stateEnv \<Rightarrow> cidDB \<Rightarrow> cidObject \<Rightarrow> hash \<Rightarrow> (hash \<times> cidObject \<times> cidDB) res" where
  "obj_GetState G E s so key =
     (case dirtyStorage so key of
        Some v \<Rightarrow> okR (v, so, s)
      | None \<Rightarrow> obj_GetCommittedState G E s so key)"

definition obj_SetState ::
    "geth \<Rightarrow> stateEnv \<Rightarrow> cidDB \<Rightarrow> cidObject \<Rightarrow> hash \<Rightarrow> hash \<Rightarrow> (cidObject \<times> cidDB) res" where
  "obj_SetState G E s so key v =
     bindR (obj_GetState G E s so key) (\<lambda>(prev, so1, s1).
       if prev = v then okR (so1, s1)
       else okR (setState so1 key v, journal_append s1 (storageChange (address so1) key prev)))"

definition obj_finalise :: "cidObject \<Rightarrow> cidObject" where
  "obj_finalise so =
     (let so1 = so\<lparr>pendingStorage := pendingStorage so ++ dirtyStorage so\<rparr>
      in if dirtyStorage so1 \<noteq> Map.empty then so1\<lparr>dirtyStorage := Map.empty\<rparr> else so1)"

text \<open>
  One round of the loop of \<open>updateTrie\<close>, on an object whose trie is open: the error with which the
  loop stops, if any. \<open>snapStorage\<close> holds nil for a deleted slot.
\<close>

definition snapWrite :: "geth \<Rightarrow> cidDB \<Rightarrow> cidObject \<Rightarrow> hash \<Rightarrow> bytes option \<Rightarrow> cidDB" where
  "snapWrite G s so key v =
     (if snap s = None then s
      else let storage = (case snapStorage s (addrHash so) of None \<Rightarrow> Map.empty | Some m \<Rightarrow> m)
           in s\<lparr>snapStorage := (snapStorage s)(addrHash so \<mapsto> storage(keccak256 G (hash_bytes key) \<mapsto> v))\<rparr>)"

definition updateSlot ::
    "geth \<Rightarrow> stateEnv \<Rightarrow> cidObject \<Rightarrow> cidDB \<Rightarrow> StateTrie \<Rightarrow> hash \<Rightarrow> hash \<Rightarrow> (goerr option \<times> cidObject \<times> cidDB) res" where
  "updateSlot G E so s tr key v =
     (let so1 = so\<lparr>originStorage := (originStorage so)(key \<mapsto> v)\<rparr>
      in if v = 0
         then bindR (StateTrie_TryDelete G tr (hash_bytes key)) (\<lambda>((_, err), tr1).
                let so2 = so1\<lparr>obj_trie := Some tr1\<rparr>
                in case err of
                     Some e \<Rightarrow> okR (Some (trieErr e), so2, setError s (trieErr e))
                   | None \<Rightarrow> okR (None, so2, snapWrite G (s\<lparr>StorageDeleted := StorageDeleted s + 1\<rparr>) so2 key None))
         else let enc = rlpString G (TrimLeftZeroes E (hash_bytes v))
              in bindR (StateTrie_TryUpdate G tr (hash_bytes key) enc) (\<lambda>((_, err), tr1).
                   let so2 = so1\<lparr>obj_trie := Some tr1\<rparr>
                   in case err of
                        Some e \<Rightarrow> okR (Some (trieErr e), so2, setError s (trieErr e))
                      | None \<Rightarrow> okR (None, so2, snapWrite G (s\<lparr>StorageUpdated := StorageUpdated s + 1\<rparr>) so2 key (Some enc))))"

fun updateSlots ::
    "geth \<Rightarrow> stateEnv \<Rightarrow> cidObject \<Rightarrow> cidDB \<Rightarrow> hash list \<Rightarrow> (goerr option \<times> cidObject \<times> cidDB) res" where
  "updateSlots G E so s [] = okR (None, so, s)"
| "updateSlots G E so s (key # keys) =
     (case (pendingStorage so key, obj_trie so) of
        (Some v, Some tr) \<Rightarrow>
          (if v = storage_at (originStorage so) key then updateSlots G E so s keys
           else bindR (updateSlot G E so s tr key v) (\<lambda>(err, so1, s1).
                  if err \<noteq> None then okR (err, so1, s1) else updateSlots G E so1 s1 keys))
      | _ \<Rightarrow> updateSlots G E so s keys)"

text \<open>\<open>order\<close> is the order in which the loop visits \<open>pendingStorage\<close>. The trie returned may be nil.\<close>

definition obj_updateTrie ::
    "geth \<Rightarrow> stateEnv \<Rightarrow> hash list \<Rightarrow> cidDB \<Rightarrow> cidObject \<Rightarrow> ((goerr + StateTrie option) \<times> cidObject \<times> cidDB) res" where
  "obj_updateTrie G E order s so =
     (let so0 = obj_finalise so
      in if pendingStorage so0 = Map.empty then okR (Inr (obj_trie so0), so0, s)
         else bindR (getTrie E s so0) (\<lambda>(r, so1).
           case r of
             Inl e \<Rightarrow> okR (Inl e, so1, setError s e)
           | Inr tr \<Rightarrow>
               bindR (updateSlots G E so1 s order) (\<lambda>(err, so2, s2).
                 case err of
                   Some e \<Rightarrow> okR (Inl e, so2, s2)
                 | None \<Rightarrow> okR (Inr (obj_trie so2), so2\<lparr>pendingStorage := Map.empty\<rparr>, s2))))"

definition obj_updateRoot ::
    "geth \<Rightarrow> stateEnv \<Rightarrow> hash list \<Rightarrow> cidDB \<Rightarrow> cidObject \<Rightarrow> (cidObject \<times> cidDB) res" where
  "obj_updateRoot G E order s so =
     bindR (obj_updateTrie G E order s so) (\<lambda>(r, so1, s1).
       case r of
         Inl e \<Rightarrow> okR (so1, s1)
       | Inr None \<Rightarrow> okR (so1, s1)
       | Inr (Some tr) \<Rightarrow>
           bindR (Some (StateTrie_Hash G tr)) (\<lambda>(h, tr1).
             okR (so1\<lparr>obj_trie := Some tr1, data := (data so1)\<lparr>Root := h\<rparr>\<rparr>, s1)))"

section \<open>Balance, nonce, code\<close>

definition obj_SetBalance :: "cidDB \<Rightarrow> cidObject \<Rightarrow> int \<Rightarrow> cidObject \<times> cidDB" where
  "obj_SetBalance s so amount =
     (setBalance so amount, journal_append s (balanceChange (address so) (Balance (data so))))"

definition obj_AddBalance :: "geth \<Rightarrow> cidDB \<Rightarrow> cidObject \<Rightarrow> int \<Rightarrow> cidObject \<times> cidDB" where
  "obj_AddBalance G s so amount =
     (if amount = 0 then (if empty G so then (so, touch s so) else (so, s))
      else obj_SetBalance s so (Balance (data so) + amount))"

definition obj_SubBalance :: "cidDB \<Rightarrow> cidObject \<Rightarrow> int \<Rightarrow> cidObject \<times> cidDB" where
  "obj_SubBalance s so amount =
     (if amount = 0 then (so, s) else obj_SetBalance s so (Balance (data so) - amount))"

definition obj_SetNonce :: "cidDB \<Rightarrow> cidObject \<Rightarrow> u64 \<Rightarrow> cidObject \<times> cidDB" where
  "obj_SetNonce s so nonce =
     (setNonce so nonce, journal_append s (nonceChange (address so) (Nonce (data so))))"

definition obj_Code :: "geth \<Rightarrow> stateEnv \<Rightarrow> cidDB \<Rightarrow> cidObject \<Rightarrow> bytes option \<times> cidObject \<times> cidDB" where
  "obj_Code G E s so =
     (case code so of
        Some c \<Rightarrow> (Some c, so, s)
      | None \<Rightarrow>
          (if CodeHash (data so) = hash_bytes (EmptyCodeHash G) then (None, so, s)
           else let (c, err) = db_ContractCode (sdb E) (BytesToHash G (CodeHash (data so)));
                    s1 = (case err of None \<Rightarrow> s
                          | Some e \<Rightarrow> setError s (Wrap ''can't load code hash'' (CodeHash (data so)) e))
                in (c, so\<lparr>code := c\<rparr>, s1)))"

definition obj_CodeSize :: "geth \<Rightarrow> stateEnv \<Rightarrow> cidDB \<Rightarrow> cidObject \<Rightarrow> int \<times> cidDB" where
  "obj_CodeSize G E s so =
     (case code so of
        Some c \<Rightarrow> (int (length c), s)
      | None \<Rightarrow>
          (if CodeHash (data so) = hash_bytes (EmptyCodeHash G) then (0, s)
           else let (n, err) = db_ContractCodeSize (sdb E) (BytesToHash G (CodeHash (data so)))
                in (n, case err of None \<Rightarrow> s
                       | Some e \<Rightarrow> setError s (Wrap ''can't load code size'' (CodeHash (data so)) e))))"

definition obj_SetCode ::
    "geth \<Rightarrow> stateEnv \<Rightarrow> cidDB \<Rightarrow> cidObject \<Rightarrow> hash \<Rightarrow> bytes option \<Rightarrow> cidObject \<times> cidDB" where
  "obj_SetCode G E s so codeHash c =
     (let (prevcode, so1, s1) = obj_Code G E s so
      in (setCode so1 codeHash c, journal_append s1 (codeChange (address so1) prevcode (CodeHash (data so1)))))"

definition accountOf :: "StateAccount \<Rightarrow> rawAccount" where
  "accountOf d = \<lparr>raw_Nonce = Nonce d, raw_Balance = Some (Balance d), raw_Root = Root d, raw_CodeHash = Some (CodeHash d)\<rparr>"

definition obj_deepCopy :: "geth \<Rightarrow> stateEnv \<Rightarrow> cidObject \<Rightarrow> cidObject" where
  "obj_deepCopy G E so =
     (newObject G (address so) (accountOf (data so)))
       \<lparr>obj_trie := map_option (CopyTrie (sdb E)) (obj_trie so),
        code := code so,
        dirtyStorage := Storage_Copy (dirtyStorage so),
        originStorage := Storage_Copy (originStorage so),
        pendingStorage := Storage_Copy (pendingStorage so),
        suicided := suicided so, dirtyCode := dirtyCode so, deleted := deleted so\<rparr>"

end
