(* ===== verification/CidState.thy ===== *)
theory CidState
  imports CidObject
begin

text \<open>
  The \<open>StateDB\<close> of \<open>trie_by_cid/state\<close> (\<open>statedb.go\<close> and the \<open>revert\<close> methods of \<open>journal.go\<close>): accounts
  live in a secure trie, each with a storage trie of its own, and \<open>IntermediateRoot\<close> writes the
  finalised changes back. Loops over Go maps take the order of the keys as an argument.
  Operations that do not touch state objects are those of \<open>StateCommon\<close>.
\<close>

section \<open>Opening a state\<close>

definition New :: "stateEnv \<Rightarrow> hash \<Rightarrow> (hash \<Rightarrow> snapshot option) option \<Rightarrow> panic + trieError + cidDB" where
  "New E rt snapsTree =
     (case OpenTrie (sdb E) rt of
        Inl p \<Rightarrow> Inl p
      | Inr (Inl e) \<Rightarrow> Inr (Inl e)
      | Inr (Inr tr) \<Rightarrow>
          (let sn = (case snapsTree of None \<Rightarrow> None | Some f \<Rightarrow> f rt)
           in Inr (Inr
             \<lparr>stateObjects = Map.empty, stateObjectsPending = {}, stateObjectsDirty = {},
              stateObjectsDestruct = {}, dbErr = None, refund = 0, thash = 0, txIndex = 0,
              logs = Map.empty, logSize = 0, preimages = Map.empty, accList = newAccessList,
              transient = newTransientStorage, journal = newJournal, validRevisions = [],
              nextRevisionId = 0, db_trie = tr, originalRoot = rt, snaps = snapsTree, snap = sn,
              snapAccounts = Map.empty, snapStorage = Map.empty,
              AccountUpdated = 0, StorageUpdated = 0, AccountDeleted = 0, StorageDeleted = 0\<rparr>)))"

section \<open>Looking up and creating objects\<close>

definition setStateObject :: "cidDB \<Rightarrow> cidObject \<Rightarrow> cidDB" where
  "setStateObject s so = s\<lparr>stateObjects := (stateObjects s)(address so \<mapsto> so)\<rparr>"

text \<open>What the snapshot knows: nothing to use, that there is no account, or the account.\<close>

definition snapLookup :: "geth \<Rightarrow> cidDB \<Rightarrow> address \<Rightarrow> rawAccount option option" where
  "snapLookup G s a =
     (case snap s of
        None \<Rightarrow> None
      | Some sn \<Rightarrow>
          (case snap_Account sn (keccak256 G (address_bytes a)) of
             (_, Some _) \<Rightarrow> None
           | (None, None) \<Rightarrow> Some None
           | (Some acc, None) \<Rightarrow>
               (let root = BytesToHash G (slim_Root acc)
                in Some (Some
                  \<lparr>raw_Nonce = slim_Nonce acc, raw_Balance = slim_Balance acc,
                   raw_Root = (if root = 0 then EmptyRootHash G else root),
                   raw_CodeHash = Some (if slim_CodeHash acc = [] then hash_bytes (EmptyCodeHash G)
                                        else slim_CodeHash acc)\<rparr>))))"

definition getDeletedStateObject ::
    "geth \<Rightarrow> stateEnv \<Rightarrow> cidDB \<Rightarrow> address \<Rightarrow> (cidObject option \<times> cidDB) res" where
  "getDeletedStateObject G E s a =
     (case stateObjects s a of
        Some so \<Rightarrow> okR (Some so, s)
      | None \<Rightarrow>
          (case snapLookup G s a of
             Some None \<Rightarrow> okR (None, s)
           | Some (Some acc) \<Rightarrow> (let so = newObject G a acc in okR (Some so, setStateObject s so))
           | None \<Rightarrow>
               bindR (TryGetAccount G (codec E) (db_trie s) a) (\<lambda>((d, err), tr).
                 let s1 = s\<lparr>db_trie := tr\<rparr>
                 in case err of
                      Some e \<Rightarrow> okR (None, setError s1 (Wrap ''getDeleteStateObject'' (address_bytes a) (accountErr e)))
                    | None \<Rightarrow>
                        (case d of
                           None \<Rightarrow> okR (None, s1)
                         | Some acc \<Rightarrow>
                             (let so = newObject G a (accountOf acc) in okR (Some so, setStateObject s1 so))))))"

definition getStateObject ::
    "geth \<Rightarrow> stateEnv \<Rightarrow> cidDB \<Rightarrow> address \<Rightarrow> (cidObject option \<times> cidDB) res" where
  "getStateObject G E s a =
     bindR (getDeletedStateObject G E s a) (\<lambda>(obj, s1).
       case obj of
         None \<Rightarrow> okR (None, s1)
       | Some so \<Rightarrow> okR (if deleted so then None else Some so, s1))"

definition createObject ::
    "geth \<Rightarrow> stateEnv \<Rightarrow> cidDB \<Rightarrow> address \<Rightarrow> (cidObject \<times> cidObject option \<times> cidDB) res" where
  "createObject G E s a =
     bindR (getDeletedStateObject G E s a) (\<lambda>(prev, s1).
       let prevdestruct = (case prev of None \<Rightarrow> False | Some p \<Rightarrow> address p \<in> stateObjectsDestruct s1);
           s2 = (case prev of None \<Rightarrow> s1
                 | Some p \<Rightarrow> (if \<not> prevdestruct
                             then s1\<lparr>stateObjectsDestruct := insert (address p) (stateObjectsDestruct s1)\<rparr>
                             else s1));
           newobj = newObject G a emptyStateAccount;
           s3 = (case prev of None \<Rightarrow> journal_append s2 (createObjectChange a)
                 | Some p \<Rightarrow> journal_append s2 (resetObjectChange p prevdestruct));
           s4 = setStateObject s3 newobj
       in case prev of
            None \<Rightarrow> okR (newobj, None, s4)
          | Some p \<Rightarrow> okR (newobj, if deleted p then None else Some p, s4))"

definition GetOrNewStateObject ::
    "geth \<Rightarrow> stateEnv \<Rightarrow> cidDB \<Rightarrow> address \<Rightarrow> (cidObject \<times> cidDB) res" where
  "GetOrNewStateObject G E s a =
     bindR (getStateObject G E s a) (\<lambda>(obj, s1).
       case obj of
         Some so \<Rightarrow> okR (so, s1)
       | None \<Rightarrow> bindR (createObject G E s1 a) (\<lambda>(newobj, _, s2). okR (newobj, s2)))"

definition CreateAccount :: "geth \<Rightarrow> stateEnv \<Rightarrow> cidDB \<Rightarrow> address \<Rightarrow> cidDB res" where
  "CreateAccount G E s a =
     bindR (createObject G E s a) (\<lambda>(newObj, prev, s1).
       case prev of
         None \<Rightarrow> okR s1
       | Some p \<Rightarrow> okR (setStateObject s1 (setBalance newObj (Balance (data p)))))"

section \<open>Reads\<close>

text \<open>The getters look an object up and read it, or return a default.\<close>

definition readObject ::
    "geth \<Rightarrow> stateEnv \<Rightarrow> cidDB \<Rightarrow> address \<Rightarrow> 'a \<Rightarrow> (cidObject \<Rightarrow> 'a) \<Rightarrow> ('a \<times> cidDB) res" where
  "readObject G E s a dflt f =
     bindR (getStateObject G E s a) (\<lambda>(obj, s1). okR (case obj of None \<Rightarrow> dflt | Some so \<Rightarrow> f so, s1))"

definition Exist :: "geth \<Rightarrow> stateEnv \<Rightarrow> cidDB \<Rightarrow> address \<Rightarrow> (bool \<times> cidDB) res" where
  "Exist G E s a = readObject G E s a False (\<lambda>_. True)"

definition Empty :: "geth \<Rightarrow> stateEnv \<Rightarrow> cidDB \<Rightarrow> address \<Rightarrow> (bool \<times> cidDB) res" where
  "Empty G E s a = readObject G E s a True (empty G)"

definition GetBalance :: "geth \<Rightarrow> stateEnv \<Rightarrow> cidDB \<Rightarrow> address \<Rightarrow> (int \<times> cidDB) res" where
  "GetBalance G E s a = readObject G E s a 0 (\<lambda>so. Balance (data so))"

definition GetNonce :: "geth \<Rightarrow> stateEnv \<Rightarrow> cidDB \<Rightarrow> address \<Rightarrow> (u64 \<times> cidDB) res" where
  "GetNonce G E s a = readObject G E s a 0 (\<lambda>so. Nonce (data so))"

definition GetCodeHash :: "geth \<Rightarrow> stateEnv \<Rightarrow> cidDB \<Rightarrow> address \<Rightarrow> (hash \<times> cidDB) res" where
  "GetCodeHash G E s a = readObject G E s a 0 (\<lambda>so. BytesToHash G (CodeHash (data so)))"

definition HasSuicided :: "geth \<Rightarrow> stateEnv \<Rightarrow> cidDB \<Rightarrow> address \<Rightarrow> (bool \<times> cidDB) res" where
  "HasSuicided G E s a = readObject G E s a False suicided"

definition GetCode :: "geth \<Rightarrow> stateEnv \<Rightarrow> cidDB \<Rightarrow> address \<Rightarrow> (bytes option \<times> cidDB) res" where
  "GetCode G E s a =
     bindR (getStateObject G E s a) (\<lambda>(obj, s1).
       case obj of
         None \<Rightarrow> okR (None, s1)
       | Some so \<Rightarrow> (let (c, so1, s2) = obj_Code G E s1 so in okR (c, setStateObject s2 so1)))"

definition GetCodeSize :: "geth \<Rightarrow> stateEnv \<Rightarrow> cidDB \<Rightarrow> address \<Rightarrow> (int \<times> cidDB) res" where
  "GetCodeSize G E s a =
     bindR (getStateObject G E s a) (\<lambda>(obj, s1).
       case obj of
         None \<Rightarrow> okR (0, s1)
       | Some so \<Rightarrow> okR (obj_CodeSize G E s1 so))"

definition GetState :: "geth \<Rightarrow> stateEnv \<Rightarrow> cidDB \<Rightarrow> address \<Rightarrow> hash \<Rightarrow> (hash \<times> cidDB) res" where
  "GetState G E s a key =
     bindR (getStateObject G E s a) (\<lambda>(obj, s1).
       case obj of
         None \<Rightarrow> okR (0, s1)
       | Some so \<Rightarrow> bindR (obj_GetState G E s1 so key) (\<lambda>(v, so1, s2). okR (v, setStateObject s2 so1)))"

definition GetCommittedState :: "geth \<Rightarrow> stateEnv \<Rightarrow> cidDB \<Rightarrow> address \<Rightarrow> hash \<Rightarrow> (hash \<times> cidDB) res" where
  "GetCommittedState G E s a key =
     bindR (getStateObject G E s a) (\<lambda>(obj, s1).
       case obj of
         None \<Rightarrow> okR (0, s1)
       | Some so \<Rightarrow> bindR (obj_GetCommittedState G E s1 so key) (\<lambda>(v, so1, s2). okR (v, setStateObject s2 so1)))"

text \<open>\<open>StorageTrie\<close> works on a deep copy, which belongs to the same \<open>StateDB\<close>: errors are memorised there.\<close>

definition StorageTrie ::
    "geth \<Rightarrow> stateEnv \<Rightarrow> hash list \<Rightarrow> cidDB \<Rightarrow> address \<Rightarrow> ((goerr + StateTrie option) \<times> cidDB) res" where
  "StorageTrie G E order s a =
     bindR (getStateObject G E s a) (\<lambda>(obj, s1).
       case obj of
         None \<Rightarrow> okR (Inr None, s1)
       | Some so \<Rightarrow>
           bindR (obj_updateTrie G E order s1 (obj_deepCopy G E so)) (\<lambda>(r, cpy, s2).
             case r of
               Inl e \<Rightarrow> okR (Inl e, s2)
             | Inr _ \<Rightarrow> bindR (getTrie E s2 cpy) (\<lambda>(r2, _).
                 case r2 of Inl e \<Rightarrow> okR (Inl e, s2) | Inr tr \<Rightarrow> okR (Inr (Some tr), s2))))"

section \<open>Writes\<close>

text \<open>The setters get or create the object, call its method and keep the changed object.\<close>

definition writeObject ::
    "geth \<Rightarrow> stateEnv \<Rightarrow> cidDB \<Rightarrow> address \<Rightarrow> (cidDB \<Rightarrow> cidObject \<Rightarrow> cidObject \<times> cidDB) \<Rightarrow> cidDB res" where
  "writeObject G E s a f =
     bindR (GetOrNewStateObject G E s a) (\<lambda>(so, s1). let (so1, s2) = f s1 so in okR (setStateObject s2 so1))"

definition AddBalance :: "geth \<Rightarrow> stateEnv \<Rightarrow> cidDB \<Rightarrow> address \<Rightarrow> int \<Rightarrow> cidDB res" where
  "AddBalance G E s a amount = writeObject G E s a (\<lambda>s so. obj_AddBalance G s so amount)"

definition SubBalance :: "geth \<Rightarrow> stateEnv \<Rightarrow> cidDB \<Rightarrow> address \<Rightarrow> int \<Rightarrow> cidDB res" where
  "SubBalance G E s a amount = writeObject G E s a (\<lambda>s so. obj_SubBalance s so amount)"

definition SetBalance :: "geth \<Rightarrow> stateEnv \<Rightarrow> cidDB \<Rightarrow> address \<Rightarrow> int \<Rightarrow> cidDB res" where
  "SetBalance G E s a amount = writeObject G E s a (\<lambda>s so. obj_SetBalance s so amount)"

definition SetNonce :: "geth \<Rightarrow> stateEnv \<Rightarrow> cidDB \<Rightarrow> address \<Rightarrow> u64 \<Rightarrow> cidDB res" where
  "SetNonce G E s a nonce = writeObject G E s a (\<lambda>s so. obj_SetNonce s so nonce)"

definition SetCode :: "geth \<Rightarrow> stateEnv \<Rightarrow> cidDB \<Rightarrow> address \<Rightarrow> bytes option \<Rightarrow> cidDB res" where
  "SetCode G E s a c =
     writeObject G E s a (\<lambda>s so. obj_SetCode G E s so (keccak256 G (case c of None \<Rightarrow> [] | Some b \<Rightarrow> b)) c)"

definition SetState :: "geth \<Rightarrow> stateEnv \<Rightarrow> cidDB \<Rightarrow> address \<Rightarrow> hash \<Rightarrow> hash \<Rightarrow> cidDB res" where
  "SetState G E s a key v =
     bindR (GetOrNewStateObject G E s a) (\<lambda>(so, s1).
       bindR (obj_SetState G E s1 so key v) (\<lambda>(so1, s2). okR (setStateObject s2 so1)))"

text \<open>\<open>kvs\<close> lists the map passed to \<open>SetStorage\<close>.\<close>

definition SetStorage :: "geth \<Rightarrow> stateEnv \<Rightarrow> cidDB \<Rightarrow> address \<Rightarrow> (hash \<times> hash) list \<Rightarrow> cidDB res" where
  "SetStorage G E s a kvs =
     (let s0 = s\<lparr>stateObjectsDestruct := insert a (stateObjectsDestruct s)\<rparr>
      in bindR (GetOrNewStateObject G E s0 a) (\<lambda>(so, s1).
           bindR (foldR (\<lambda>(so, s) (k, v). obj_SetState G E s so k v) (so, s1) kvs) (\<lambda>(so1, s2).
             okR (setStateObject s2 so1))))"

definition Suicide :: "geth \<Rightarrow> stateEnv \<Rightarrow> cidDB \<Rightarrow> address \<Rightarrow> (bool \<times> cidDB) res" where
  "Suicide G E s a =
     bindR (getStateObject G E s a) (\<lambda>(obj, s1).
       case obj of
         None \<Rightarrow> okR (False, s1)
       | Some so \<Rightarrow>
           (let s2 = journal_append s1 (suicideChange a (suicided so) (Balance (data so)));
                so1 = markSuicided so;
                so2 = so1\<lparr>data := (data so1)\<lparr>Balance := 0\<rparr>\<rparr>
            in okR (True, setStateObject s2 so2)))"

section \<open>Reverting\<close>

definition with_live ::
    "geth \<Rightarrow> stateEnv \<Rightarrow> cidDB \<Rightarrow> address \<Rightarrow> (cidObject \<Rightarrow> cidObject) \<Rightarrow> cidDB res" where
  "with_live G E s a f =
     bindR (getStateObject G E s a) (\<lambda>(obj, s1).
       case obj of None \<Rightarrow> Some (Inl NilDereference) | Some so \<Rightarrow> okR (setStateObject s1 (f so)))"

fun revert_entry :: "geth \<Rightarrow> stateEnv \<Rightarrow> cidObject journalEntry \<Rightarrow> cidDB \<Rightarrow> cidDB res" where
  "revert_entry G E (createObjectChange a) s =
     okR (s\<lparr>stateObjects := (stateObjects s)(a := None), stateObjectsDirty := stateObjectsDirty s - {a}\<rparr>)"
| "revert_entry G E (resetObjectChange prev prevdestruct) s =
     (let s1 = setStateObject s prev
      in okR (if \<not> prevdestruct then s1\<lparr>stateObjectsDestruct := stateObjectsDestruct s1 - {address prev}\<rparr> else s1))"
| "revert_entry G E (suicideChange a prev prevbalance) s =
     bindR (getStateObject G E s a) (\<lambda>(obj, s1).
       case obj of
         None \<Rightarrow> okR s1
       | Some so \<Rightarrow> okR (setStateObject s1 (setBalance (so\<lparr>suicided := prev\<rparr>) prevbalance)))"
| "revert_entry G E (balanceChange a prev) s = with_live G E s a (\<lambda>so. setBalance so prev)"
| "revert_entry G E (nonceChange a prev) s = with_live G E s a (\<lambda>so. setNonce so prev)"
| "revert_entry G E (storageChange a key prevalue) s = with_live G E s a (\<lambda>so. setState so key prevalue)"
| "revert_entry G E (codeChange a prevcode prevhash) s =
     with_live G E s a (\<lambda>so. setCode so (BytesToHash G prevhash) prevcode)"
| "revert_entry G E (refundChange prev) s = okR (s\<lparr>refund := prev\<rparr>)"
| "revert_entry G E (addLogChange txhash) s =
     (let ls = logs_at (logs s) txhash
      in if length ls = 1 then okR (s\<lparr>logs := (logs s)(txhash := None), logSize := logSize s - 1\<rparr>)
         else if length ls = 0 then Some (Inl IndexOutOfRange)
         else okR (s\<lparr>logs := (logs s)(txhash \<mapsto> take (length ls - 1) ls), logSize := logSize s - 1\<rparr>))"
| "revert_entry G E (addPreimageChange h) s = okR (s\<lparr>preimages := (preimages s)(h := None)\<rparr>)"
| "revert_entry G E (touchChange a) s = okR s"
| "revert_entry G E (accessListAddAccountChange a) s = okR (s\<lparr>accList := DeleteAddress (accList s) a\<rparr>)"
| "revert_entry G E (accessListAddSlotChange a slot) s =
     (case DeleteSlot (accList s) a slot of Inl p \<Rightarrow> Some (Inl p) | Inr al \<Rightarrow> okR (s\<lparr>accList := al\<rparr>))"
| "revert_entry G E (transientStorageChange a key prevalue) s = okR (setTransientState s a key prevalue)"

definition revert_step :: "geth \<Rightarrow> stateEnv \<Rightarrow> cidDB \<Rightarrow> cidObject journalEntry \<Rightarrow> cidDB res" where
  "revert_step G E s e = bindR (revert_entry G E e s) (\<lambda>s'. okR (s'\<lparr>journal := undirty e (journal s')\<rparr>))"

definition revert :: "geth \<Rightarrow> stateEnv \<Rightarrow> cidDB \<Rightarrow> nat \<Rightarrow> cidDB res" where
  "revert G E s snapshot =
     bindR (foldR (revert_step G E) s (rev (drop snapshot (entries (journal s))))) (\<lambda>s'.
       okR (s'\<lparr>journal := (journal s')\<lparr>entries := take snapshot (entries (journal s'))\<rparr>\<rparr>))"

definition RevertToSnapshot :: "geth \<Rightarrow> stateEnv \<Rightarrow> cidDB \<Rightarrow> int \<Rightarrow> cidDB res" where
  "RevertToSnapshot G E s revid =
     (case findRevision s revid of
        Inl p \<Rightarrow> Some (Inl p)
      | Inr (idx, snp) \<Rightarrow>
          bindR (revert G E s snp) (\<lambda>s'. okR (s'\<lparr>validRevisions := take idx (validRevisions s')\<rparr>)))"

section \<open>Finalise and the intermediate root\<close>

definition finaliseAddr :: "geth \<Rightarrow> bool \<Rightarrow> cidDB \<Rightarrow> address \<Rightarrow> cidDB" where
  "finaliseAddr G deleteEmptyObjects s a =
     (case stateObjects s a of
        None \<Rightarrow> s
      | Some obj \<Rightarrow>
          (let s1 = (if suicided obj \<or> (deleteEmptyObjects \<and> empty G obj)
                     then (let s0 = s\<lparr>stateObjects := (stateObjects s)(a \<mapsto> obj\<lparr>deleted := True\<rparr>),
                                      stateObjectsDestruct := insert (address obj) (stateObjectsDestruct s)\<rparr>
                           in if snap s0 = None then s0
                              else s0\<lparr>snapAccounts := (snapAccounts s0)(addrHash obj := None),
                                      snapStorage := (snapStorage s0)(addrHash obj := None)\<rparr>)
                     else s\<lparr>stateObjects := (stateObjects s)(a \<mapsto> obj_finalise obj)\<rparr>)
           in s1\<lparr>stateObjectsPending := insert a (stateObjectsPending s1),
                 stateObjectsDirty := insert a (stateObjectsDirty s1)\<rparr>))"

definition Finalise :: "geth \<Rightarrow> address list \<Rightarrow> bool \<Rightarrow> cidDB \<Rightarrow> cidDB" where
  "Finalise G order deleteEmptyObjects s =
     clearJournalAndRefund (foldl (finaliseAddr G deleteEmptyObjects) s order)"

definition updateStateObject :: "geth \<Rightarrow> stateEnv \<Rightarrow> cidDB \<Rightarrow> cidObject \<Rightarrow> cidDB res" where
  "updateStateObject G E s obj =
     bindR (TryUpdateAccount G (codec E) (db_trie s) (address obj) (data obj)) (\<lambda>((_, err), tr).
       let s1 = s\<lparr>db_trie := tr\<rparr>;
           s2 = (case err of None \<Rightarrow> s1
                 | Some e \<Rightarrow> setError s1 (Wrap ''updateStateObject'' (address_bytes (address obj)) (accountErr e)))
       in okR (if snap s2 = None then s2
               else s2\<lparr>snapAccounts := (snapAccounts s2)(addrHash obj \<mapsto>
                     SlimAccountRLP E (Nonce (data obj)) (Balance (data obj)) (Root (data obj)) (CodeHash (data obj)))\<rparr>))"

definition deleteStateObject :: "geth \<Rightarrow> cidDB \<Rightarrow> cidObject \<Rightarrow> cidDB res" where
  "deleteStateObject G s obj =
     bindR (TryDeleteAccount G (db_trie s) (address obj)) (\<lambda>((_, err), tr).
       let s1 = s\<lparr>db_trie := tr\<rparr>
       in okR (case err of None \<Rightarrow> s1
               | Some e \<Rightarrow> setError s1 (Wrap ''deleteStateObject'' (address_bytes (address obj)) (trieErr e))))"

text \<open>
  The two loops over \<open>stateObjectsPending\<close>, in the orders \<open>o1\<close> and \<open>o2\<close>; \<open>slotOrd a\<close> is the order in which
  the pending storage of the object at \<open>a\<close> is visited. A pending address without an object is a nil dereference.
\<close>

definition updateRootOf :: "geth \<Rightarrow> stateEnv \<Rightarrow> (address \<Rightarrow> hash list) \<Rightarrow> cidDB \<Rightarrow> address \<Rightarrow> cidDB res" where
  "updateRootOf G E slotOrd s a =
     (case stateObjects s a of
        None \<Rightarrow> Some (Inl NilDereference)
      | Some obj \<Rightarrow>
          (if deleted obj then okR s
           else bindR (obj_updateRoot G E (slotOrd a) s obj) (\<lambda>(obj1, s1).
                  okR (s1\<lparr>stateObjects := (stateObjects s1)(a \<mapsto> obj1)\<rparr>))))"

definition writeBack :: "geth \<Rightarrow> stateEnv \<Rightarrow> cidDB \<Rightarrow> address \<Rightarrow> cidDB res" where
  "writeBack G E s a =
     (case stateObjects s a of
        None \<Rightarrow> Some (Inl NilDereference)
      | Some obj \<Rightarrow>
          (if deleted obj
           then bindR (deleteStateObject G s obj) (\<lambda>s1. okR (s1\<lparr>AccountDeleted := AccountDeleted s1 + 1\<rparr>))
           else bindR (updateStateObject G E s obj) (\<lambda>s1. okR (s1\<lparr>AccountUpdated := AccountUpdated s1 + 1\<rparr>))))"

definition IntermediateRoot ::
    "geth \<Rightarrow> stateEnv \<Rightarrow> address list \<Rightarrow> address list \<Rightarrow> address list \<Rightarrow> (address \<Rightarrow> hash list) \<Rightarrow> bool \<Rightarrow> cidDB
       \<Rightarrow> (hash \<times> cidDB) res" where
  "IntermediateRoot G E od o1 o2 slotOrd deleteEmptyObjects s =
     (let s0 = Finalise G od deleteEmptyObjects s
      in bindR (foldR (updateRootOf G E slotOrd) s0 o1) (\<lambda>s1.
         bindR (foldR (writeBack G E) s1 o2) (\<lambda>s2.
           let s3 = s2\<lparr>stateObjectsPending := {}\<rparr>
           in bindR (Some (StateTrie_Hash G (db_trie s3))) (\<lambda>(h, tr). okR (h, s3\<lparr>db_trie := tr\<rparr>)))))"

section \<open>Copy\<close>

definition copyDirtied :: "geth \<Rightarrow> stateEnv \<Rightarrow> cidDB \<Rightarrow> cidDB \<Rightarrow> address \<Rightarrow> cidDB" where
  "copyDirtied G E s st a =
     (case stateObjects s a of
        None \<Rightarrow> st
      | Some object \<Rightarrow>
          st\<lparr>stateObjects := (stateObjects st)(a \<mapsto> obj_deepCopy G E object),
             stateObjectsDirty := insert a (stateObjectsDirty st),
             stateObjectsPending := insert a (stateObjectsPending st)\<rparr>)"

definition copyMissing :: "geth \<Rightarrow> stateEnv \<Rightarrow> cidDB \<Rightarrow> cidDB \<Rightarrow> address \<Rightarrow> panic + cidDB" where
  "copyMissing G E s st a =
     (if stateObjects st a = None
      then case stateObjects s a of
             None \<Rightarrow> Inl NilDereference
           | Some so \<Rightarrow> Inr (st\<lparr>stateObjects := (stateObjects st)(a \<mapsto> obj_deepCopy G E so)\<rparr>)
      else Inr st)"

definition copyPending :: "geth \<Rightarrow> stateEnv \<Rightarrow> cidDB \<Rightarrow> cidDB \<Rightarrow> address \<Rightarrow> panic + cidDB" where
  "copyPending G E s st a =
     (case copyMissing G E s st a of Inl p \<Rightarrow> Inl p
      | Inr st1 \<Rightarrow> Inr (st1\<lparr>stateObjectsPending := insert a (stateObjectsPending st1)\<rparr>))"

definition copyDirty :: "geth \<Rightarrow> stateEnv \<Rightarrow> cidDB \<Rightarrow> cidDB \<Rightarrow> address \<Rightarrow> panic + cidDB" where
  "copyDirty G E s st a =
     (case copyMissing G E s st a of Inl p \<Rightarrow> Inl p
      | Inr st1 \<Rightarrow> Inr (st1\<lparr>stateObjectsDirty := insert a (stateObjectsDirty st1)\<rparr>))"

text \<open>The fields \<open>Copy\<close> does not name start at their zero values. The snapshot fields are copied only when there
  is a snapshot tree.\<close>

definition StateDB_Copy ::
    "geth \<Rightarrow> stateEnv \<Rightarrow> address list \<Rightarrow> address list \<Rightarrow> address list \<Rightarrow> cidDB \<Rightarrow> panic + cidDB" where
  "StateDB_Copy G E od op ot s =
     (let st0 = \<lparr>stateObjects = Map.empty, stateObjectsPending = {}, stateObjectsDirty = {},
              stateObjectsDestruct = {}, dbErr = None, refund = refund s, thash = 0, txIndex = 0,
              logs = Map.empty, logSize = logSize s, preimages = Map.empty, accList = newAccessList,
              transient = newTransientStorage, journal = newJournal, validRevisions = [],
              nextRevisionId = 0, db_trie = CopyTrie (sdb E) (db_trie s), originalRoot = originalRoot s,
              snaps = None, snap = None, snapAccounts = Map.empty, snapStorage = Map.empty,
              AccountUpdated = 0, StorageUpdated = 0, AccountDeleted = 0, StorageDeleted = 0\<rparr>;
          st1 = foldl (copyDirtied G E s) st0 od
      in case foldE (copyPending G E s) st1 op of
           Inl p \<Rightarrow> Inl p
         | Inr st2 \<Rightarrow>
             (case foldE (copyDirty G E s) st2 ot of
                Inl p \<Rightarrow> Inl p
              | Inr st3 \<Rightarrow>
                  (let st4 = st3\<lparr>stateObjectsDestruct := stateObjectsDestruct st3 \<union> stateObjectsDestruct s,
                                 logs := logs st3 ++ logs s, preimages := preimages st3 ++ preimages s,
                                 accList := Copy (accList s), transient := transient_Copy (transient s)\<rparr>
                   in Inr (if snaps s = None then st4
                           else st4\<lparr>snaps := snaps s, snap := snap s,
                                    snapAccounts := snapAccounts s, snapStorage := snapStorage s\<rparr>))))"

text \<open>\<open>convertAccountSet\<close>: the hashes of a set of addresses.\<close>

definition convertAccountSet :: "geth \<Rightarrow> cidDB \<Rightarrow> address list \<Rightarrow> hash set" where
  "convertAccountSet G s order =
     foldl (\<lambda>ret a. insert (case stateObjects s a of None \<Rightarrow> keccak256 G (address_bytes a) | Some obj \<Rightarrow> addrHash obj) ret) {} order"

end
