(* ===== verification/TrieMerkle.thy ===== *)
theory TrieMerkle
  imports TrieCommit
begin

text \<open>
  What the hasher computes: \<open>collapse\<close> is the stored form of a node, defined without caches or flags,
  and the hash of a node is the hash of the encoding of its stored form. The hasher, which
  skips subtrees whose hash it has cached, agrees with it whenever the cached hashes are
  right, and leaves every hash cached. The root hash depends on the content
  of the trie alone.
\<close>

section \<open>The stored form\<close>

definition embed :: "geth \<Rightarrow> node \<Rightarrow> node" where
  "embed G r =
     (if (case r of rawShortNode _ _ \<Rightarrow> True | rawFullNode _ \<Rightarrow> True | _ \<Rightarrow> False) \<and> 32 \<le> length (encode G r)
      then hashData G (encode G r) else r)"

definition compactKey :: "bytes \<Rightarrow> bytes" where
  "compactKey k = compact_of (hasTerm k) (path_part k)"

fun collapse :: "geth \<Rightarrow> node \<Rightarrow> node" where
  "collapse G (shortNode k v f) = rawShortNode (compactKey k) (embed G (collapse G v))"
| "collapse G (fullNode cs f) = rawFullNode (map (\<lambda>c. embed G (collapse G c)) cs)"
| "collapse G n = n"

fun branch :: "node \<Rightarrow> bool" where
  "branch (shortNode k v f) = True"
| "branch (fullNode cs f) = True"
| "branch n = False"

fun live :: "node \<Rightarrow> bool" where
  "live (shortNode k v f) = live v"
| "live (fullNode cs f) = (length cs = 17 \<and> (\<forall>c \<in> set cs. live c) \<and> \<not> branch (cs ! 16))"
| "live (rawFullNode cs) = False"
| "live (rawShortNode k v) = False"
| "live (rawNode b) = False"
| "live n = True"

text \<open>The hash a node should have cached: none if it is embedded in its parent.\<close>

definition hashOf :: "geth \<Rightarrow> bool \<Rightarrow> node \<Rightarrow> bytes option" where
  "hashOf G force n =
     (if force \<or> 32 \<le> length (encode G (collapse G n)) then Some (hash_bytes (keccak256 G (encode G (collapse G n)))) else None)"

fun filled :: "geth \<Rightarrow> bool \<Rightarrow> node \<Rightarrow> bool" where
  "filled G force (shortNode k v f) = (flag_hash f = hashOf G force (shortNode k v f) \<and> filled G False v)"
| "filled G force (fullNode cs f) = (flag_hash f = hashOf G force (fullNode cs f) \<and> (\<forall>c \<in> set cs. filled G False c))"
| "filled G force n = True"

fun sealed :: "geth \<Rightarrow> bool \<Rightarrow> node \<Rightarrow> bool" where
  "sealed G force (shortNode k v f) = (flag_hash f = None \<and> sealed G False v \<or> filled G force (shortNode k v f))"
| "sealed G force (fullNode cs f) = (flag_hash f = None \<and> (\<forall>c \<in> set cs. sealed G False c) \<or> filled G force (fullNode cs f))"
| "sealed G force n = True"

lemma filled_sealed: "filled G force n \<Longrightarrow> sealed G force n"
  by (cases n) auto

lemma collapse_strip [simp]: "collapse G (strip n) = collapse G n"
  by (induction n rule: strip.induct) auto

lemma collapse_cong: "strip n = strip n' \<Longrightarrow> collapse G n = collapse G n'"
  by (metis collapse_strip)

lemma hashOf_cong: "strip n = strip n' \<Longrightarrow> hashOf G force n = hashOf G force n'"
  unfolding hashOf_def by (metis collapse_strip)

lemma branch_strip [simp]: "branch (strip n) = branch n"
  by (cases n) auto

lemma collapse_branch: "branch n \<Longrightarrow> (case collapse G n of rawShortNode _ _ \<Rightarrow> True | rawFullNode _ \<Rightarrow> True | _ \<Rightarrow> False)"
  by (cases n) auto

lemma embed_not_branch: "\<not> branch n \<Longrightarrow> live n \<Longrightarrow> embed G (collapse G n) = n"
  by (cases n) (auto simp: embed_def)

lemma filled_not_branch: "\<not> branch n \<Longrightarrow> filled G force n"
  by (cases n) auto

lemma cache_branch: "branch n \<Longrightarrow> \<exists>h d. cache n = Inr (h, d)"
  by (cases n) auto

text \<open>The hasher changes nothing but the cached hashes.\<close>

fun unhash :: "node \<Rightarrow> node" where
  "unhash (shortNode k v f) = shortNode k (unhash v) (f\<lparr>flag_hash := None\<rparr>)"
| "unhash (fullNode cs f) = fullNode (map unhash cs) (f\<lparr>flag_hash := None\<rparr>)"
| "unhash n = n"

lemma strip_unhash: "strip (unhash n) = strip n"
  by (induction n rule: unhash.induct) auto

lemma unhash_strip: "unhash c = unhash n \<Longrightarrow> strip c = strip n"
  by (metis strip_unhash)

lemma unhash_strip_map: "map unhash cs = map unhash ds \<Longrightarrow> map strip cs = map strip ds"
  by (metis (no_types, lifting) map_eq_conv map_map comp_apply strip_unhash)

lemma unhash_setHash: "(setHash h f)\<lparr>flag_hash := None\<rparr> = f\<lparr>flag_hash := None\<rparr>"
  by (simp add: setHash_def split: node.splits)

section \<open>The hasher computes it\<close>

text \<open>What \<open>hash\<close> returns first for a node: the hash of its stored form, or the stored form itself.\<close>

definition hashed_as :: "geth \<Rightarrow> bool \<Rightarrow> node \<Rightarrow> node \<Rightarrow> bool" where
  "hashed_as G force n h \<longleftrightarrow>
     (if branch n then (case hashOf G force n of Some b \<Rightarrow> h = hashNode b
                        | None \<Rightarrow> encode G h = encode G (collapse G n) \<and> (\<forall>b. h \<noteq> hashNode b))
      else h = n)"

lemma hashed_as_encode:
  "hashed_as G False n h \<Longrightarrow> live n \<Longrightarrow> encode G h = encode G (embed G (collapse G n))"
proof (cases "branch n")
  case True
  moreover assume "hashed_as G False n h"
  ultimately show ?thesis using collapse_branch [of n G]
    by (auto simp: hashed_as_def hashOf_def embed_def hashData_def split: if_splits)
qed (simp add: hashed_as_def embed_not_branch)

context rlp
begin

lemma encode_nilValue: "encode G nilValueNode = encode G nilNode"
  by (simp add: nilValueNode_def emptyString)

lemma encode_collapse_short:
  "encode G v' = encode G (embed G (collapse G v)) \<Longrightarrow> encode G (shortNode (compactKey k) v' f) = encode G (collapse G (shortNode k v f'))"
  by simp

lemma encode_collapse_full:
  "map (encode G) cs' = map (\<lambda>c. encode G (embed G (collapse G c))) cs \<Longrightarrow>
   encode G (fullNode cs' f) = encode G (collapse G (fullNode cs f'))"
  by (simp add: comp_def)

lemma toHash_hashed_as:
  assumes "encode G c = encode G (collapse G n)" "branch n" "\<And>b. c \<noteq> hashNode b"
  shows "hashed_as G force n (shortnodeToHash G c force)" "hashed_as G force n (fullnodeToHash G c force)"
    "flag_hash (setHash (shortnodeToHash G c force) f) = hashOf G force n"
    "flag_hash (setHash (fullnodeToHash G c force) f) = hashOf G force n"
  using assms by (auto simp: hashed_as_def hashOf_def shortnodeToHash_def fullnodeToHash_def setHash_def hashData_def
      Let_def split: node.splits)

text \<open>The three mutually recursive functions at once.\<close>

definition hash_goal :: "node \<Rightarrow> bool \<Rightarrow> bool" where
  "hash_goal n force \<longleftrightarrow> (live n \<longrightarrow> n \<noteq> nilNode \<longrightarrow> sealed G force n \<longrightarrow>
     (\<exists>h c. hasher_hash G n force = Inr (h, c) \<and> hashed_as G force n h \<and> unhash c = unhash n \<and> filled G force c))"

definition short_goal :: "bytes \<Rightarrow> node \<Rightarrow> nodeFlag \<Rightarrow> bool" where
  "short_goal k v f \<longleftrightarrow> (live v \<longrightarrow> sealed G False v \<longrightarrow>
     (\<exists>h c. hashShortNodeChildren G k v f = Inr (shortNode (compactKey k) h f, shortNode k c f)
        \<and> encode G h = encode G (embed G (collapse G v)) \<and> unhash c = unhash v \<and> filled G False c))"

definition full_goal :: "nat \<Rightarrow> node list \<Rightarrow> bool" where
  "full_goal i cs \<longleftrightarrow> ((\<forall>c \<in> set cs. live c \<and> sealed G False c) \<longrightarrow> (\<forall>j < length cs. 16 \<le> i + j \<longrightarrow> \<not> branch (cs ! j)) \<longrightarrow>
     (\<exists>hs cc. hashFullNodeChildren G i cs = Inr (hs, cc) \<and> map (encode G) hs = map (\<lambda>c. encode G (embed G (collapse G c))) cs
        \<and> map unhash cc = map unhash cs \<and> (\<forall>c \<in> set cc. filled G False c)))"

lemma filled_hash:
  assumes "filled G force n" "branch n" "cache n = Inr (Some h, d)"
  shows "hashed_as G force n (hashNode h)"
  using assms by (cases n) (auto simp: hashed_as_def)

lemma hash_short_step:
  assumes "short_goal k v f" "flag_hash f = None" shows "hash_goal (shortNode k v f) force"
  unfolding hash_goal_def
proof (intro impI)
  assume l: "live (shortNode k v f)" "sealed G force (shortNode k v f)"
  then have "live v" "sealed G False v" using assms(2) by (auto simp: filled_sealed)
  then obtain h c where hc: "hashShortNodeChildren G k v f = Inr (shortNode (compactKey k) h f, shortNode k c f)"
    "encode G h = encode G (embed G (collapse G v))" "unhash c = unhash v" "filled G False c"
    using assms(1) unfolding short_goal_def by blast
  let ?n = "shortNode k v f" and ?s = "shortNode (compactKey k) h f"
  have "encode G ?s = encode G (collapse G ?n)" using hc(2) by simp
  then have t: "hashed_as G force ?n (shortnodeToHash G ?s force)" "flag_hash (setHash (shortnodeToHash G ?s force) f) = hashOf G force ?n"
    using toHash_hashed_as(1,3) by auto
  have "hashOf G force ?n = hashOf G force (shortNode k c (setHash (shortnodeToHash G ?s force) f))"
    using hc(3) by (intro hashOf_cong) (auto intro: unhash_strip unhash_strip_map)
  then show "\<exists>h c. hasher_hash G ?n force = Inr (h, c) \<and> hashed_as G force ?n h \<and> unhash c = unhash ?n \<and> filled G force c"
    using hc t assms(2) by (simp add: Let_def unhash_setHash hasher_hash.simps [of G ?n])
qed

lemma hash_full_step:
  assumes "full_goal 0 cs" "flag_hash f = None" shows "hash_goal (fullNode cs f) force"
  unfolding hash_goal_def
proof (intro impI)
  assume l: "live (fullNode cs f)" "sealed G force (fullNode cs f)"
  then have "\<forall>c \<in> set cs. live c \<and> sealed G False c" using assms(2) by (auto simp: filled_sealed)
  moreover have "\<forall>j < length cs. 16 \<le> 0 + j \<longrightarrow> \<not> branch (cs ! j)"
  proof (intro allI impI)
    fix j assume "j < length cs" "16 \<le> 0 + j"
    then have "j = 16" using l(1) by simp
    then show "\<not> branch (cs ! j)" using l(1) by simp
  qed
  ultimately obtain hs cc where hc: "hashFullNodeChildren G 0 cs = Inr (hs, cc)"
    "map (encode G) hs = map (\<lambda>c. encode G (embed G (collapse G c))) cs" "map unhash cc = map unhash cs" "\<forall>c \<in> set cc. filled G False c"
    using assms(1) unfolding full_goal_def by blast
  let ?n = "fullNode cs f" and ?s = "fullNode hs f"
  have "encode G ?s = encode G (collapse G ?n)" using hc(2) by (simp add: comp_def)
  then have t: "hashed_as G force ?n (fullnodeToHash G ?s force)" "flag_hash (setHash (fullnodeToHash G ?s force) f) = hashOf G force ?n"
    using toHash_hashed_as(2,4) by auto
  have "hashOf G force ?n = hashOf G force (fullNode cc (setHash (fullnodeToHash G ?s force) f))"
    using hc(3) by (intro hashOf_cong) (auto intro: unhash_strip unhash_strip_map)
  then show "\<exists>h c. hasher_hash G ?n force = Inr (h, c) \<and> hashed_as G force ?n h \<and> unhash c = unhash ?n \<and> filled G force c"
    using hc t assms(2) by (simp add: Let_def unhash_setHash hasher_hash.simps [of G ?n])
qed

lemma hash_leaf_step:
  assumes "\<not> branch n" shows "hash_goal n force"
  using assms by (cases n) (auto simp: hash_goal_def hashed_as_def hasher_hash.simps)

lemma hash_cached_step:
  assumes "cache n = Inr (Some h, d)" "branch n" shows "hash_goal n force"
  unfolding hash_goal_def
proof (intro impI)
  assume "sealed G force n"
  then have "filled G force n" using assms by (cases n) auto
  then show "\<exists>h c. hasher_hash G n force = Inr (h, c) \<and> hashed_as G force n h \<and> unhash c = unhash n \<and> filled G force c"
    using assms filled_hash by (simp add: hasher_hash.simps [of G n])
qed

lemma short_step:
  assumes "branch v \<Longrightarrow> hash_goal v False" shows "short_goal k v f"
proof (cases "branch v")
  case True
  then have b: "(case v of fullNode _ _ \<Rightarrow> True | shortNode _ _ _ \<Rightarrow> True | _ \<Rightarrow> False)" "v \<noteq> nilNode"
    by (cases v; simp)+
  show ?thesis using assms [OF True] b hashed_as_encode [of G v]
    unfolding short_goal_def hash_goal_def by (fastforce simp: hexToCompact_eq compactKey_def hashShortNodeChildren.simps)
next
  case False
  then have "\<not> (case v of fullNode _ _ \<Rightarrow> True | shortNode _ _ _ \<Rightarrow> True | _ \<Rightarrow> False)" "filled G False v"
    by (cases v; simp)+
  then show ?thesis using embed_not_branch [OF False]
    unfolding short_goal_def by (simp add: hexToCompact_eq compactKey_def hashShortNodeChildren.simps)
qed

lemma full_step:
  assumes "i < 16 \<Longrightarrow> c \<noteq> nilNode \<Longrightarrow> hash_goal c False" "full_goal (i + 1) cs"
  shows "full_goal i (c # cs)"
  unfolding full_goal_def
proof (intro impI)
  assume a: "\<forall>d \<in> set (c # cs). live d \<and> sealed G False d" "\<forall>j < length (c # cs). 16 \<le> i + j \<longrightarrow> \<not> branch ((c # cs) ! j)"
  have br: "\<forall>j < length cs. 16 \<le> i + 1 + j \<longrightarrow> \<not> branch (cs ! j)"
  proof (intro allI impI)
    fix j assume "j < length cs" "16 \<le> i + 1 + j"
    then show "\<not> branch (cs ! j)" using a(2) [rule_format, of "Suc j"] by simp
  qed
  have lv: "\<forall>c \<in> set cs. live c \<and> sealed G False c" using a(1) by simp
  obtain hs cc where r: "hashFullNodeChildren G (i + 1) cs = Inr (hs, cc)"
    "map (encode G) hs = map (\<lambda>c. encode G (embed G (collapse G c))) cs" "map unhash cc = map unhash cs" "\<forall>c \<in> set cc. filled G False c"
    using assms(2) [unfolded full_goal_def, THEN mp, THEN mp, OF lv br] by blast
  have "\<exists>h d. (if i \<ge> 16 then Inr (c, c) else if c \<noteq> nilNode then hasher_hash G c False else Inr (nilValueNode, nilNode)) = Inr (h, d)
      \<and> encode G h = encode G (embed G (collapse G c)) \<and> unhash d = unhash c \<and> filled G False d"
  proof -
    consider (last) "i \<ge> 16" | (nil) "i < 16" "c = nilNode" | (node) "i < 16" "c \<noteq> nilNode" by linarith
    then show ?thesis
    proof cases
      case last
      then have "\<not> branch c" using a(2) by auto
      then have "filled G False c" "embed G (collapse G c) = c" using a(1) by (simp_all add: embed_not_branch filled_not_branch)
      then show ?thesis using last by simp
    next
      case nil
      then show ?thesis using encode_nilValue by (simp add: embed_def)
    next
      case node
      then show ?thesis using assms(1) a(1) hashed_as_encode unfolding hash_goal_def by fastforce
    qed
  qed
  then show "\<exists>hs cc. hashFullNodeChildren G i (c # cs) = Inr (hs, cc)
      \<and> map (encode G) hs = map (\<lambda>c. encode G (embed G (collapse G c))) (c # cs)
      \<and> map unhash cc = map unhash (c # cs) \<and> (\<forall>c \<in> set cc. filled G False c)"
    using r by auto
qed

lemma full_all: "(\<And>c. c \<in> set cs \<Longrightarrow> hash_goal c False) \<Longrightarrow> full_goal i cs"
proof (induction cs arbitrary: i)
  case (Cons c cs)
  then show ?case by (intro full_step) auto
qed (simp add: full_goal_def)

lemma hasher_correct: "hash_goal n force"
proof (induction n arbitrary: force)
  case (fullNode cs f)
  then show ?case using hash_full_step [OF full_all] hash_cached_step [of "fullNode cs f"]
    by (cases "flag_hash f") auto
next
  case (shortNode k v f)
  then show ?case using hash_short_step [OF short_step] hash_cached_step [of "shortNode k v f"]
    by (cases "flag_hash f") auto
qed (auto intro: hash_leaf_step)

end

section \<open>Flags do not matter\<close>

lemma strip_shortD: "strip n = shortNode k v f \<Longrightarrow> \<exists>v' f'. n = shortNode k v' f' \<and> strip v' = v"
  by (cases n) auto

lemma strip_fullD: "strip n = fullNode cs f \<Longrightarrow> \<exists>cs' f'. n = fullNode cs' f' \<and> map strip cs' = cs"
  by (cases n) auto

lemma strip_leafD: "strip n = m \<Longrightarrow> \<not> branch m \<Longrightarrow> n = m"
  by (cases n) auto

lemma strip_nil [simp]: "strip n = nilNode \<longleftrightarrow> n = nilNode"
  by (cases n) auto

lemma tnode_strip:
  assumes "tnode G R p n kd m" "strip n' = strip n" shows "tnode G R p n' kd m"
  using assms
proof (induction arbitrary: n' rule: tnode.induct)
  case (t_nil p)
  then show ?case by (auto intro: tnode.t_nil)
next
  case (t_val v p)
  have "n' = valueNode v" using t_val.prems by (auto dest!: strip_leafD)
  then show ?case using tnode.t_val [OF t_val.hyps] by blast
next
  case (t_short p k c kd m f)
  then show ?case by (auto dest!: strip_shortD intro: tnode.t_short)
next
  case (t_full cs p ks ms f)
  obtain cs' f' where n': "n' = fullNode cs' f'" "map strip cs' = map strip cs"
    using t_full.prems by (auto dest!: strip_fullD)
  then have len: "length cs' = 17" using t_full.hyps(1) map_eq_imp_length_eq by metis
  have st: "strip (cs' ! i) = strip (cs ! i)" if "i < 17" for i
    using that n'(2) len t_full.hyps(1) by (metis nth_map)
  have "two_children cs'"
    using t_full.hyps(5) st unfolding two_children_def by (metis strip_nil)
  then show ?case unfolding n'(1)
    using len t_full.hyps(3,4) t_full.IH st by (intro tnode.t_full [where ks = ks]) auto
next
  case (t_hash p h blob n kd m)
  then have "n' = hashNode h" by (auto dest!: strip_leafD)
  then show ?case using t_hash.hyps by (auto intro: tnode.t_hash)
qed

lemma content_strip:
  "content G t m \<Longrightarrow> strip n = strip (root t) \<Longrightarrow> reader t' = reader t \<Longrightarrow> root t' = n \<Longrightarrow> content G t' m"
  unfolding content_def using tnode_strip by metis

lemma tnode_live: "tnode G R p n kd m \<Longrightarrow> live n"
proof (induction rule: tnode.induct)
  case (t_full cs p ks ms f)
  have "cs ! 16 = nilNode \<or> (\<exists>v. cs ! 16 = valueNode v)"
    using t_full.hyps(2) [of 16] t_full.hyps(4) by (auto elim!: tnode_KNilE tnode_KValE)
  then show ?case using t_full by (auto simp: in_set_conv_nth)
qed auto

section \<open>The root hash\<close>

text \<open>The hash of a root, from its content: no caches, no flags.\<close>

definition rootHash :: "geth \<Rightarrow> node \<Rightarrow> hash" where
  "rootHash G n =
     (case n of
        nilNode \<Rightarrow> EmptyRootHash G
      | hashNode h \<Rightarrow> BytesToHash G h
      | _ \<Rightarrow> keccak256 G (encode G (collapse G n)))"

lemma rootHash_branch: "branch n \<Longrightarrow> rootHash G n = keccak256 G (encode G (collapse G n))"
  by (cases n) (auto simp: rootHash_def)

lemma rootHash_cong: "strip n = strip n' \<Longrightarrow> rootHash G n = rootHash G n'"
proof (cases "branch n")
  case True
  moreover assume s: "strip n = strip n'"
  ultimately have "branch n'" by (metis branch_strip)
  then show ?thesis using True collapse_cong [OF s] by (simp add: rootHash_branch)
next
  case False
  moreover assume s: "strip n = strip n'"
  ultimately have "\<not> branch n'" by (metis branch_strip)
  then show ?thesis using False s by (cases n; cases n') auto
qed

lemma tnode_root: "tnode G R p n kd m \<Longrightarrow> kd \<noteq> KVal \<Longrightarrow> n = nilNode \<or> branch n \<or> (\<exists>h. n = hashNode h)"
  by (cases rule: tnode.cases) auto

context rlp
begin

lemma Trie_Hash_correct:
  assumes "content G t m" "sealed G True (root t)" "\<And>h. BytesToHash G (hash_bytes h) = h"
  shows "\<exists>t'. Trie_Hash G t = Inr (rootHash G (root t), t') \<and> content G t' m \<and> unhash (root t') = unhash (root t)
    \<and> filled G True (root t') \<and> reader t' = reader t \<and> trc t' = trc t \<and> owner t' = owner t"
proof -
  obtain kd mm where c: "tnode G (reader t) [] (root t) kd mm" "kd \<noteq> KVal" using assms(1) by (auto simp: content_def)
  consider (nil) "root t = nilNode" | (hash) h where "root t = hashNode h" | (branch) "branch (root t)" "root t \<noteq> nilNode"
    using tnode_root [OF c] by (cases "root t") auto
  then show ?thesis
  proof cases
    case nil
    then show ?thesis using assms by (auto simp: Trie_Hash_def hashRoot_def rootHash_def intro: content_strip)
  next
    case hash
    then show ?thesis using assms
      by (auto simp: Trie_Hash_def hashRoot_def hasher_hash.simps rootHash_def intro: content_strip)
  next
    case branch
    obtain h c where h: "hasher_hash G (root t) True = Inr (h, c)" "hashed_as G True (root t) h" "unhash c = unhash (root t)" "filled G True c"
      using hasher_correct [of "root t" True] tnode_live [OF c(1)] branch(2) assms(2) unfolding hash_goal_def by blast
    have "h = hashNode (hash_bytes (keccak256 G (encode G (collapse G (root t)))))"
      using h(2) branch(1) by (simp add: hashed_as_def hashOf_def)
    then show ?thesis using h branch assms
      by (auto simp: Trie_Hash_def hashRoot_def rootHash_branch intro!: content_strip [OF assms(1) unhash_strip [OF h(3)]])
  qed
qed

end

end
