(* ===== verification/TrieReload.thy ===== *)
theory TrieReload
  imports TrieMerkle
begin

text \<open>
  Reading a stored node back: decoding the encoding of the stored form of a well-formed node
  gives the node again, with its large descendants replaced by their hashes (\<open>reload\<close>). What
  a node needs to be encodable (\<open>wfn\<close>) follows from the meaning of nodes and a bound on
  the sizes of keys and values. \<open>sound_reader\<close> is what a content-addressed store of such nodes
  promises.
\<close>

section \<open>Nodes that can be stored\<close>

fun wfn :: "geth \<Rightarrow> node \<Rightarrow> bool" where
  "wfn G (shortNode k v f) \<longleftrightarrow> wfn G v \<and>
     (hex_key k \<and> (\<exists>b. v = valueNode b) \<or> nibbles k \<and> k \<noteq> [] \<and> (\<exists>cs g. v = fullNode cs g) \<or>
      nibbles k \<and> k \<noteq> [] \<and> (\<exists>h. v = hashNode h)) \<and>
     rlp_small (compactKey k) \<and> rlp_small (rlpString G (compactKey k) @ encode G (embed G (collapse G v)))"
| "wfn G (fullNode cs f) \<longleftrightarrow> length cs = 17 \<and> (\<forall>c \<in> set cs. wfn G c) \<and> (\<forall>i < 16. \<forall>b. cs ! i \<noteq> valueNode b) \<and>
     (cs ! 16 = nilNode \<or> (\<exists>b. cs ! 16 = valueNode b)) \<and>
     rlp_small (concat (map (\<lambda>c. encode G (embed G (collapse G c))) cs))"
| "wfn G (valueNode b) \<longleftrightarrow> b \<noteq> [] \<and> rlp_small b"
| "wfn G (hashNode h) \<longleftrightarrow> length h = 32"
| "wfn G nilNode \<longleftrightarrow> True"
| "wfn G (rawFullNode cs) \<longleftrightarrow> False"
| "wfn G (rawShortNode k v) \<longleftrightarrow> False"
| "wfn G (rawNode b) \<longleftrightarrow> False"

definition stored :: "geth \<Rightarrow> node \<Rightarrow> bool" where
  "stored G c \<longleftrightarrow> branch c \<and> 32 \<le> length (encode G (collapse G c))"

definition storedHash :: "geth \<Rightarrow> node \<Rightarrow> bytes" where
  "storedHash G c = hash_bytes (keccak256 G (encode G (collapse G c)))"

fun reload :: "geth \<Rightarrow> bytes option \<Rightarrow> node \<Rightarrow> node" where
  "reload G h (shortNode k v f) =
     shortNode k (if stored G v then hashNode (storedHash G v) else reload G None v) \<lparr>flag_hash = h, flag_dirty = False\<rparr>"
| "reload G h (fullNode cs f) =
     fullNode (map (\<lambda>c. if stored G c then hashNode (storedHash G c) else reload G None c) cs) \<lparr>flag_hash = h, flag_dirty = False\<rparr>"
| "reload G h n = n"

lemma wfn_live: "wfn G n \<Longrightarrow> live n"
proof (induction n)
  case (fullNode cs f)
  then show ?case by (auto)
qed auto

lemma hex_path_key: "hex_key k \<or> nibbles k \<Longrightarrow> hex_path k"
  by (auto simp: hex_key_def hex_path_def nibbles_not_hasTerm)

lemma compactToHex_compactKey: "hex_key k \<or> nibbles k \<Longrightarrow> compactToHex (compactKey k) = k"
  using compact_roundtrip_parts [of "path_part k" "hasTerm k"] path_part_split [of k] hex_path_key [of k]
  by (simp add: compactKey_def hex_path_parts)

lemma hasTerm_hex_key: "hex_key k \<Longrightarrow> hasTerm k"
  by (auto simp: hex_key_def hasTerm_last)

lemma embed_stored: "stored G c \<Longrightarrow> embed G (collapse G c) = hashNode (storedHash G c)"
  using collapse_branch [of c G] by (auto simp: stored_def embed_def storedHash_def hashData_def)

lemma embed_not_stored: "\<not> stored G c \<Longrightarrow> live c \<Longrightarrow> embed G (collapse G c) = collapse G c"
  by (cases c) (auto simp: stored_def embed_def)

lemma embed_nil_iff: "live c \<Longrightarrow> embed G (collapse G c) = nilNode \<longleftrightarrow> c = nilNode"
  using embed_stored [of G c] embed_not_stored [of G c] by (cases "stored G c"; cases c) (auto simp: stored_def)

lemma length_storedHash [simp]: "length (storedHash G c) = 32"
  by (simp add: storedHash_def)

lemma not_branch_stored: "\<not> branch c \<Longrightarrow> \<not> stored G c"
  by (simp add: stored_def)

section \<open>The stored form can be decoded\<close>

lemma is_ref_embed:
  assumes "wfn G c" "branch c \<Longrightarrow> collapsed G (collapse G c)" "\<And>b. c \<noteq> valueNode b"
  shows "is_ref G (embed G (collapse G c))"
proof (cases "branch c")
  case True
  then show ?thesis using assms(2) embed_stored [of G c] embed_not_stored [of G c] wfn_live [OF assms(1)]
    by (cases "stored G c") (auto simp: is_ref_def is_hashRef_def stored_def)
next
  case False
  then show ?thesis using assms(1,3) by (cases c) (auto simp: is_ref_def is_hashRef_def embed_def)
qed

lemma collapsed_collapse: "wfn G n \<Longrightarrow> branch n \<Longrightarrow> collapsed G (collapse G n)"
proof (induction n)
  case (fullNode cs f)
  have r: "is_ref G (embed G (collapse G (cs ! i)))" if "i < 16" for i
  proof (rule is_ref_embed)
    show "wfn G (cs ! i)" using fullNode.prems(1) that by simp
    show "collapsed G (collapse G (cs ! i))" if "branch (cs ! i)"
      using that fullNode.prems(1) \<open>i < 16\<close> by (intro fullNode.IH) simp_all
    show "cs ! i \<noteq> valueNode b" for b using fullNode.prems(1) that by simp
  qed
  have "c = nilNode \<or> is_hashRef c \<or> (collapsed G c \<and> length (encode G c) \<le> 32)"
    if cin: "c \<in> set (take 16 (map (\<lambda>c. embed G (collapse G c)) cs))" for c
  proof -
    obtain i where "i < 16" "c = embed G (collapse G (cs ! i))"
      using cin fullNode.prems(1) by (auto simp: in_set_conv_nth)
    then show ?thesis using r [of i] by (simp add: is_ref_def)
  qed
  moreover have "embed G (collapse G (cs ! 16)) = cs ! 16"
    using fullNode.prems(1) by (auto simp: embed_def)
  moreover have "b \<noteq> [] \<and> rlp_small b" if "cs ! 16 = valueNode b" for b
  proof -
    have "wfn G (cs ! 16)" using fullNode.prems(1) by simp
    then show ?thesis using that by simp
  qed
  ultimately show ?case using fullNode.prems(1) by (auto simp: comp_def is_smallValue_def)
next
  case (shortNode k v f)
  from shortNode.prems(1) consider (leaf) b where "hex_key k" "v = valueNode b" | (ext) "nibbles k" "\<And>b. v \<noteq> valueNode b" "v \<noteq> nilNode"
    by auto
  then show ?case
  proof cases
    case leaf
    then show ?thesis using shortNode.prems(1) compactToHex_compactKey [of k] hasTerm_hex_key [of k]
      by (auto simp: embed_def is_smallValue_def)
  next
    case ext
    have "is_ref G (embed G (collapse G v))"
      using shortNode ext by (intro is_ref_embed) auto
    moreover have "embed G (collapse G v) \<noteq> nilNode" using ext(3) shortNode.prems(1) embed_nil_iff wfn_live by auto
    ultimately show ?thesis using shortNode.prems(1) compactToHex_compactKey [of k] ext(1) nibbles_not_hasTerm [of k]
      by (auto simp: is_ref_def)
  qed
qed auto

lemma expand_embed:
  assumes "live c" "c \<noteq> nilNode" "branch c \<Longrightarrow> expandNode None (collapse G c) = Inr (reload G None c)"
  shows "expandNode None (embed G (collapse G c)) = Inr (if stored G c then hashNode (storedHash G c) else reload G None c)"
proof (cases "stored G c")
  case True
  then show ?thesis by (simp add: embed_stored)
next
  case False
  then show ?thesis using assms embed_not_stored [OF False assms(1)] by (cases c) auto
qed

lemma expand_collapse: "wfn G n \<Longrightarrow> branch n \<Longrightarrow> expandNode h (collapse G n) = Inr (reload G h n)"
proof (induction n arbitrary: h)
  case (fullNode cs f)
  have nil: "embed G (collapse G c) = nilNode \<longleftrightarrow> c = nilNode" if "c \<in> set cs" for c
    using that fullNode.prems(1) by (intro embed_nil_iff) (auto intro: wfn_live)
  have "(if embed G (collapse G c) = nilNode then Inr nilNode else expandNode None (embed G (collapse G c)))
      = Inr (if stored G c then hashNode (storedHash G c) else reload G None c)" if "c \<in> set cs" for c
  proof (cases "c = nilNode")
    case True
    then show ?thesis by (simp add: embed_def not_branch_stored)
  next
    case False
    then show ?thesis using expand_embed [of c G] fullNode.IH [OF that] fullNode.prems(1) that wfn_live nil by auto
  qed
  then have "mapE (\<lambda>c. if c = nilNode then Inr nilNode else expandNode None c) (map (\<lambda>c. embed G (collapse G c)) cs)
      = Inr (map (\<lambda>c. if stored G c then hashNode (storedHash G c) else reload G None c) cs)"
    by (induction cs) auto
  then show ?case by simp
next
  case (shortNode k v f)
  have "expandNode None (embed G (collapse G v)) = Inr (if stored G v then hashNode (storedHash G v) else reload G None v)"
    using shortNode wfn_live by (intro expand_embed) auto
  then show ?case using compactToHex_compactKey [of k] shortNode.prems(1) by auto
qed auto

context rlp
begin

lemma decode_stored:
  assumes "wfn G n" "branch n"
  shows "mustDecodeNode G (Some h) (encode G (collapse G n)) = Inr (reload G (Some h) n)"
  using mustDecode_encode [OF rlp_axioms collapsed_collapse [OF assms] expand_collapse [OF assms]]
  by (simp add: nodeToBytes_def)

end

section \<open>Reloading keeps the stored form\<close>

lemma reload_leaf: "\<not> branch c \<Longrightarrow> reload G h c = c"
  by (cases c) auto

lemma stored_reload_child:
  "live c \<Longrightarrow> (branch c \<Longrightarrow> collapse G (reload G None c) = collapse G c) \<Longrightarrow>
   embed G (collapse G (if stored G c then hashNode (storedHash G c) else reload G None c)) = embed G (collapse G c)"
proof (cases "stored G c")
  case True
  then show ?thesis by (simp add: embed_stored) (simp add: embed_def)
next
  case False
  then show "live c \<Longrightarrow> (branch c \<Longrightarrow> collapse G (reload G None c) = collapse G c) \<Longrightarrow> ?thesis"
    by (cases "branch c") (auto simp: reload_leaf)
qed

lemma collapse_reload: "live n \<Longrightarrow> branch n \<Longrightarrow> collapse G (reload G h n) = collapse G n"
proof (induction n arbitrary: h)
  case (fullNode cs f)
  then show ?case by (auto simp: comp_def stored_reload_child)
next
  case (shortNode k v f)
  then show ?case by (auto simp: stored_reload_child)
qed auto

lemma reload_branch [simp]: "branch (reload G h n) = branch n"
  by (cases n) auto

lemma hashOf_eq: "collapse G n = collapse G n' \<Longrightarrow> hashOf G force n = hashOf G force n'"
  by (simp add: hashOf_def)

lemma filled_reload: "wfn G n \<Longrightarrow> branch n \<Longrightarrow> h = hashOf G force n \<Longrightarrow> filled G force (reload G h n)"
proof (induction n arbitrary: h force)
  case (fullNode cs f)
  have "\<forall>c \<in> set cs. filled G False (if stored G c then hashNode (storedHash G c) else reload G None c)"
  proof
    fix c assume c: "c \<in> set cs"
    show "filled G False (if stored G c then hashNode (storedHash G c) else reload G None c)"
      using fullNode.IH [OF c, of None False] fullNode.prems(1) c
      by (cases "branch c") (auto simp: stored_def hashOf_def reload_leaf filled_not_branch)
  qed
  moreover have "hashOf G force (reload G h (fullNode cs f)) = h"
    using hashOf_eq [OF collapse_reload [OF wfn_live [OF fullNode.prems(1)]]] fullNode.prems(2,3) by blast
  ultimately show ?case unfolding reload.simps filled.simps by (metis (mono_tags, lifting) imageE list.set_map nodeFlag.select_convs(1))
next
  case (shortNode k v f)
  have "filled G False (if stored G v then hashNode (storedHash G v) else reload G None v)"
    using shortNode.IH [of None False] shortNode.prems(1)
    by (cases "branch v") (auto simp: stored_def hashOf_def reload_leaf filled_not_branch)
  moreover have "hashOf G force (reload G h (shortNode k v f)) = h"
    using hashOf_eq [OF collapse_reload [OF wfn_live [OF shortNode.prems(1)]]] shortNode.prems(2,3) by blast
  ultimately show ?case by auto
qed auto

section \<open>Sizes\<close>

text \<open>Hash references of 32 bytes, short keys that are not empty.\<close>

fun hash32 :: "node \<Rightarrow> bool" where
  "hash32 (hashNode h) = (length h = 32)"
| "hash32 (shortNode k v f) = (k \<noteq> [] \<and> hash32 v)"
| "hash32 (fullNode cs f) = (\<forall>c \<in> set cs. hash32 c)"
| "hash32 n = True"

definition small_map :: "(bytes \<rightharpoonup> bytes) \<Rightarrow> bool" where
  "small_map m \<longleftrightarrow> (\<forall>s v. m s = Some v \<longrightarrow> length s < 2 ^ 32 \<and> length v < 2 ^ 32)"

lemma small_prefixed: "small_map (prefixed k m) \<Longrightarrow> m \<noteq> Map.empty \<Longrightarrow> small_map m \<and> length k < 2 ^ 32"
proof -
  assume s: "small_map (prefixed k m)" and "m \<noteq> Map.empty"
  then obtain t w where "m t = Some w" by (metis ext option.exhaust)
  then have "length (k @ t) < 2 ^ 32" using s unfolding small_map_def by (metis prefixed_hit(1))
  moreover have "small_map m"
    unfolding small_map_def
  proof (intro allI impI)
    fix t w assume "m t = Some w"
    then have "length (k @ t) < 2 ^ 32 \<and> length w < 2 ^ 32" using s unfolding small_map_def by (metis prefixed_hit(1))
    then show "length t < 2 ^ 32 \<and> length w < 2 ^ 32" by simp
  qed
  ultimately show ?thesis by simp
qed

lemma small_branching: "small_map (branching ms) \<Longrightarrow> i < 17 \<Longrightarrow> small_map (ms i)"
  unfolding small_map_def
proof (intro allI impI)
  fix s v assume "\<forall>s v. branching ms s = Some v \<longrightarrow> length s < 2 ^ 32 \<and> length v < 2 ^ 32" "i < 17" "ms i s = Some v"
  then have "length ((word_of_nat i :: byte) # s) < 2 ^ 32 \<and> length v < 2 ^ 32" by (metis branching_at)
  then show "length s < 2 ^ 32 \<and> length v < 2 ^ 32" by simp
qed

lemma length_compactKey: "length (compactKey k) \<le> length k + 1"
  by (auto simp: compactKey_def compact_of_def path_part_def)

lemma tnode_KFull_cases: "tnode G R p c KFull m \<Longrightarrow> (\<exists>cs g. c = fullNode cs g) \<or> (\<exists>h. c = hashNode h)"
  by (cases rule: tnode.cases) auto

context rlp
begin

lemma encode_string_bound: "length b < 2 ^ 33 \<Longrightarrow> length (rlpString G b) \<le> length b + 9"
  by (rule string_length) (simp add: rlp_small_def)

text \<open>The encoding of a reference: short, unless it is the value of a leaf.\<close>

lemma encode_embed_bound:
  assumes "live c" "hash32 c" "\<And>b. c = valueNode b \<Longrightarrow> length b < 2 ^ 32"
  shows "length (encode G (embed G (collapse G c))) < 2 ^ 32 + 64"
proof (cases "stored G c")
  case True
  then show ?thesis using encode_string_bound [of "storedHash G c"] by (simp add: embed_stored)
next
  case False
  then have e: "embed G (collapse G c) = collapse G c" by (rule embed_not_stored [OF _ assms(1)])
  show ?thesis
  proof (cases "branch c")
    case True
    then show ?thesis using False e by (simp add: stored_def)
  next
    case leaf: False
    have "length (rlpString G b) < 2 ^ 32 + 64" if "length b < 2 ^ 32" for b
      using encode_string_bound [of b] that by simp
    then show ?thesis unfolding e using assms leaf by (cases c) (auto simp: emptyString)
  qed
qed

lemma tnode_wfn:
  assumes "tnode G R p n kd m" "hash32 n" "small_map m" shows "wfn G n"
  using assms
proof (induction rule: tnode.induct)
  case (t_val v p)
  then have "length v < 2 ^ 32" unfolding small_map_def by (metis fun_upd_same)
  then show ?case using t_val.hyps by (simp add: rlp_small_def)
next
  case (t_short p k c kd m f)
  have ne: "m \<noteq> Map.empty" using tnode_nonempty t_short.hyps by blast
  have sm: "small_map m" "length k < 2 ^ 32" using small_prefixed [OF t_short.prems(2) ne] by auto
  have c: "wfn G c" "hash32 c" using t_short sm by auto
  have v: "length b < 2 ^ 32" if "c = valueNode b" for b
    using t_short.hyps(1) sm(1) that by (auto simp: small_map_def elim!: tnode_valE)
  have k: "length (compactKey k) < 2 ^ 33" using length_compactKey [of k] sm(2) by simp
  have sz: "rlp_small (rlpString G (compactKey k) @ encode G (embed G (collapse G c)))" "rlp_small (compactKey k)"
    using encode_string_bound [OF k] k encode_embed_bound [OF wfn_live [OF c(1)] c(2) v] by (auto simp: rlp_small_def)
  have "hex_key k \<and> (\<exists>b. c = valueNode b) \<or> nibbles k \<and> k \<noteq> [] \<and> (\<exists>cs g. c = fullNode cs g) \<or> nibbles k \<and> k \<noteq> [] \<and> (\<exists>h. c = hashNode h)"
    using t_short.hyps by (auto elim!: tnode_KValE dest!: tnode_KFull_cases)
  then show ?case using c(1) sz by simp
next
  case (t_full cs p ks ms f)
  have sm: "small_map (ms i)" if "i < 17" for i using small_branching [OF t_full.prems(2) that] .
  have c: "wfn G (cs ! i)" "hash32 (cs ! i)" if "i < 17" for i using t_full that sm [OF that] by auto
  have v: "length b < 2 ^ 32" if "cs ! i = valueNode b" "i < 17" for i b
    using t_full.hyps(2) [OF that(2)] sm [OF that(2)] that(1) by (auto simp: small_map_def elim!: tnode_valE)
  have "length (concat (map (\<lambda>c. encode G (embed G (collapse G c))) cs)) \<le> sum_list (map (\<lambda>c. 2 ^ 32 + 64) cs)"
    unfolding length_concat map_map
  proof (rule sum_list_mono)
    fix c assume "c \<in> set cs"
    then obtain i where i: "i < 17" "c = cs ! i" using t_full.hyps(1) by (auto simp: in_set_conv_nth)
    show "(length \<circ> (\<lambda>c. encode G (embed G (collapse G c)))) c \<le> 2 ^ 32 + 64"
      using encode_embed_bound [OF wfn_live [OF c(1) [OF i(1)]] c(2) [OF i(1)] v [OF _ i(1)]] i(2) by simp
  qed
  then have "rlp_small (concat (map (\<lambda>c. encode G (embed G (collapse G c))) cs))"
    using t_full.hyps(1) by (simp add: rlp_small_def sum_list_triv)
  moreover have "cs ! i \<noteq> valueNode b" if "i < 16" for i b
    using t_full.hyps(2) [of i] t_full.hyps(3) [OF that] that by (auto elim!: tnode_valE)
  moreover have "cs ! 16 = nilNode \<or> (\<exists>b. cs ! 16 = valueNode b)"
    using t_full.hyps(2) [of 16] t_full.hyps(4) by (auto elim!: tnode_KNilE tnode_KValE)
  ultimately show ?case using c t_full.hyps(1) by (auto simp: in_set_conv_nth)
qed auto

end

end
