(* ===== verification/TriePersist.thy ===== *)
theory TriePersist
  imports TrieReload SecureTrie
begin

text \<open>
  Committing a trie and opening it again. \<open>persists\<close> is the invariant of the nodes of a trie over a sound
  store: cached hashes are right, and a node that is not marked dirty is in the store together
  with everything below it. Insertion, deletion and lookup keep it, \<open>Hash\<close> fills in all
  hashes, and \<open>Commit\<close> hands out what is missing from the store: with it, the
  root hash alone gives back the content.
\<close>

section \<open>Sound stores\<close>

definition hash_laws :: "geth \<Rightarrow> bool" where
  "hash_laws G \<longleftrightarrow> (\<forall>h. BytesToHash G (hash_bytes h) = h) \<and> (\<forall>b. length b = 32 \<longrightarrow> hash_bytes (BytesToHash G b) = b)"

text \<open>A content-addressed store of encoded nodes; nodes below the root have at least 32 bytes.\<close>

definition sound_reader :: "geth \<Rightarrow> trieReader \<Rightarrow> bool" where
  "sound_reader G R \<longleftrightarrow> (\<forall>p h blob. nodeBlob R p h = Inr blob \<longrightarrow>
     keccak256 G blob = h \<and> (p = [] \<or> 32 \<le> length blob) \<and> (\<exists>n. branch n \<and> wfn G n \<and> blob = encode G (collapse G n)))"

definition serves :: "trieReader \<Rightarrow> trieReader \<Rightarrow> bool" where
  "serves R R' \<longleftrightarrow> (\<forall>p h blob. nodeBlob R p h = Inr blob \<longrightarrow> nodeBlob R' p h = Inr blob)"

definition onDisk :: "geth \<Rightarrow> trieReader \<Rightarrow> bytes \<Rightarrow> node \<Rightarrow> bool" where
  "onDisk G R p n \<longleftrightarrow> nodeBlob R p (keccak256 G (encode G (collapse G n))) = Inr (encode G (collapse G n))"

text \<open>Everything below a node that is not embedded is in the store.\<close>

fun saved :: "geth \<Rightarrow> trieReader \<Rightarrow> bytes \<Rightarrow> node \<Rightarrow> bool" where
  "saved G R p (shortNode k v f) \<longleftrightarrow> (stored G v \<longrightarrow> onDisk G R (p @ k) v) \<and> saved G R (p @ k) v"
| "saved G R p (fullNode cs f) \<longleftrightarrow> (\<forall>i. i < length cs \<longrightarrow>
     (stored G (cs ! i) \<longrightarrow> onDisk G R (p @ [word_of_nat i]) (cs ! i)) \<and> saved G R (p @ [word_of_nat i]) (cs ! i))"
| "saved G R p n \<longleftrightarrow> True"

definition kept :: "geth \<Rightarrow> trieReader \<Rightarrow> bytes \<Rightarrow> node \<Rightarrow> bool" where
  "kept G R p n \<longleftrightarrow> (hashOf G (p = []) n \<noteq> None \<longrightarrow> onDisk G R p n) \<and> saved G R p n"

fun clean :: "geth \<Rightarrow> trieReader \<Rightarrow> bytes \<Rightarrow> node \<Rightarrow> bool" where
  "clean G R p (shortNode k v f) \<longleftrightarrow> (\<not> flag_dirty f \<longrightarrow> kept G R p (shortNode k v f)) \<and> clean G R (p @ k) v"
| "clean G R p (fullNode cs f) \<longleftrightarrow> (\<not> flag_dirty f \<longrightarrow> kept G R p (fullNode cs f)) \<and>
     (\<forall>i. i < length cs \<longrightarrow> clean G R (p @ [word_of_nat i]) (cs ! i))"
| "clean G R p n \<longleftrightarrow> True"

definition persists :: "geth \<Rightarrow> trieReader \<Rightarrow> bytes \<Rightarrow> node \<Rightarrow> bool" where
  "persists G R p n \<longleftrightarrow> hash32 n \<and> sealed G (p = []) n \<and> clean G R p n"

lemma onDisk_collapse: "collapse G n = collapse G n' \<Longrightarrow> onDisk G R p n = onDisk G R p n'"
  by (simp add: onDisk_def)

lemma not_stored_reload: "live c \<Longrightarrow> \<not> stored G c \<Longrightarrow> \<not> stored G (reload G None c)"
  using collapse_reload [of c G None] by (cases "branch c") (auto simp: stored_def reload_leaf)

lemma saved_reload: "live n \<Longrightarrow> saved G R p (reload G h n)"
proof (induction n arbitrary: p h)
  case (fullNode cs f)
  then show ?case by (auto simp: not_stored_reload not_branch_stored)
qed (auto simp: not_stored_reload not_branch_stored)

lemma hash32_reload: "wfn G n \<Longrightarrow> hash32 (reload G h n)"
  by (induction n arbitrary: h) auto

lemma hashOf_reload: "live n \<Longrightarrow> branch n \<Longrightarrow> hashOf G force (reload G h n) = hashOf G force n"
  by (rule hashOf_eq) (rule collapse_reload)

lemma not_stored_hashOf: "branch n \<Longrightarrow> \<not> stored G n \<Longrightarrow> hashOf G False n = None"
  by (simp add: hashOf_def stored_def)

lemma clean_embedded: "live n \<Longrightarrow> \<not> stored G n \<Longrightarrow> p \<noteq> [] \<Longrightarrow> clean G R p (reload G None n)"
proof (induction n arbitrary: p)
  case (fullNode cs f)
  have "hashOf G False (reload G None (fullNode cs f)) = None"
    using hashOf_reload [OF fullNode.prems(1)] not_stored_hashOf [OF _ fullNode.prems(2)] by (simp del: reload.simps)
  moreover have "clean G R (p @ [word_of_nat i]) (if stored G (cs ! i) then hashNode (storedHash G (cs ! i)) else reload G None (cs ! i))"
    if "i < length cs" for i using that fullNode by auto
  ultimately show ?case using saved_reload [OF fullNode.prems(1), of G R p None] fullNode.prems(3)
    by (simp add: kept_def del: saved.simps)
next
  case (shortNode k v f)
  have "hashOf G False (reload G None (shortNode k v f)) = None"
    using hashOf_reload [OF shortNode.prems(1)] not_stored_hashOf [OF _ shortNode.prems(2)] by (simp del: reload.simps)
  then show ?case using saved_reload [OF shortNode.prems(1), of G R p None] shortNode
    by (simp add: kept_def del: saved.simps)
qed auto

text \<open>What a sound store delivers satisfies the invariant.\<close>

lemma clean_reload:
  assumes "wfn G n" "branch n" "onDisk G R p n" shows "clean G R p (reload G h n)"
proof -
  have k: "kept G R p (reload G h n)"
    using assms saved_reload wfn_live onDisk_collapse [OF collapse_reload] unfolding kept_def by metis
  show ?thesis
  proof (cases n)
    case (fullNode cs f)
    have "clean G R (p @ [word_of_nat i]) (if stored G (cs ! i) then hashNode (storedHash G (cs ! i)) else reload G None (cs ! i))"
      if "i < length cs" for i
    proof -
      have "wfn G (cs ! i)" using that assms(1) fullNode by simp
      then show ?thesis using clean_embedded [OF wfn_live] by simp
    qed
    then show ?thesis using k fullNode by (simp del: saved.simps)
  next
    case (shortNode k v f)
    then show ?thesis using k assms(1) clean_embedded [of v G "p @ k"] by (auto intro: wfn_live simp del: saved.simps)
  qed (use assms in auto)
qed

lemma reload_tops: "branch n \<Longrightarrow> \<forall>h'. reload G h n \<noteq> hashNode h'"
  by (cases n) auto

lemma sound_resolves:
  assumes "rlp G" "sound_reader G R" "hash_laws G" "resolves G R p h blob n" "length h = 32"
  shows "\<exists>n0. branch n0 \<and> wfn G n0 \<and> n = reload G (Some h) n0 \<and> onDisk G R p n0 \<and> Some h = hashOf G (p = []) n0
    \<and> storedHash G n0 = h \<and> (p \<noteq> [] \<longrightarrow> stored G n0)"
proof -
  have b: "nodeBlob R p (BytesToHash G h) = Inr blob" "mustDecodeNode G (Some h) blob = Inr n"
    using assms(4) by (auto simp: resolves_def)
  obtain n0 where n0: "branch n0" "wfn G n0" "blob = encode G (collapse G n0)" and k: "keccak256 G blob = BytesToHash G h"
    "p = [] \<or> 32 \<le> length blob" using assms(2) b(1) unfolding sound_reader_def by blast
  have h: "hash_bytes (keccak256 G (encode G (collapse G n0))) = h"
    using k(1) n0(3) assms(3,5) by (simp add: hash_laws_def)
  have "n = reload G (Some h) n0" using rlp.decode_stored [OF assms(1) n0(2,1), of h] b(2) n0(3) by simp
  then show ?thesis using n0 b(1) k h by (auto simp: onDisk_def hashOf_def storedHash_def stored_def)
qed

lemma persists_resolved:
  assumes "rlp G" "sound_reader G R" "hash_laws G" "persists G R p (hashNode h)" "resolves G R p h blob n"
  shows "persists G R p n"
proof -
  have "length h = 32" using assms(4) by (simp add: persists_def)
  from sound_resolves [OF assms(1-3,5) this] show ?thesis
    unfolding persists_def using hash32_reload filled_sealed [OF filled_reload] clean_reload by metis
qed

lemma sealed_sub:
  "sealed G force (shortNode k v f) \<Longrightarrow> sealed G False v"
  "sealed G force (fullNode cs f) \<Longrightarrow> c \<in> set cs \<Longrightarrow> sealed G False c"
  by (auto simp: filled_sealed)

lemma newFlag_simps [simp]: "flag_hash newFlag = None" "flag_dirty newFlag"
  by (simp_all add: newFlag_def)

lemma persists_invariant:
  assumes "rlp G" "sound_reader G R" "hash_laws G" shows "node_invariant G R (persists G R)"
proof
  show "persists G R p nilNode" for p by (simp add: persists_def)
  show "persists G R p (shortNode k v newFlag)"
    if "persists G R (p @ k) v" "k \<noteq> [] \<or> (\<exists>v' f'. persists G R p (shortNode k v' f'))" for p k v
    using that by (auto simp: persists_def)
  show "persists G R p (fullNode cs newFlag)"
    if "\<And>i. i < length cs \<Longrightarrow> persists G R (p @ [word_of_nat i]) (cs ! i)" for p cs
    using that by (auto simp: persists_def in_set_conv_nth)
  show "persists G R (p @ k) v" if "persists G R p (shortNode k v f)" for p k v f
    using that sealed_sub(1) by (auto simp: persists_def simp del: sealed.simps)
  show "persists G R (p @ [word_of_nat i]) (cs ! i)" if "persists G R p (fullNode cs f)" "i < length cs" for p cs f i
    using that sealed_sub(2) [of G "p = []" cs f "cs ! i"] by (auto simp: persists_def simp del: sealed.simps)
  show "persists G R p n" if "persists G R p (hashNode h)" "resolves G R p h blob n" for p h blob n
    by (rule persists_resolved [OF assms that])
qed

section \<open>Meaning of what is read back\<close>

lemma tnode_mono: "tnode G R p n kd m \<Longrightarrow> serves R R' \<Longrightarrow> tnode G R' p n kd m"
proof (induction rule: tnode.induct)
  case (t_full cs p ks ms f)
  then show ?case by (intro tnode.t_full [where ks = ks]) auto
next
  case (t_hash p h blob n kd m)
  then show ?case by (auto simp: resolves_def serves_def intro!: tnode.t_hash)
qed (auto intro: tnode.t_nil tnode.t_val tnode.t_short)

lemma tnode_branch_kind: "tnode G R p n kd m \<Longrightarrow> branch n \<Longrightarrow> kd = KShort \<or> kd = KFull"
  by (cases rule: tnode.cases) auto

lemma tnode_stored:
  assumes "rlp G" "hash_laws G" "wfn G c" "branch c" "onDisk G R p c" "kd = KShort \<or> kd = KFull"
    "tnode G R p (reload G (Some (storedHash G c)) c) kd m"
  shows "tnode G R p (hashNode (storedHash G c)) kd m"
proof (rule tnode.t_hash [OF _ assms(7,6)])
  show "resolves G R p (storedHash G c) (encode G (collapse G c)) (reload G (Some (storedHash G c)) c)"
    using assms(2,5) rlp.decode_stored [OF assms(1,3,4)] by (simp add: resolves_def onDisk_def storedHash_def hash_laws_def)
  show "reload G (Some (storedHash G c)) c \<noteq> hashNode h'" for h' using assms(4) by (cases c) auto
qed

lemma tnode_reload_child:
  assumes "rlp G" "hash_laws G" "tnode G R p c kd m" "wfn G c" "serves R R'" "stored G c \<longrightarrow> onDisk G R' p c"
    and IH: "branch c \<Longrightarrow> \<forall>h. tnode G R' p (reload G h c) kd m"
  shows "tnode G R' p (if stored G c then hashNode (storedHash G c) else reload G None c) kd m"
proof (cases "branch c")
  case True
  then show ?thesis using tnode_stored [OF assms(1,2,4) True, of R' p kd m] assms(6) IH tnode_branch_kind [OF assms(3)] by auto
next
  case False
  then show ?thesis using tnode_mono [OF assms(3,5)] by (simp add: not_branch_stored reload_leaf)
qed

lemma two_children_map:
  assumes "\<And>x. f x = nilNode \<longleftrightarrow> x = nilNode" "length cs = 17" shows "two_children (map f cs) \<longleftrightarrow> two_children cs"
proof -
  have "map f cs ! i \<noteq> nilNode \<longleftrightarrow> cs ! i \<noteq> nilNode" if "i < 17" for i using that assms by simp
  then show ?thesis unfolding two_children_def by blast
qed

lemma tnode_reload:
  assumes "rlp G" "hash_laws G" "tnode G R p n kd m" "wfn G n" "serves R R'" "saved G R' p n" "branch n"
  shows "tnode G R' p (reload G h n) kd m"
  using assms(3,4,6,7)
proof (induction arbitrary: h rule: tnode.induct)
  case (t_short p k c kd m f)
  have "tnode G R' (p @ k) (if stored G c then hashNode (storedHash G c) else reload G None c) kd m"
    using t_short by (intro tnode_reload_child [OF assms(1,2) t_short.hyps(1) _ assms(5)]) auto
  then show ?case using t_short.hyps(2) by (auto simp del: if_split intro!: tnode.t_short)
next
  case (t_full cs p ks ms f)
  let ?c = "\<lambda>c. if stored G c then hashNode (storedHash G c) else reload G None c"
  have w: "wfn G (cs ! i)" "stored G (cs ! i) \<longrightarrow> onDisk G R' (p @ [word_of_nat i]) (cs ! i)" "saved G R' (p @ [word_of_nat i]) (cs ! i)"
    if "i < 17" for i using that t_full.prems t_full.hyps(1) by auto
  have c: "tnode G R' (p @ [word_of_nat i]) (?c (cs ! i)) (ks i) (ms i)" if "i < 17" for i
    using t_full.IH [OF that w(1,3) [OF that]]
    by (intro tnode_reload_child [OF assms(1,2) t_full.hyps(2) [OF that] w(1) [OF that] assms(5) w(2) [OF that]]) auto
  have "?c x = nilNode \<longleftrightarrow> x = nilNode" for x by (cases x) (auto simp: stored_def)
  then have "two_children (map ?c cs)"
    using two_children_map [OF _ t_full.hyps(1), of ?c] t_full.hyps(5) by blast
  then show ?case unfolding reload.simps using c t_full.hyps(1,3,4) by (intro tnode.t_full [where ks = ks]) auto
qed auto

end
