(* ===== verification/TrieReopen.thy ===== *)
theory TrieReopen
  imports TriePersist
begin

text \<open>
  The committer puts into the node set every node the store does not have yet: a reader that also
  delivers the node set has the whole trie under its root hash.
\<close>

section \<open>What a node set delivers\<close>

definition delivers :: "geth \<Rightarrow> trieReader \<Rightarrow> NodeSet \<Rightarrow> bytes \<Rightarrow> bool" where
  "delivers G R S p \<longleftrightarrow> (\<forall>q mn. prefix p q \<longrightarrow> ns_nodes S q = Some mn \<longrightarrow> mn_node mn \<noteq> nilNode \<longrightarrow>
     nodeBlob R q (mn_hash mn) = Inr (memoryNode_rlp G mn))"

definition same_outside :: "bytes \<Rightarrow> NodeSet \<Rightarrow> NodeSet \<Rightarrow> bool" where
  "same_outside p S S' \<longleftrightarrow> (\<forall>q. \<not> prefix p q \<longrightarrow> ns_nodes S' q = ns_nodes S q)"

text \<open>What the committer makes of a child: its reference, in a form that can be stored in the parent.\<close>

definition refers :: "geth \<Rightarrow> node \<Rightarrow> node \<Rightarrow> bool" where
  "refers G c r \<longleftrightarrow> (if c = nilNode then r = nilNode
     else r \<noteq> nilNode \<and> simplifyNode r = Inr (embed G (collapse G c)) \<and> (\<exists>z. estimateSize r = Inr z))"

definition kid_ok :: "geth \<Rightarrow> trieReader \<Rightarrow> bytes \<Rightarrow> node \<Rightarrow> bool" where
  "kid_ok G R p c \<longleftrightarrow> (stored G c \<longrightarrow> onDisk G R p c) \<and> saved G R p c"

text \<open>Every node of a set is the collapsed form of a trie node, under the hash of its encoding; what a commit may do to a set.\<close>

definition made :: "geth \<Rightarrow> NodeSet \<Rightarrow> bool" where
  "made G S \<longleftrightarrow> (\<forall>q mn. ns_nodes S q = Some mn \<longrightarrow> mn = deletedNode
     \<or> (\<exists>n. branch n \<and> wfn G n \<and> mn_node mn = collapse G n \<and> mn_hash mn = keccak256 G (encode G (collapse G n))))"

definition grown :: "geth \<Rightarrow> bool \<Rightarrow> NodeSet \<Rightarrow> NodeSet \<Rightarrow> bool" where
  "grown G cl S S' \<longleftrightarrow> ns_owner S' = ns_owner S \<and> (\<not> cl \<longrightarrow> ns_leaves S' = ns_leaves S) \<and> (made G S \<longrightarrow> made G S')"

lemma grown_refl [simp]: "grown G cl S S"
  by (simp add: grown_def)

lemma grown_trans: "grown G cl S S1 \<Longrightarrow> grown G cl S1 S2 \<Longrightarrow> grown G cl S S2"
  by (simp add: grown_def)

lemma grown_deleted: "grown G cl S (markDeleted S p)"
  by (simp add: grown_def markDeleted_def made_def)

definition commits :: "geth \<Rightarrow> trieReader \<Rightarrow> bool \<Rightarrow> bytes \<Rightarrow> node \<Rightarrow> bool" where
  "commits G R cl p n \<longleftrightarrow> (\<forall>S. \<exists>r S'. commit G cl S p n = Inr (r, S') \<and> same_outside p S S' \<and> grown G cl S S'
     \<and> (\<forall>h. hashOf G (p = []) n = Some h \<longrightarrow> r = hashNode h) \<and> (p \<noteq> [] \<longrightarrow> refers G n r)
     \<and> (\<forall>R'. serves R R' \<longrightarrow> delivers G R' S' p \<longrightarrow> kept G R' p n))"

lemma saved_mono: "saved G R p n \<Longrightarrow> serves R R' \<Longrightarrow> saved G R' p n"
  by (induction n arbitrary: p) (auto simp: onDisk_def serves_def)

lemma kept_mono: "kept G R p n \<Longrightarrow> serves R R' \<Longrightarrow> kept G R' p n"
  using saved_mono [of G R p n R'] by (auto simp: kept_def onDisk_def serves_def)

lemma kept_kid: "kept G R p c \<Longrightarrow> p \<noteq> [] \<Longrightarrow> kid_ok G R p c"
  by (auto simp: kept_def kid_ok_def hashOf_def stored_def)

lemma kid_leaf: "\<not> branch c \<Longrightarrow> kid_ok G R p c"
  by (cases c) (auto simp: kid_ok_def stored_def)

lemma refers_leaf: "\<not> branch c \<Longrightarrow> live c \<Longrightarrow> refers G c c"
  by (cases c) (auto simp: refers_def embed_def)

lemma refers_hash: "stored G c \<Longrightarrow> refers G c (hashNode (storedHash G c))"
  by (auto simp: refers_def embed_stored) (auto simp: stored_def)

lemma same_outside_refl [simp]: "same_outside p S S"
  by (simp add: same_outside_def)

lemma same_outside_trans: "same_outside p S S' \<Longrightarrow> same_outside p S' S'' \<Longrightarrow> same_outside p S S''"
  by (simp add: same_outside_def)

lemma same_outside_longer: "same_outside (p @ k) S S' \<Longrightarrow> same_outside p S S'"
  unfolding same_outside_def by (metis append_prefixD)

section \<open>Storing one node\<close>

lemma store_correct:
  assumes c: "cache n = Inr (hashOf G (p = []) n0, d)" "simplifyNode n = Inr (collapse G n0)" "estimateSize n = Inr z"
    and n0: "branch n0" "wfn G n0" and law: "hash_laws G"
  shows "\<exists>r S'. store G cl S p n = Inr (r, S') \<and> grown G cl S S' \<and> (\<forall>q. q \<noteq> p \<longrightarrow> ns_nodes S' q = ns_nodes S q)
    \<and> (\<forall>h. hashOf G (p = []) n0 = Some h \<longrightarrow> r = hashNode h) \<and> (p \<noteq> [] \<longrightarrow> refers G n0 r)
    \<and> (\<forall>R. delivers G R S' p \<longrightarrow> hashOf G (p = []) n0 \<noteq> None \<longrightarrow> onDisk G R p n0)"
proof (cases "hashOf G (p = []) n0")
  case None
  have "refers G n0 n" if "p \<noteq> []"
  proof -
    have "\<not> stored G n0" using None that n0(1) by (auto simp: hashOf_def stored_def split: if_splits)
    then have "embed G (collapse G n0) = collapse G n0" using embed_not_stored wfn_live [OF n0(2)] by blast
    then show ?thesis using c(2,3) n0(1) by (cases n0) (auto simp: refers_def)
  qed
  then show ?thesis using c(1) None grown_deleted [of G cl S p] by (auto simp: store_def markDeleted_def)
next
  case (Some h)
  then have h: "h = storedHash G n0" by (auto simp: hashOf_def storedHash_def split: if_splits)
  have bh: "BytesToHash G h = keccak256 G (encode G (collapse G n0))" using h law by (simp add: storedHash_def hash_laws_def)
  define mn where "mn = \<lparr>mn_hash = BytesToHash G h, mn_size = word_of_int z, mn_node = collapse G n0\<rparr>"
  obtain S' where S': "store G cl S p n = Inr (hashNode h, S')" "ns_nodes S' = (ns_nodes S)(p \<mapsto> mn)"
    "ns_owner S' = ns_owner S" "\<not> cl \<longrightarrow> ns_leaves S' = ns_leaves S"
    using c Some by (auto simp: store_def Let_def mn_def markUpdated_def addLeaf_def split: node.splits if_splits)
  have "memoryNode_rlp G mn = encode G (collapse G n0)" "mn_node mn \<noteq> nilNode"
    using n0(1) by (cases n0; auto simp: mn_def memoryNode_rlp_def nodeToBytes_def)+
  then have "onDisk G R p n0" if "delivers G R S' p" for R
    using that S'(2) bh unfolding delivers_def onDisk_def mn_def by (metis fun_upd_same memoryNode.select_convs(1) prefix_order.refl)
  moreover have "refers G n0 (hashNode h)" if "p \<noteq> []"
    using refers_hash h Some that n0(1) by (auto simp: hashOf_def stored_def split: if_splits)
  moreover have "grown G cl S S'" using S'(2-4) n0 bh by (auto simp: grown_def made_def mn_def)
  ultimately show ?thesis using S'(1,2) Some by auto
qed

section \<open>Committing a subtree\<close>

lemma filled_cache: "filled G force n \<Longrightarrow> branch n \<Longrightarrow> \<exists>d. cache n = Inr (hashOf G force n, d)"
  by (cases n) auto

lemma commit_clean:
  assumes "filled G (p = []) n" "clean G R p n" "branch n" "cache n = Inr (Some h, False)"
  shows "commits G R cl p n"
proof -
  have k: "kept G R p n" and h: "hashOf G (p = []) n = Some h" using assms by (cases n; auto)+
  have "refers G n (hashNode h)" if "p \<noteq> []"
    using refers_hash [of G n] h that assms(3) by (auto simp: hashOf_def stored_def storedHash_def split: if_splits)
  then show ?thesis unfolding commits_def using k h assms(4) by (auto simp: commit.simps [of G cl _ p n] intro: kept_mono)
qed

lemma kept_from:
  assumes "\<forall>R. delivers G R S' p \<longrightarrow> hashOf G (p = []) n \<noteq> None \<longrightarrow> onDisk G R p n"
    "\<And>R'. serves R R' \<Longrightarrow> delivers G R' S' p \<Longrightarrow> saved G R' p n"
  shows "\<forall>R'. serves R R' \<longrightarrow> delivers G R' S' p \<longrightarrow> kept G R' p n"
  using assms by (simp add: kept_def)

text \<open>Entries strictly below a path survive the store at it.\<close>

lemma delivers_below:
  assumes "delivers G R S' p" "\<forall>q. q \<noteq> p \<longrightarrow> ns_nodes S' q = ns_nodes S q" "k \<noteq> []"
  shows "delivers G R S (p @ k)"
  unfolding delivers_def
proof (intro allI impI)
  fix q mn assume q: "prefix (p @ k) q" "ns_nodes S q = Some mn" "mn_node mn \<noteq> nilNode"
  then have "q \<noteq> p" using assms(3) by (auto simp: prefix_def)
  then have "ns_nodes S' q = Some mn" using assms(2) q(2) by simp
  moreover have "prefix p q" using q(1) by (rule append_prefixD)
  ultimately show "nodeBlob R q (mn_hash mn) = Inr (memoryNode_rlp G mn)" using assms(1) q(3) unfolding delivers_def by blast
qed

lemma same_outside_store:
  "same_outside (p @ k) S S1 \<Longrightarrow> \<forall>q. q \<noteq> p \<longrightarrow> ns_nodes S' q = ns_nodes S1 q \<Longrightarrow> same_outside p S S'"
  unfolding same_outside_def by (metis append_prefixD prefix_order.refl)

lemma commit_short:
  assumes n: "n = shortNode k v f" "wfn G n" "filled G (p = []) n" and law: "hash_laws G" and nc: "\<forall>h. cache n \<noteq> Inr (Some h, False)"
    and IH: "\<And>cs g. v = fullNode cs g \<Longrightarrow> commits G R cl (p @ k) v"
  shows "commits G R cl p n"
  unfolding commits_def
proof
  fix S
  have k: "k \<noteq> []" using n(1,2) by auto
  obtain r S1 where r: "(if (case v of fullNode _ _ \<Rightarrow> True | _ \<Rightarrow> False) then commit G cl S (p @ k) v else Inr (v, S)) = Inr (r, S1)"
    "same_outside (p @ k) S S1" "refers G v r" "\<And>R'. serves R R' \<Longrightarrow> delivers G R' S1 (p @ k) \<Longrightarrow> kid_ok G R' (p @ k) v"
    "grown G cl S S1"
  proof (cases "\<exists>cs g. v = fullNode cs g")
    case True
    then obtain r S1 where "commit G cl S (p @ k) v = Inr (r, S1)" "same_outside (p @ k) S S1" "refers G v r"
      "\<And>R'. serves R R' \<Longrightarrow> delivers G R' S1 (p @ k) \<Longrightarrow> kept G R' (p @ k) v" "grown G cl S S1"
      using IH k unfolding commits_def by blast
    then show ?thesis using that [of r S1] True k kept_kid by auto
  next
    case False
    then have "\<not> branch v" "live v" using n(1,2) wfn_live by auto
    then show ?thesis using that [of v S] False refers_leaf kid_leaf by (auto split: node.splits)
  qed
  have v: "v \<noteq> nilNode" using n(1,2) by auto
  obtain d where c: "cache (shortNode (compactKey k) r f) = Inr (hashOf G (p = []) n, d)" using n(1,3) by auto
  have "simplifyNode (shortNode (compactKey k) r f) = Inr (collapse G n)" "\<exists>z. estimateSize (shortNode (compactKey k) r f) = Inr z"
    using r(3) v n(1) by (auto simp: refers_def)
  then obtain r' S' where st: "store G cl S1 p (shortNode (compactKey k) r f) = Inr (r', S')" "\<forall>q. q \<noteq> p \<longrightarrow> ns_nodes S' q = ns_nodes S1 q"
    "\<forall>h. hashOf G (p = []) n = Some h \<longrightarrow> r' = hashNode h" "p \<noteq> [] \<longrightarrow> refers G n r'"
    "\<forall>R. delivers G R S' p \<longrightarrow> hashOf G (p = []) n \<noteq> None \<longrightarrow> onDisk G R p n" "grown G cl S1 S'"
    using store_correct [OF c _ _ _ n(2) law, of _ cl S1] n(1) by auto
  have "saved G R' p n" if "serves R R'" "delivers G R' S' p" for R'
    using r(4) [OF that(1) delivers_below [OF that(2) st(2) k]] n(1) by (simp add: kid_ok_def)
  from kept_from [OF st(5) this]
  have "\<forall>R'. serves R R' \<longrightarrow> delivers G R' S' p \<longrightarrow> kept G R' p n" .
  moreover have "commit G cl S p n = Inr (r', S')"
    using nc r(1) st(1) unfolding n(1) commit.simps [of G cl S p "shortNode k v f"]
    by (auto simp: hexToCompact_eq compactKey_def simp del: if_split)
  ultimately show "\<exists>r S'. commit G cl S p n = Inr (r, S') \<and> same_outside p S S' \<and> grown G cl S S'
     \<and> (\<forall>h. hashOf G (p = []) n = Some h \<longrightarrow> r = hashNode h) \<and> (p \<noteq> [] \<longrightarrow> refers G n r)
     \<and> (\<forall>R'. serves R R' \<longrightarrow> delivers G R' S' p \<longrightarrow> kept G R' p n)"
    using st(3,4) same_outside_store [OF r(2) st(2)] grown_trans [OF r(5) st(6)] by blast
qed

text \<open>The children of a full node, from index \<open>i\<close> on.\<close>

definition kids_commit :: "geth \<Rightarrow> trieReader \<Rightarrow> bool \<Rightarrow> bytes \<Rightarrow> nat \<Rightarrow> node list \<Rightarrow> bool" where
  "kids_commit G R cl p i cs \<longleftrightarrow> (\<forall>S. \<exists>rs S'. commitChildren G cl S p i cs = Inr (rs, S') \<and> list_all2 (refers G) cs rs \<and> grown G cl S S'
     \<and> (\<forall>q. (\<forall>j < length cs. \<not> prefix (p @ [word_of_nat (i + j)]) q) \<longrightarrow> ns_nodes S' q = ns_nodes S q)
     \<and> (\<forall>R'. serves R R' \<longrightarrow> (\<forall>j < length cs. delivers G R' S' (p @ [word_of_nat (i + j)])) \<longrightarrow>
          (\<forall>j < length cs. kid_ok G R' (p @ [word_of_nat (i + j)]) (cs ! j))))"

lemma prefix_other:
  "i < 17 \<Longrightarrow> j < 17 \<Longrightarrow> i \<noteq> j \<Longrightarrow> prefix (p @ [word_of_nat i :: byte]) q \<Longrightarrow> \<not> prefix (p @ [word_of_nat j]) q"
  by (auto simp: prefix_def) (metis word_of_nat_17)

lemma all_less_Suc: "(\<forall>j < Suc n. P j) \<longleftrightarrow> P 0 \<and> (\<forall>j < n. P (Suc j))"
  by (metis Suc_less_eq less_Suc_eq_0_disj zero_less_Suc)

lemma kids_step:
  assumes c: "wfn G c" "i < 16 \<longrightarrow> branch c \<longrightarrow> commits G R cl (p @ [word_of_nat i]) c" "i < 16 \<longrightarrow> (\<forall>b. c \<noteq> valueNode b)" "16 \<le> i \<longrightarrow> \<not> branch c"
    and rest: "kids_commit G R cl p (Suc i) cs" and len: "i + Suc (length cs) \<le> 17"
  shows "kids_commit G R cl p i (c # cs)"
  unfolding kids_commit_def
proof
  fix S
  let ?x = "word_of_nat i :: byte"
  obtain r S1 where r: "(if i < 16 \<and> c \<noteq> nilNode \<and> (case c of hashNode _ \<Rightarrow> False | _ \<Rightarrow> True) then commit G cl S (p @ [?x]) c else Inr (c, S))
      = Inr (r, S1)" "same_outside (p @ [?x]) S S1" "refers G c r"
    "\<And>R'. serves R R' \<Longrightarrow> delivers G R' S1 (p @ [?x]) \<Longrightarrow> kid_ok G R' (p @ [?x]) c" "grown G cl S S1"
  proof (cases "branch c")
    case True
    then obtain r S1 where "commit G cl S (p @ [?x]) c = Inr (r, S1)" "same_outside (p @ [?x]) S S1" "refers G c r"
      "\<And>R'. serves R R' \<Longrightarrow> delivers G R' S1 (p @ [?x]) \<Longrightarrow> kept G R' (p @ [?x]) c" "grown G cl S S1"
      using c(2,4) unfolding commits_def by (metis not_le append_is_Nil_conv list.distinct(1))
    moreover have "i < 16" "c \<noteq> nilNode" "(case c of hashNode _ \<Rightarrow> False | _ \<Rightarrow> True)"
      using True c(4) by (cases c; auto)+
    ultimately show ?thesis using that [of r S1] kept_kid by auto
  next
    case False
    then have "\<not> (i < 16 \<and> c \<noteq> nilNode \<and> (case c of hashNode _ \<Rightarrow> False | _ \<Rightarrow> True))" using c(1,3) by (cases c) auto
    then show ?thesis using that [of c S] False refers_leaf wfn_live [OF c(1)] kid_leaf by auto
  qed
  obtain rs S2 where rs: "commitChildren G cl S1 p (Suc i) cs = Inr (rs, S2)" "list_all2 (refers G) cs rs"
    "\<And>q. (\<forall>j < length cs. \<not> prefix (p @ [word_of_nat (Suc i + j)]) q) \<Longrightarrow> ns_nodes S2 q = ns_nodes S1 q"
    "\<And>R'. serves R R' \<Longrightarrow> (\<forall>j < length cs. delivers G R' S2 (p @ [word_of_nat (Suc i + j)])) \<Longrightarrow>
          (\<forall>j < length cs. kid_ok G R' (p @ [word_of_nat (Suc i + j)]) (cs ! j))" "grown G cl S1 S2"
    using rest unfolding kids_commit_def by blast
  have keep: "ns_nodes S2 q = ns_nodes S1 q" if "prefix (p @ [?x]) q" for q
  proof (rule rs(3), intro allI impI)
    fix j assume "j < length cs"
    then show "\<not> prefix (p @ [word_of_nat (Suc i + j)]) q"
      using len by (intro prefix_other [OF _ _ _ that]) auto
  qed
  have "kid_ok G R' (p @ [?x]) c" if "serves R R'" "delivers G R' S2 (p @ [?x])" for R'
    using r(4) [OF that(1)] that(2) keep unfolding delivers_def by metis
  moreover have "ns_nodes S2 q = ns_nodes S q" if "\<not> prefix (p @ [?x]) q" "\<forall>j < length cs. \<not> prefix (p @ [word_of_nat (Suc i + j)]) q" for q
    using rs(3) [OF that(2)] that(1) r(2) by (simp add: same_outside_def)
  moreover have "commitChildren G cl S p i (c # cs) = Inr (r # rs, S2)" using r(1) rs(1) by (simp del: if_split)
  ultimately show "\<exists>rs S'. commitChildren G cl S p i (c # cs) = Inr (rs, S') \<and> list_all2 (refers G) (c # cs) rs \<and> grown G cl S S'
     \<and> (\<forall>q. (\<forall>j < length (c # cs). \<not> prefix (p @ [word_of_nat (i + j)]) q) \<longrightarrow> ns_nodes S' q = ns_nodes S q)
     \<and> (\<forall>R'. serves R R' \<longrightarrow> (\<forall>j < length (c # cs). delivers G R' S' (p @ [word_of_nat (i + j)])) \<longrightarrow>
          (\<forall>j < length (c # cs). kid_ok G R' (p @ [word_of_nat (i + j)]) ((c # cs) ! j)))"
    using r(3) rs(2,4) grown_trans [OF r(5) rs(5)] unfolding length_Cons all_less_Suc add_0_right add_Suc_right add_Suc
    by (intro exI [of _ "r # rs"] exI [of _ S2]) (simp del: if_split of_nat_Suc of_nat_add)
qed

lemma kids_all:
  assumes "\<forall>c \<in> set cs. wfn G c" "i + length cs \<le> 17" "\<forall>j < length cs. i + j < 16 \<longrightarrow> branch (cs ! j) \<longrightarrow> commits G R cl (p @ [word_of_nat (i + j)]) (cs ! j)"
    "\<forall>j < length cs. i + j < 16 \<longrightarrow> (\<forall>b. cs ! j \<noteq> valueNode b)" "\<forall>j < length cs. 16 \<le> i + j \<longrightarrow> \<not> branch (cs ! j)"
  shows "kids_commit G R cl p i cs"
  using assms
proof (induction cs arbitrary: i)
  case Nil
  then show ?case by (simp add: kids_commit_def)
next
  case (Cons c cs)
  note a = Cons.prems(3-5) [unfolded length_Cons all_less_Suc nth_Cons_0 nth_Cons_Suc add_0_right add_Suc_right]
  have "kids_commit G R cl p (Suc i) cs"
    using a Cons.prems(1,2) unfolding add_Suc [symmetric] by (intro Cons.IH) auto
  then show ?case using a Cons.prems(1,2) by (intro kids_step) auto
qed

lemma embed_nilNode: "embed G nilNode = nilNode"
  by (simp add: embed_def)

lemma refers_mapE:
  "list_all2 (refers G) cs rs \<Longrightarrow> \<forall>c \<in> set cs. live c \<Longrightarrow>
   mapE (\<lambda>c. if c = nilNode then Inr nilNode else simplifyNode c) rs = Inr (map (\<lambda>c. embed G (collapse G c)) cs)"
  by (induction rule: list_all2_induct) (auto simp: refers_def embed_nil_iff embed_nilNode split: if_splits)

lemma refers_size: "list_all2 (refers G) cs rs \<Longrightarrow>
   \<exists>zs. mapE (\<lambda>c. if c \<noteq> nilNode then estimateSize c else Inr 1) (take k rs) = Inr zs"
proof (induction arbitrary: k rule: list_all2_induct)
  case (Cons c cs r rs)
  obtain z where "(if r \<noteq> nilNode then estimateSize r else Inr 1) = Inr z" using Cons(1) by (auto simp: refers_def split: if_splits)
  moreover obtain zs where "mapE (\<lambda>c. if c \<noteq> nilNode then estimateSize c else Inr 1) (take (k - 1) rs) = Inr zs" using Cons(3) by blast
  ultimately show ?case by (cases k) (auto simp del: if_split)
qed simp

lemma commit_full:
  assumes n: "n = fullNode cs f" "wfn G n" "filled G (p = []) n" and law: "hash_laws G" and nc: "\<forall>h. cache n \<noteq> Inr (Some h, False)"
    and IH: "\<And>i. i < 16 \<Longrightarrow> branch (cs ! i) \<Longrightarrow> commits G R cl (p @ [word_of_nat i]) (cs ! i)"
  shows "commits G R cl p n"
  unfolding commits_def
proof
  fix S
  have len: "length cs = 17" and w: "\<forall>c \<in> set cs. wfn G c" and last: "\<not> branch (cs ! 16)" using n(1,2) by auto
  have "kids_commit G R cl p 0 cs"
  proof (rule kids_all)
    have "j = 16" if "j < length cs" "16 \<le> 0 + j" for j using that len by simp
    then show "\<forall>j < length cs. 16 \<le> 0 + j \<longrightarrow> \<not> branch (cs ! j)" using last by blast
  qed (use n(1,2) len w IH in auto)
  then obtain rs S1 where rs: "commitChildren G cl S p 0 cs = Inr (rs, S1)" "list_all2 (refers G) cs rs"
    "\<And>q. (\<forall>j < 17. \<not> prefix (p @ [word_of_nat j]) q) \<Longrightarrow> ns_nodes S1 q = ns_nodes S q"
    "\<And>R'. serves R R' \<Longrightarrow> (\<forall>j < 17. delivers G R' S1 (p @ [word_of_nat j])) \<Longrightarrow> (\<forall>j < 17. kid_ok G R' (p @ [word_of_nat j]) (cs ! j))" "grown G cl S S1"
    unfolding kids_commit_def len add_0 by blast
  obtain d where c: "cache (fullNode rs f) = Inr (hashOf G (p = []) n, d)" using n(1,3) by auto
  have "\<forall>c \<in> set cs. live c" using w wfn_live by blast
  then have "simplifyNode (fullNode rs f) = Inr (collapse G n)" using refers_mapE [OF rs(2)] n(1) by simp
  moreover have "\<exists>z. estimateSize (fullNode rs f) = Inr z" using refers_size [OF rs(2), of 16] by auto
  ultimately obtain r' S' where st: "store G cl S1 p (fullNode rs f) = Inr (r', S')" "\<forall>q. q \<noteq> p \<longrightarrow> ns_nodes S' q = ns_nodes S1 q"
    "\<forall>h. hashOf G (p = []) n = Some h \<longrightarrow> r' = hashNode h" "p \<noteq> [] \<longrightarrow> refers G n r'"
    "\<forall>R. delivers G R S' p \<longrightarrow> hashOf G (p = []) n \<noteq> None \<longrightarrow> onDisk G R p n" "grown G cl S1 S'"
    using store_correct [OF c _ _ _ n(2) law, of _ cl S1] n(1) by auto
  have "saved G R' p n" if "serves R R'" "delivers G R' S' p" for R'
    using rs(4) [OF that(1)] delivers_below [OF that(2) st(2)] n(1) len by (simp add: kid_ok_def)
  from kept_from [OF st(5) this]
  have "\<forall>R'. serves R R' \<longrightarrow> delivers G R' S' p \<longrightarrow> kept G R' p n" .
  moreover have "commit G cl S p n = Inr (r', S')"
    using nc rs(1) st(1) unfolding n(1) commit.simps [of G cl S p "fullNode cs f"] by auto
  moreover have "same_outside p S S'"
    using rs(3) st(2) unfolding same_outside_def by (metis append_prefixD prefix_order.refl)
  ultimately show "\<exists>r S'. commit G cl S p n = Inr (r, S') \<and> same_outside p S S' \<and> grown G cl S S'
     \<and> (\<forall>h. hashOf G (p = []) n = Some h \<longrightarrow> r = hashNode h) \<and> (p \<noteq> [] \<longrightarrow> refers G n r)
     \<and> (\<forall>R'. serves R R' \<longrightarrow> delivers G R' S' p \<longrightarrow> kept G R' p n)"
    using st(3,4) grown_trans [OF rs(5) st(6)] by blast
qed

text \<open>Every node the hasher has been through can be committed.\<close>

lemma commit_correct:
  "wfn G n \<Longrightarrow> filled G (p = []) n \<Longrightarrow> clean G R p n \<Longrightarrow> branch n \<Longrightarrow> hash_laws G \<Longrightarrow> commits G R cl p n"
proof (induction n arbitrary: p)
  case (shortNode k v f)
  show ?case
  proof (cases "\<exists>h. cache (shortNode k v f) = Inr (Some h, False)")
    case True
    then show ?thesis using shortNode.prems commit_clean by blast
  next
    case False
    have "commits G R cl (p @ k) v" if "v = fullNode cs g" for cs g
      using shortNode.prems that by (intro shortNode.IH) auto
    then show ?thesis using False shortNode.prems by (intro commit_short [OF refl]) auto
  qed
next
  case (fullNode cs f)
  show ?case
  proof (cases "\<exists>h. cache (fullNode cs f) = Inr (Some h, False)")
    case True
    then show ?thesis using fullNode.prems commit_clean by blast
  next
    case False
    have "commits G R cl (p @ [word_of_nat i]) (cs ! i)" if "i < 16" "branch (cs ! i)" for i
      using fullNode.prems that by (intro fullNode.IH) auto
    then show ?thesis using False fullNode.prems by (intro commit_full [OF refl]) auto
  qed
qed auto

end
