(* ===== verification/TrieDurable.thy ===== *)
theory TrieDurable
  imports TrieReopen TrieProps
begin

text \<open>
  A trie over a content-addressed store through its whole life: writes and lookups
  keep \<open>durable\<close>, \<open>Hash\<close> computes a root hash that is a function of the content alone, and \<open>Commit\<close>
  hands out a node set with which \<open>New\<close> opens the same content again.
\<close>

definition durable :: "geth \<Rightarrow> Trie \<Rightarrow> (bytes \<rightharpoonup> bytes) \<Rightarrow> bool" where
  "durable G t m \<longleftrightarrow> content G t m \<and> persists G (reader t) [] (root t)"

text \<open>What is assumed of the libraries and of the store under the trie.\<close>

definition lawful :: "geth \<Rightarrow> trieReader \<Rightarrow> bool" where
  "lawful G R \<longleftrightarrow> rlp G \<and> sound_reader G R \<and> hash_laws G"

lemma lawfulD: "lawful G R \<Longrightarrow> rlp G" "lawful G R \<Longrightarrow> sound_reader G R" "lawful G R \<Longrightarrow> hash_laws G"
  by (simp_all add: lawful_def)

lemma lawful_invariant: "lawful G R \<Longrightarrow> node_invariant G R (persists G R)"
  by (simp add: lawful_def persists_invariant)

section \<open>Writes\<close>

lemma step_invariant:
  assumes I: "node_invariant G (reader t) I" "\<And>p v. I p (valueNode v)"
    and st: "write_step (TryUpdate G) (TryDelete G) t w = Some (Inr (((), e), t'))" "I [] (root t)"
  shows "I [] (root t') \<and> reader t' = reader t"
proof -
  let ?t1 = "t\<lparr>unhashed := unhashed t + 1\<rparr>"
  obtain r where r: "setRoot ?t1 r = Inr (((), e), t')"
    "(\<exists>k v. v \<noteq> [] \<and> insert_node G (reader t) (trc t) (root t) [] k (valueNode v) = Some r)
     \<or> (\<exists>k. delete_node G (reader t) (trc t) (root t) [] k = Some r)"
    using st(1) by (cases w) (auto simp: TryUpdate_def tryUpdate_def TryDelete_def Let_def split: if_splits)
  then have "ensures (\<lambda>(d, n). I [] n) (Some r)"
    using node_invariant.insert_keeps [OF I(1)] node_invariant.delete_keeps [OF I(1)] st(2) I(2)
    unfolding node_invariant.keeps_def [OF I(1)] by metis
  then show ?thesis using setRoot_keeps [OF r(1), of "I []"] st(2) by simp
qed

lemma durable_step:
  assumes "durable G t m" "lawful G (reader t)"
  shows "\<exists>t'. write_step (TryUpdate G) (TryDelete G) t w = Some (Inr (((), None), t')) \<and> durable G t' (write_map m w)
    \<and> reader t' = reader t"
proof -
  obtain t' where t': "write_step (TryUpdate G) (TryDelete G) t w = Some (Inr (((), None), t'))" "content G t' (write_map m w)"
    using trie.step_law [of G t m w] assms(1) by (auto simp: durable_def)
  then show ?thesis
    using step_invariant [OF lawful_invariant [OF assms(2)] _ t'(1)] assms(1) by (auto simp: durable_def persists_def)
qed

section \<open>Lookups\<close>

text \<open>A lookup replaces references by the nodes it loads; the stored form stays.\<close>

definition swaps :: "geth \<Rightarrow> trieReader \<Rightarrow> bytes \<Rightarrow> node \<Rightarrow> node \<Rightarrow> bool" where
  "swaps G R p n n' \<longleftrightarrow> persists G R p n'
     \<and> (p \<noteq> [] \<longrightarrow> embed G (collapse G n') = embed G (collapse G n) \<and> (kid_ok G R p n \<longrightarrow> kid_ok G R p n'))
     \<and> (branch n \<longrightarrow> branch n' \<and> collapse G n' = collapse G n \<and> (saved G R p n \<longrightarrow> saved G R p n'))
     \<and> (filled G (p = []) n \<longrightarrow> filled G (p = []) n')"

lemma swaps_refl: "persists G R p n \<Longrightarrow> swaps G R p n n"
  by (simp add: swaps_def)

lemma swaps_resolved:
  assumes "lawful G R" "persists G R p (hashNode h)" "resolves G R p h blob n"
  shows "swaps G R p (hashNode h) n \<and> branch n"
proof -
  have len: "length h = 32" using assms(2) by (simp add: persists_def)
  obtain n0 where n0: "branch n0" "wfn G n0" "n = reload G (Some h) n0" "onDisk G R p n0" "Some h = hashOf G (p = []) n0"
    "storedHash G n0 = h" "p \<noteq> [] \<longrightarrow> stored G n0" using sound_resolves [OF lawfulD [OF assms(1)] assms(3) len] by blast
  have c: "collapse G n = collapse G n0" "branch n" "saved G R p n" using n0 collapse_reload wfn_live saved_reload by auto
  then have d: "onDisk G R p n" using n0(4) onDisk_collapse by metis
  have "embed G (collapse G n) = hashNode h" if "p \<noteq> []" using that c(1) n0(6,7) embed_stored by metis
  moreover have "embed G (hashNode h) = hashNode h" by (simp add: embed_def)
  moreover have "persists G R p n" using persists_resolved [OF lawfulD [OF assms(1)] assms(2,3)] .
  moreover have "filled G (p = []) n" unfolding n0(3) using n0(1,2,5) filled_reload by metis
  ultimately show ?thesis using c d by (auto simp: swaps_def kid_ok_def)
qed

lemma swaps_trans: "swaps G R p n n' \<Longrightarrow> swaps G R p n' n'' \<Longrightarrow> swaps G R p n n''"
  by (auto simp: swaps_def)

lemma swaps_flag:
  assumes "branch n" "branch n'" "collapse G n' = collapse G n" "saved G R p n \<longrightarrow> saved G R p n'"
  shows "kept G R p n \<Longrightarrow> kept G R p n'" "hashOf G force n' = hashOf G force n" "stored G n' = stored G n"
    "kid_ok G R p n \<Longrightarrow> kid_ok G R p n'"
  using assms hashOf_eq [OF assms(3), of "p = []"] hashOf_eq [OF assms(3), of force] onDisk_collapse [OF assms(3)]
  by (auto simp: kept_def kid_ok_def stored_def)

lemma swaps_short:
  assumes "persists G R p (shortNode k v f)" "swaps G R (p @ k) v v'"
  shows "swaps G R p (shortNode k v f) (shortNode k v' f)"
proof -
  have k: "k \<noteq> []" using assms(1) by (simp add: persists_def)
  have c: "collapse G (shortNode k v' f) = collapse G (shortNode k v f)" using assms(2) k by (simp add: swaps_def)
  have s: "saved G R p (shortNode k v f) \<longrightarrow> saved G R p (shortNode k v' f)" using assms(2) k by (simp add: swaps_def kid_ok_def)
  note fl = swaps_flag [OF _ _ c s, simplified]
  have "filled G False v \<Longrightarrow> filled G False v'" "persists G R (p @ k) v'" using assms(2) k by (auto simp: swaps_def)
  then show ?thesis using assms(1) fl c s by (auto simp: swaps_def persists_def simp del: collapse.simps saved.simps)
qed

lemma swaps_full:
  assumes "persists G R p (fullNode cs f)" "swaps G R (p @ [x]) (cs ! unat x) c" "unat x < length cs"
  shows "swaps G R p (fullNode cs f) (fullNode (cs[unat x := c]) f)"
proof -
  let ?cs = "cs[unat x := c]"
  have at: "i < length cs \<Longrightarrow> ?cs ! i = (if i = unat x then c else cs ! i)" for i by (simp add: nth_list_update)
  have sw: "embed G (collapse G c) = embed G (collapse G (cs ! unat x))" "kid_ok G R (p @ [x]) (cs ! unat x) \<longrightarrow> kid_ok G R (p @ [x]) c"
    "filled G False (cs ! unat x) \<longrightarrow> filled G False c" "persists G R (p @ [x]) c"
    using assms(2) by (auto simp: swaps_def)
  have "map (\<lambda>c. embed G (collapse G c)) ?cs = map (\<lambda>c. embed G (collapse G c)) cs"
    using sw(1) at assms(3) by (intro nth_equalityI) auto
  then have c: "collapse G (fullNode ?cs f) = collapse G (fullNode cs f)" by simp
  have s: "saved G R p (fullNode cs f) \<longrightarrow> saved G R p (fullNode ?cs f)" using sw(2) at assms(3) by (auto simp: kid_ok_def)
  note fl = swaps_flag [OF _ _ c s, simplified]
  have fi: "(\<forall>c \<in> set cs. filled G False c) \<Longrightarrow> (\<forall>c \<in> set ?cs. filled G False c)"
    using sw(3) assms(3) set_update_subset_insert [of cs "unat x" c] by (auto dest!: subsetD)
  have se: "(\<forall>c \<in> set cs. sealed G False c) \<Longrightarrow> (\<forall>c \<in> set ?cs. sealed G False c)" "(\<forall>c \<in> set cs. hash32 c) \<Longrightarrow> (\<forall>c \<in> set ?cs. hash32 c)"
    using sw(4) set_update_subset_insert [of cs "unat x" c] by (auto simp: persists_def dest!: subsetD)
  have cl: "(\<forall>i. i < length cs \<longrightarrow> clean G R (p @ [word_of_nat i]) (cs ! i)) \<Longrightarrow> (\<forall>i. i < length cs \<longrightarrow> clean G R (p @ [word_of_nat i]) (?cs ! i))"
    using sw(4) at by (auto simp: persists_def)
  show ?thesis using assms(1) fl c s fi se cl by (auto simp: swaps_def persists_def simp del: collapse.simps saved.simps)
qed

lemma tryGet_swaps:
  assumes "tryGet G R tr n key pos = Some y" "lawful G R" "persists G R (take pos key) n" "pos \<le> length key"
  shows "ensures (\<lambda>(v, n', did). swaps G R (take pos key) n n') (Some y)"
proof -
  have "G = G \<longrightarrow> R = R \<longrightarrow> persists G R (take pos key) n \<longrightarrow> pos \<le> length key \<longrightarrow>
      ensures (\<lambda>(v, n', did). swaps G R (take pos key) n n') (Some y)"
    using assms(1)
  proof (rule tryGet.raw_induct [where P = "\<lambda>G' R' tr n key pos y. G' = G \<longrightarrow> R' = R \<longrightarrow> persists G R (take pos key) n \<longrightarrow>
      pos \<le> length key \<longrightarrow> ensures (\<lambda>(v, n', did). swaps G R (take pos key) n n') (Some y)", rotated], goal_cases)
    case (1 f G' R' tr n key pos y)
    show ?case
    proof (intro impI)
      assume G: "G' = G" "R' = R" and p: "persists G R (take pos key) n" and pos: "pos \<le> length key"
      let ?Q = "\<lambda>n pos (v :: bytes option, n', did :: bool). swaps G R (take pos key) n n'"
      have f: "ensures (?Q n pos) (f G R tr n key pos)" if "persists G R (take pos key) n" "pos \<le> length key" for tr n pos
        using 1(1) that by (cases "f G R tr n key pos") (auto simp: ensures_def)
      show "ensures (?Q n pos) (Some y)"
        unfolding 1(2) [symmetric] G
      proof (cases n, goal_cases)
        case (3 k v fl)
        have "take pos key @ k = take (pos + length k) key \<and> pos + length k \<le> length key"
          if "\<not> (length key - pos < length k \<or> k \<noteq> take (length k) (drop pos key))"
          using that pos by (auto simp: take_add)
        moreover have "persists G R (take pos key @ k) v" using p 3 node_invariant.short_sub [OF lawful_invariant [OF assms(2)]] by blast
        ultimately show ?case using 3 p swaps_refl
          by (auto intro!: ensures_andThen [OF f] swaps_short)
      next
        case (2 cs fl)
        show ?case
        proof (cases "pos \<ge> length key \<or> unat (key ! pos) \<ge> length cs")
          case False
          then have t: "take (pos + 1) key = take pos key @ [key ! pos]" "unat (key ! pos) < length cs" "pos + 1 \<le> length key"
            by (auto simp: take_Suc_conv_app_nth)
          have "persists G R (take pos key @ [key ! pos]) (cs ! unat (key ! pos))"
            using p 2 t(2) node_invariant.full_sub [OF lawful_invariant [OF assms(2)], of _ cs fl "unat (key ! pos)"] by auto
          then show ?thesis using 2 False p swaps_refl t by (auto intro!: ensures_andThen [OF f] swaps_full)
        qed (use 2 in simp)
      next
        case (4 h)
        have r: "ensures (\<lambda>c. swaps G R (take pos key) n c) (Some (resolveAndTrack G R tr h (take pos key)))"
          using swaps_resolved [OF assms(2)] p 4 by (auto simp: ensures_def dest!: resolveAndTrack_resolves)
        have "ensures (?Q n pos) (andThen (f G R t c key pos) (\<lambda>tr2 (val, newnode, _). Some (Returns tr2 (val, newnode, True))))"
          if "swaps G R (take pos key) n c" for t c
        proof (rule ensures_andThen [OF f])
          show "persists G R (take pos key) c" using that by (simp add: swaps_def)
          fix t a assume "?Q c pos a"
          then show "ensures (?Q n pos) ((\<lambda>(val, newnode, _). Some (Returns t (val, newnode, True))) a)"
            using swaps_trans [OF that] by (auto split: prod.splits)
        qed (rule pos)
        then show ?case unfolding 4 node.case by (intro ensures_andThen [OF r [unfolded 4]]) (simp add: 4)
      qed (use p swaps_refl in \<open>auto simp: Let_def\<close>)
    qed
  qed
  then show ?thesis using assms by blast
qed

lemma durable_get:
  assumes "durable G t m" "lawful G (reader t)"
  shows "\<exists>t'. TryGet G t k = Some (Inr ((m k, None), t')) \<and> durable G t' m \<and> reader t' = reader t"
proof -
  obtain t' where t': "TryGet G t k = Some (Inr ((m k, None), t'))" "content G t' m"
    using content_get assms(1) unfolding durable_def by blast
  then obtain y where y: "tryGet G (reader t) (trc t) (root t) (keybytesToHex k) 0 = Some y" by (auto simp: TryGet_def)
  have p: "persists G (reader t) [] (root t)" using assms(1) by (simp add: durable_def)
  have "ensures (\<lambda>(v, n, did). persists G (reader t) [] n) (Some y)"
    using tryGet_swaps [OF y assms(2)] p by (auto simp: ensures_def swaps_def)
  then have "persists G (reader t) [] (root t') \<and> reader t' = reader t"
    using t'(1) y p by (cases y) (auto simp: TryGet_def split: if_splits)
  then show ?thesis using t' by (simp add: durable_def)
qed

text \<open>So tries over a lawful store are byte stores too.\<close>

interpretation dtrie: byte_store "\<lambda>t m. durable G t m \<and> lawful G (reader t)" "\<lambda>_. True" "TryGet G" "TryUpdate G" "TryDelete G" for G
proof
  fix t :: Trie and m k v assume d: "durable G t m \<and> lawful G (reader t)"
  show "\<exists>t'. TryGet G t k = Some (Inr ((m k, None), t')) \<and> durable G t' m \<and> lawful G (reader t')"
    using durable_get d by metis
  show "\<exists>t'. TryUpdate G t k v = Some (Inr (((), None), t')) \<and> durable G t' (write_map m (Put k v)) \<and> lawful G (reader t')"
    using durable_step [of G t m "Put k v"] d by auto
  show "\<exists>t'. TryDelete G t k = Some (Inr (((), None), t')) \<and> durable G t' (write_map m (Remove k)) \<and> lawful G (reader t')"
    using durable_step [of G t m "Remove k"] d by auto
qed

section \<open>Hash\<close>

lemma map_nth_cong: "map f cs = map f ds \<Longrightarrow> i < length cs \<Longrightarrow> f (cs ! i) = f (ds ! i)"
  by (metis length_map nth_map)

text \<open>Nothing but \<open>filled\<close> and \<open>sealed\<close> looks at the cached hashes.\<close>

lemma collapse_unhash [simp]: "collapse G (unhash n) = collapse G n"
  by (rule collapse_cong) (rule strip_unhash)

lemma branch_unhash [simp]: "branch (unhash n) = branch n"
  by (cases n) auto

lemma unhash_disk [simp]:
  "stored G (unhash n) = stored G n" "onDisk G R p (unhash n) = onDisk G R p n" "hashOf G force (unhash n) = hashOf G force n"
  by (simp_all add: stored_def onDisk_def hashOf_def)

lemma saved_unhash [simp]: "saved G R p (unhash n) = saved G R p n"
  by (induction n arbitrary: p rule: unhash.induct) auto

lemma kept_unhash: "kept G R p (unhash n) = kept G R p n"
  by (simp add: kept_def)

lemma clean_unhash: "clean G R p (unhash n) = clean G R p n"
proof (induction n arbitrary: p rule: unhash.induct)
  case (1 k v f)
  then show ?case using kept_unhash [of G R p "shortNode k v f"] by simp
next
  case (2 cs f)
  then show ?case using kept_unhash [of G R p "fullNode cs f"] by simp
qed auto

lemma hash32_unhash: "hash32 (unhash n) = hash32 n"
  by (induction n rule: unhash.induct) auto

lemma persists_unhash: "unhash c = unhash n \<Longrightarrow> filled G (p = []) c \<Longrightarrow> persists G R p n \<Longrightarrow> persists G R p c"
  unfolding persists_def by (metis clean_unhash hash32_unhash filled_sealed)

lemma durable_hash:
  assumes "durable G t m" "lawful G (reader t)"
  shows "\<exists>t'. Trie_Hash G t = Inr (rootHash G (root t), t') \<and> durable G t' m \<and> unhash (root t') = unhash (root t)
    \<and> filled G True (root t') \<and> reader t' = reader t \<and> trc t' = trc t \<and> owner t' = owner t"
proof -
  have c: "content G t m" "sealed G True (root t)" "persists G (reader t) [] (root t)"
    using assms(1) by (auto simp: durable_def persists_def)
  obtain t' where "Trie_Hash G t = Inr (rootHash G (root t), t')" "content G t' m" "unhash (root t') = unhash (root t)"
    "filled G True (root t')" "reader t' = reader t" "trc t' = trc t" "owner t' = owner t"
    using rlp.Trie_Hash_correct [OF lawfulD(1) [OF assms(2)] c(1,2)] lawfulD(3) [OF assms(2)] by (auto simp: hash_laws_def)
  then show ?thesis using persists_unhash [of "root t'" "root t" G "[]"] c(3) by (auto simp: durable_def)
qed

section \<open>The root hash is a function of the content\<close>

text \<open>A node with all its references loaded: same map, same stored form.\<close>

definition unfolds :: "geth \<Rightarrow> node \<Rightarrow> node \<Rightarrow> bool \<Rightarrow> bool" where
  "unfolds G n n' inner \<longleftrightarrow> (case n of
     hashNode h \<Rightarrow> branch n' \<and> storedHash G n' = h \<and> (inner \<longrightarrow> stored G n')
   | _ \<Rightarrow> branch n' = branch n \<and> collapse G n' = collapse G n)"

lemma unfolds_embed: "unfolds G n n' True \<Longrightarrow> embed G (collapse G n') = embed G (collapse G n)"
  by (cases n) (simp_all add: unfolds_def embed_stored, auto simp: embed_def embed_stored)

lemma tnode_unfold:
  assumes "lawful G R" "tnode G R p n kd m" "hash32 n"
  shows "\<exists>n'. tnode G R p n' kd m \<and> loaded n' \<and> unfolds G n n' (p \<noteq> [])"
  using assms(2,3)
proof (induction rule: tnode.induct)
  case (t_short p k c kd m f)
  then obtain c' where c': "tnode G R (p @ k) c' kd m" "loaded c'" "unfolds G c c' True" by auto
  have "tnode G R p (shortNode k c' f) KShort (prefixed k m)" using c'(1) t_short.hyps(2) by (rule tnode.t_short)
  then show ?case using c' unfolds_embed [OF c'(3)] by (intro exI [of _ "shortNode k c' f"]) (simp add: unfolds_def)
next
  case (t_full cs p ks ms f)
  have "\<forall>i. \<exists>n'. i < 17 \<longrightarrow> tnode G R (p @ [word_of_nat i]) n' (ks i) (ms i) \<and> loaded n' \<and> unfolds G (cs ! i) n' True"
    using t_full.IH t_full.prems t_full.hyps(1) by auto
  then obtain g where g: "\<And>i. i < 17 \<Longrightarrow> tnode G R (p @ [word_of_nat i]) (g i) (ks i) (ms i)"
    "\<And>i. i < 17 \<Longrightarrow> loaded (g i)" "\<And>i. i < 17 \<Longrightarrow> unfolds G (cs ! i) (g i) True" by metis
  let ?cs = "map g [0..<17]"
  have at: "?cs ! i = g i" if "i < 17" for i using that by simp
  have "g i = nilNode \<longleftrightarrow> cs ! i = nilNode" if "i < 17" for i
    using tnode_nil_iff g(1) [OF that] t_full.hyps(2) [OF that] by metis
  then have two: "two_children ?cs" using t_full.hyps(5) at unfolding two_children_def by metis
  have t: "tnode G R p (fullNode ?cs f) KFull (branching ms)"
    using g(1) t_full.hyps(3,4) two by (intro tnode.t_full [where ks = ks]) (simp_all del: upt_Suc)
  have "map (\<lambda>c. embed G (collapse G c)) ?cs = map (\<lambda>c. embed G (collapse G c)) cs"
    using unfolds_embed g(3) t_full.hyps(1) by (intro nth_equalityI) (simp_all del: upt_Suc)
  then show ?case using t g(2) by (intro exI [of _ "fullNode ?cs f"]) (simp add: unfolds_def del: upt_Suc)
next
  case (t_hash p h blob n kd m)
  obtain n0 where n0: "branch n0" "wfn G n0" "n = reload G (Some h) n0" "storedHash G n0 = h" "p \<noteq> [] \<longrightarrow> stored G n0"
    using sound_resolves [OF lawfulD [OF assms(1)] t_hash.hyps(1)] t_hash.prems by auto
  then obtain n' where n': "tnode G R p n' kd m" "loaded n'" "unfolds G n n' (p \<noteq> [])"
    using t_hash.IH hash32_reload by blast
  have n: "branch n" "collapse G n = collapse G n0" using n0 reload_branch collapse_reload wfn_live by auto
  then have "branch n'" "collapse G n' = collapse G n0" using n'(3) by (cases n; auto simp: unfolds_def)+
  then show ?case using n'(1,2) n0 by (intro exI [of _ n']) (auto simp: unfolds_def storedHash_def stored_def)
next
  case (t_nil p)
  then show ?case using tnode.t_nil by (intro exI [of _ nilNode]) (auto simp: unfolds_def)
next
  case (t_val v p)
  then show ?case using tnode.t_val [OF t_val.hyps, of G R p] by (intro exI [of _ "valueNode v"]) (auto simp: unfolds_def simp del: fun_upd_apply)
qed

lemma tnode_any_reader: "tnode G R p n kd m \<Longrightarrow> loaded n \<Longrightarrow> tnode G R' p n kd m"
proof (induction rule: tnode.induct)
  case (t_full cs p ks ms f)
  then show ?case by (intro tnode.t_full [where ks = ks]) auto
qed (auto intro: tnode.t_nil tnode.t_val tnode.t_short)

lemma rootHash_unfolds:
  assumes "hash_laws G" "unfolds G n n' inner" "n = nilNode \<or> branch n \<or> (\<exists>h. n = hashNode h)"
  shows "rootHash G n' = rootHash G n"
  using assms(3)
proof (elim disjE exE)
  assume "n = nilNode"
  then show ?thesis using assms(2) by (cases n') (auto simp: unfolds_def)
next
  assume "branch n"
  then have "branch n'" "collapse G n' = collapse G n" using assms(2) by (cases n; auto simp: unfolds_def)+
  then show ?thesis using \<open>branch n\<close> by (simp add: rootHash_branch)
next
  fix h assume "n = hashNode h"
  then have "branch n'" "hash_bytes (keccak256 G (encode G (collapse G n'))) = h"
    using assms(2) by (auto simp: unfolds_def storedHash_def)
  then have "rootHash G n' = BytesToHash G h" using assms(1) by (auto simp: rootHash_branch hash_laws_def)
  then show ?thesis using \<open>n = hashNode h\<close> by (simp add: rootHash_def)
qed

lemma content_unfold:
  assumes "durable G t m" "lawful G (reader t)"
  shows "\<exists>n. content G (t\<lparr>root := n\<rparr>) m \<and> loaded n \<and> rootHash G n = rootHash G (root t)"
proof -
  obtain kd mm where c: "tnode G (reader t) [] (root t) kd mm" "kd \<noteq> KVal" "dom mm \<subseteq> range keybytesToHex"
    "m = (\<lambda>k. mm (keybytesToHex k))" using assms(1) by (auto simp: durable_def content_def)
  obtain n where n: "tnode G (reader t) [] n kd mm" "loaded n" "unfolds G (root t) n False"
    using tnode_unfold [OF assms(2) c(1)] assms(1) by (auto simp: durable_def persists_def)
  then show ?thesis using c rootHash_unfolds [OF lawfulD(3) [OF assms(2)] n(3) tnode_root [OF c(1,2)]]
    by (intro exI [of _ n]) (auto simp: content_def)
qed

lemma durable_rootHash:
  assumes "durable G t m" "lawful G (reader t)" "durable G t' m" "lawful G (reader t')"
  shows "rootHash G (root t) = rootHash G (root t')"
proof -
  obtain n n' where n: "content G (t\<lparr>root := n\<rparr>) m" "loaded n" "rootHash G n = rootHash G (root t)"
    and n': "content G (t'\<lparr>root := n'\<rparr>) m" "loaded n'" "rootHash G n' = rootHash G (root t')"
    using content_unfold assms by meson
  have "content G (t\<lparr>root := n'\<rparr>) m"
    using n'(1,2) by (auto simp: content_def intro: tnode_any_reader)
  from content_shape [OF n(1) this] have "strip n = strip n'" using n(2) n'(2) by simp
  then show ?thesis using rootHash_cong n(3) n'(3) by metis
qed

section \<open>Commit\<close>

definition small_content :: "(bytes \<rightharpoonup> bytes) \<Rightarrow> bool" where
  "small_content m \<longleftrightarrow> (\<forall>k v. m k = Some v \<longrightarrow> length k < 2 ^ 30 \<and> length v < 2 ^ 32)"

lemma small_content_map:
  assumes "small_content (\<lambda>k. mm (keybytesToHex k))" "dom mm \<subseteq> range keybytesToHex" shows "small_map mm"
  unfolding small_map_def
proof (intro allI impI)
  fix s v assume s: "mm s = Some v"
  then obtain k where k: "s = keybytesToHex k" using assms(2) by blast
  then have "length k < 2 ^ 30 \<and> length v < 2 ^ 32" using s assms(1) by (simp add: small_content_def)
  then show "length s < 2 ^ 32 \<and> length v < 2 ^ 32" using k by (simp add: length_keybytesToHex)
qed

text \<open>What a reader must have for the content to be found under a root hash.\<close>

definition rooted :: "geth \<Rightarrow> trieReader \<Rightarrow> hash \<Rightarrow> (bytes \<rightharpoonup> bytes) \<Rightarrow> bool" where
  "rooted G R h m \<longleftrightarrow> (\<exists>kd mm. tnode G R [] (hashNode (hash_bytes h)) kd mm \<and> dom mm \<subseteq> range keybytesToHex
     \<and> m = (\<lambda>k. mm (keybytesToHex k)))"

definition deliversSet :: "geth \<Rightarrow> trieReader \<Rightarrow> NodeSet option \<Rightarrow> bool" where
  "deliversSet G R S \<longleftrightarrow> (case S of None \<Rightarrow> True | Some S \<Rightarrow> delivers G R S [])"

lemma kept_rooted:
  assumes "rlp G" "hash_laws G" "tnode G R [] n kd mm" "wfn G n" "branch n" "serves R R'" "kept G R' [] n"
  shows "tnode G R' [] (hashNode (hash_bytes (rootHash G n))) kd mm"
proof -
  have d: "onDisk G R' [] n" "saved G R' [] n" using assms(7) by (auto simp: kept_def hashOf_def)
  have "tnode G R' [] (hashNode (storedHash G n)) kd mm"
    using tnode_reload [OF assms(1-4,6) d(2) assms(5)] tnode_branch_kind [OF assms(3,5)]
    by (intro tnode_stored [OF assms(1,2,4,5) d(1)]) auto
  then show ?thesis using assms(5) by (simp add: storedHash_def rootHash_branch)
qed

lemma commit_branch:
  assumes "branch n" "filled G True n" "clean G R [] n" "wfn G n" "hash_laws G"
  shows "(cache n = Inr (Some (hash_bytes (rootHash G n)), False) \<and> kept G R [] n) \<or>
    (cache n = Inr (Some (hash_bytes (rootHash G n)), True) \<and>
     (\<exists>S'. committer_Commit G cl S n = Inr (hashNode (hash_bytes (rootHash G n)), S') \<and> grown G cl S S'
       \<and> (\<forall>R'. serves R R' \<longrightarrow> delivers G R' S' [] \<longrightarrow> kept G R' [] n)))"
proof -
  have h: "hashOf G True n = Some (hash_bytes (rootHash G n))" using assms(1) by (simp add: hashOf_def rootHash_branch)
  obtain d where d: "cache n = Inr (Some (hash_bytes (rootHash G n)), d)" using filled_cache [OF assms(2,1)] h by auto
  have "commits G R cl [] n" using commit_correct [of G n "[]" R cl] assms by simp
  then obtain S' where "commit G cl S [] n = Inr (hashNode (hash_bytes (rootHash G n)), S')" "grown G cl S S'"
    "\<forall>R'. serves R R' \<longrightarrow> delivers G R' S' [] \<longrightarrow> kept G R' [] n" using h unfolding commits_def by (simp, blast)
  moreover have "kept G R [] n" if "\<not> d" using that d assms(1,3) by (cases n) auto
  ultimately show ?thesis using d by (cases d) (auto simp: committer_Commit_def)
qed

text \<open>The node set of a commit: its nodes are hashed encodings, and it belongs to the owner of the trie.\<close>

definition committed_set :: "geth \<Rightarrow> bool \<Rightarrow> hash \<Rightarrow> NodeSet option \<Rightarrow> bool" where
  "committed_set G cl own S \<longleftrightarrow> (case S of None \<Rightarrow> True
     | Some S \<Rightarrow> made G S \<and> ns_owner S = own \<and> (\<not> cl \<longrightarrow> ns_leaves S = []))"

lemma markDeletions_grown: "grown G cl S (markDeletions tr order S)"
proof -
  have "grown G cl S (foldl (\<lambda>S path. if ns_accessList S path = None then S else markDeleted S path) S order)" for S
    by (induction order arbitrary: S) (auto intro: grown_trans grown_deleted)
  then show ?thesis by (simp add: markDeletions_def)
qed

lemma committed_new:
  assumes "grown G cl (markDeletions tr order (NewNodeSet own acc)) S" shows "committed_set G cl own (Some S)"
  using grown_trans [OF markDeletions_grown assms] by (auto simp: committed_set_def grown_def NewNodeSet_def made_def)

lemma durable_commit:
  assumes "durable G t m" "lawful G (reader t)" "small_content m"
  shows "\<exists>S t'. Trie_Commit G order t cl = Inr ((rootHash G (root t), S), t') \<and> trc t' = tracer_reset (trc t)
    \<and> committed_set G cl (owner t) S \<and>
    (\<forall>R'. serves (reader t) R' \<longrightarrow> deliversSet G R' S \<longrightarrow> m = Map.empty \<or> rooted G R' (rootHash G (root t)) m)"
proof -
  obtain kd mm where c: "tnode G (reader t) [] (root t) kd mm" "kd \<noteq> KVal" "dom mm \<subseteq> range keybytesToHex"
    "m = (\<lambda>k. mm (keybytesToHex k))" using assms(1) by (auto simp: durable_def content_def)
  have w: "wfn G (root t)" using rlp.tnode_wfn [OF lawfulD(1) [OF assms(2)] c(1)] small_content_map [of mm] assms c(3,4)
    by (auto simp: durable_def persists_def)
  consider (nil) "root t = nilNode" | (hash) h where "root t = hashNode h" | (branch) "branch (root t)" "root t \<noteq> nilNode"
    using tnode_root [OF c(1,2)] by (cases "root t") auto
  then show ?thesis
  proof cases
    case nil
    then have "m = Map.empty" using content_empty_iff assms(1) by (auto simp: durable_def)
    then show ?thesis using nil committed_new [OF grown_refl] by (simp add: Trie_Commit_def Let_def rootHash_def)
  next
    case hash
    have "hash_bytes (BytesToHash G h) = h" using w hash lawfulD(3) [OF assms(2)] by (simp add: hash_laws_def)
    then have r: "rooted G R' (rootHash G (root t)) m" if "serves (reader t) R'" for R'
      using tnode_mono [OF c(1) that] c(3,4) hash by (auto simp: rooted_def rootHash_def)
    obtain t1 where t1: "Trie_Hash G t = Inr (rootHash G (root t), t1)" "unhash (root t1) = unhash (root t)" "trc t1 = trc t"
      using durable_hash [OF assms(1,2)] by blast
    then have "root t1 = hashNode h" using hash by (cases "root t1") auto
    then show ?thesis using hash t1 r committed_new [OF grown_refl]
      by (simp add: Trie_Commit_def Let_def committer_Commit_def commit.simps)
  next
    case branch
    obtain t1 where t1: "Trie_Hash G t = Inr (rootHash G (root t), t1)" "durable G t1 m" "unhash (root t1) = unhash (root t)"
      "trc t1 = trc t" "filled G True (root t1)" "reader t1 = reader t" using durable_hash [OF assms(1,2)] by blast
    have s: "strip (root t1) = strip (root t)" using unhash_strip [OF t1(3)] .
    have b1: "branch (root t1)" "rootHash G (root t1) = rootHash G (root t)" using s branch(1) rootHash_cong branch_strip by metis+
    have c1: "tnode G (reader t) [] (root t1) kd mm" using tnode_strip [OF c(1) s] .
    have p1: "hash32 (root t1)" "clean G (reader t) [] (root t1)" using t1(2,6) by (auto simp: durable_def persists_def)
    have w1: "wfn G (root t1)" using rlp.tnode_wfn [OF lawfulD(1) [OF assms(2)] c1 p1(1)] small_content_map [of mm] assms(3) c(3,4) by auto
    have k: "rooted G R' (rootHash G (root t)) m" if "serves (reader t) R'" "kept G R' [] (root t1)" for R'
      using kept_rooted [OF lawfulD(1,3) [OF assms(2)] c1 w1 b1(1) that] b1(2) c(3,4) by (auto simp: rooted_def)
    have nn: "root t \<noteq> nilNode" using branch by simp
    let ?S = "markDeletions (trc t) order (NewNodeSet (owner t) (accessed (trc t)))"
    from commit_branch [OF b1(1) t1(5) p1(2) w1 lawfulD(3) [OF assms(2)], of cl ?S]
    show ?thesis
    proof (elim disjE conjE exE)
      assume "cache (root t1) = Inr (Some (hash_bytes (rootHash G (root t1))), False)" "kept G (reader t) [] (root t1)"
      then show ?thesis using nn t1(1,4) k kept_mono by (auto simp: Trie_Commit_def Let_def committed_set_def)
    next
      fix S' assume "cache (root t1) = Inr (Some (hash_bytes (rootHash G (root t1))), True)"
        "committer_Commit G cl ?S (root t1) = Inr (hashNode (hash_bytes (rootHash G (root t1))), S')"
        "grown G cl ?S S'" "\<forall>R'. serves (reader t) R' \<longrightarrow> delivers G R' S' [] \<longrightarrow> kept G R' [] (root t1)"
      then show ?thesis using nn t1(1,4) k committed_new by (auto simp: Trie_Commit_def Let_def deliversSet_def)
    qed
  qed
qed

section \<open>The root hash binds the content\<close>

text \<open>The encodings that are hashed when a loaded trie is hashed: the root and every stored node.\<close>

fun blobs :: "geth \<Rightarrow> node \<Rightarrow> bytes set" where
  "blobs G (shortNode k v f) = insert (encode G (collapse G (shortNode k v f))) (blobs G v)"
| "blobs G (fullNode cs f) = insert (encode G (collapse G (fullNode cs f))) (\<Union>c \<in> set cs. blobs G c)"
| "blobs G n = {}"

definition no_collision :: "geth \<Rightarrow> bytes set \<Rightarrow> bool" where
  "no_collision G B \<longleftrightarrow> inj_on (keccak256 G) B"

lemma blobs_self: "branch n \<Longrightarrow> encode G (collapse G n) \<in> blobs G n"
  by (cases n) auto

context rlp
begin

lemma encode_inject:
  assumes "wfn G n" "branch n" "wfn G n'" "branch n'" "encode G (collapse G n) = encode G (collapse G n')"
  shows "collapse G n = collapse G n'"
  using decode_stored [OF assms(1,2), of "[]"] decode_stored [OF assms(3,4), of "[]"] assms
    collapse_reload wfn_live by (metis sum.inject(2))

lemma embed_inject:
  assumes "wfn G c" "loaded c" "wfn G c'" "loaded c'" "inj_on (keccak256 G) (blobs G c \<union> blobs G c')"
    "embed G (collapse G c) = embed G (collapse G c')"
  shows "collapse G c = collapse G c'"
proof (cases "stored G c \<and> stored G c'")
  case True
  then have "storedHash G c = storedHash G c'" using assms(6) by (simp add: embed_stored)
  then have "keccak256 G (encode G (collapse G c)) = keccak256 G (encode G (collapse G c'))" by (simp add: storedHash_def)
  moreover have "branch c" "branch c'" using True by (auto simp: stored_def)
  ultimately have "encode G (collapse G c) = encode G (collapse G c')" using assms(5) blobs_self by (metis UnI1 UnI2 inj_onD)
  then show ?thesis using encode_inject assms(1,3) \<open>branch c\<close> \<open>branch c'\<close> by blast
next
  case False
  have h: "collapse G d \<noteq> hashNode x" if "loaded d" for d x using that by (cases d) auto
  have "stored G c = stored G c'"
    using False assms(6) embed_stored [of G c] embed_stored [of G c'] embed_not_stored [of G c] embed_not_stored [of G c']
      h [OF assms(2)] h [OF assms(4)] wfn_live assms(1,3) by metis
  then show ?thesis using False assms(1,3,6) embed_not_stored wfn_live by metis
qed

lemma collapse_leaf: "n = collapse G n' \<Longrightarrow> wfn G n \<Longrightarrow> \<not> branch n \<Longrightarrow> n' = n"
  by (cases n') auto

lemma collapse_inject:
  "wfn G n \<Longrightarrow> loaded n \<Longrightarrow> wfn G n' \<Longrightarrow> loaded n' \<Longrightarrow> inj_on (keccak256 G) (blobs G n \<union> blobs G n') \<Longrightarrow>
   collapse G n = collapse G n' \<Longrightarrow> strip n = strip n'"
proof (induction n arbitrary: n')
  case (shortNode k v f)
  obtain k' v' f' where n': "n' = shortNode k' v' f'" using shortNode.prems(3,6) by (cases n') auto
  have kk: "compactKey k = compactKey k'" "embed G (collapse G v) = embed G (collapse G v')" using shortNode.prems(6) n' by auto
  have "hex_key k \<or> nibbles k" "hex_key k' \<or> nibbles k'" using shortNode.prems(1,3) n' by auto
  then have "k = k'" using kk(1) compactToHex_compactKey by metis
  moreover have i: "inj_on (keccak256 G) (blobs G v \<union> blobs G v')" by (rule inj_on_subset [OF shortNode.prems(5)]) (auto simp: n')
  moreover have "collapse G v = collapse G v'" using embed_inject [OF _ _ _ _ i kk(2)] shortNode.prems n' by simp
  ultimately show ?case using shortNode.IH [of v'] shortNode.prems n' by simp
next
  case (fullNode cs f)
  obtain cs' f' where n': "n' = fullNode cs' f'" using fullNode.prems(3,6) by (cases n') auto
  have len: "length cs = 17" "length cs' = 17" using fullNode.prems n' by auto
  have "strip (cs ! i) = strip (cs' ! i)" if "i < 17" for i
  proof -
    have m: "cs ! i \<in> set cs" "cs' ! i \<in> set cs'" using that len by auto
    have inj: "inj_on (keccak256 G) (blobs G (cs ! i) \<union> blobs G (cs' ! i))"
      by (rule inj_on_subset [OF fullNode.prems(5)]) (use n' m in auto)
    have w: "wfn G (cs ! i)" "loaded (cs ! i)" "wfn G (cs' ! i)" "loaded (cs' ! i)" using fullNode.prems n' m by auto
    have "embed G (collapse G (cs ! i)) = embed G (collapse G (cs' ! i))"
      using fullNode.prems(6) n' len that by (auto dest: map_nth_cong)
    from embed_inject [OF w inj this] show ?thesis using fullNode.IH [OF m(1) w inj] by blast
  qed
  then show ?case using n' len by (auto intro: nth_equalityI)
qed (auto dest: collapse_leaf)

end

lemma durable_wfn:
  assumes "durable G t m" "lawful G (reader t)" "small_content m" shows "wfn G (root t)"
proof -
  obtain kd mm where "tnode G (reader t) [] (root t) kd mm" "dom mm \<subseteq> range keybytesToHex" "m = (\<lambda>k. mm (keybytesToHex k))"
    using assms(1) by (auto simp: durable_def content_def)
  then show ?thesis using rlp.tnode_wfn [OF lawfulD(1) [OF assms(2)]] small_content_map [of mm] assms
    by (auto simp: durable_def persists_def)
qed

lemma loaded_root: "durable G t m \<Longrightarrow> loaded (root t) \<Longrightarrow> root t = nilNode \<or> branch (root t)"
  using tnode_root by (fastforce simp: durable_def content_def)

lemma content_det:
  assumes "content G t m" "content G t' m'" "loaded (root t)" "strip (root t) = strip (root t')" shows "m = m'"
proof -
  have "content G (t'\<lparr>root := root t\<rparr>) m'" using content_strip [OF assms(2) assms(4)] by simp
  then have c': "content G t m'" using assms(3) by (auto simp: content_def intro: tnode_any_reader)
  have "m k = m' k" for k using content_get [OF assms(1), of k] content_get [OF c', of k] by auto
  then show ?thesis by blast
qed

lemma rootHash_binds:
  assumes "durable G t m" "lawful G (reader t)" "loaded (root t)" "small_content m"
    and "durable G t' m'" "lawful G (reader t')" "loaded (root t')" "small_content m'"
    and nc: "no_collision G (blobs G (root t) \<union> blobs G (root t'))"
    and er: "EmptyRootHash G \<notin> keccak256 G ` (blobs G (root t) \<union> blobs G (root t'))" and "m \<noteq> m'"
  shows "rootHash G (root t) \<noteq> rootHash G (root t')"
proof
  assume h: "rootHash G (root t) = rootHash G (root t')"
  have w: "wfn G (root t)" "wfn G (root t')" using durable_wfn assms by blast+
  have b: "branch n \<Longrightarrow> rootHash G n = keccak256 G (encode G (collapse G n))" "rootHash G nilNode = EmptyRootHash G" for n
    by (auto simp: rootHash_branch) (simp add: rootHash_def)
  have "strip (root t) = strip (root t')"
  proof (cases "branch (root t) \<and> branch (root t')")
    case True
    then have "encode G (collapse G (root t)) = encode G (collapse G (root t'))"
      using h b nc blobs_self unfolding no_collision_def by (metis UnI1 UnI2 inj_onD)
    then have "collapse G (root t) = collapse G (root t')"
      using rlp.encode_inject [OF lawfulD(1) [OF assms(2)]] w True by blast
    then show ?thesis using rlp.collapse_inject [OF lawfulD(1) [OF assms(2)] w(1) assms(3) w(2) assms(7)] nc by (simp add: no_collision_def)
  next
    case False
    then show ?thesis using loaded_root [OF assms(1,3)] loaded_root [OF assms(5,7)] h b er blobs_self by (metis UnI1 UnI2 image_eqI)
  qed
  then show False using content_det assms by (auto simp: durable_def)
qed

section \<open>Properties\<close>

lemma byte_less: "unat (x :: byte) < 256"
  by (rule order_less_le_trans [OF unsigned_less]) simp

lemma be_bytes_be_nat: "be_bytes (length b) (be_nat b) = b"
proof (induction b rule: rev_induct)
  case (snoc x xs)
  have "(be_nat xs * 256 + unat x) div 256 = be_nat xs" "(be_nat xs * 256 + unat x) mod 256 = unat x"
    using byte_less by auto
  then show ?case using snoc by simp
qed simp

lemma be_nat_less: "be_nat b < 256 ^ length b"
proof (induction b rule: rev_induct)
  case (snoc x xs)
  then show ?case using byte_less [of x] by simp
qed simp

lemma hash_laws_ref: "hash_laws ref_geth"
proof -
  have "hash_bytes (word_of_nat (be_nat b)) = b" if "length b = 32" for b
  proof -
    have "be_nat b < 2 ^ 256" using be_nat_less [of b] that by simp
    then have "unat (word_of_nat (be_nat b) :: hash) = be_nat b" by (simp add: unsigned_of_nat take_bit_nat_eq_self)
    then show ?thesis using be_bytes_be_nat [of b] that by (simp add: hash_bytes_def)
  qed
  then show ?thesis by (simp add: hash_laws_def ref_geth_def)
qed

lemma lawful_ref: "lawful ref_geth newEmptyReader"
  by (auto simp: lawful_def ref.rlp_axioms hash_laws_ref sound_reader_def nodeBlob_def newEmptyReader_def)

lemma reader_blank [simp]: "reader blankTrie = newEmptyReader"
  by (simp add: blankTrie_def)

lemma durable_blank: "durable G blankTrie Map.empty"
  using blankTrie_empty by (simp add: durable_def persists_def blankTrie_def)

lemma durable_writes:
  assumes "durable G t m" "lawful G (reader t)"
  shows "\<exists>t'. write_all (write_step (TryUpdate G) (TryDelete G)) t ws = Some (Inr (((), None), t'))
    \<and> durable G t' (foldl write_map m ws) \<and> reader t' = reader t"
  using assms
proof (induction ws arbitrary: t m)
  case (Cons w ws)
  obtain t1 where t1: "write_step (TryUpdate G) (TryDelete G) t w = Some (Inr (((), None), t1))" "durable G t1 (write_map m w)"
    "reader t1 = reader t" using durable_step [OF Cons.prems] by blast
  then show ?case using Cons.IH [OF t1(2)] Cons.prems(2) by simp
qed simp

text \<open>C15: The root hash is a function of the content: two tries over sound stores that hold the same map,
  however they were built, loaded or cached, hash to the same root, and hashing
  keeps the content.\<close>

theorem root_hash_of_content:
  assumes "durable G t m" "lawful G (reader t)" "durable G t' m" "lawful G (reader t')"
  shows "\<exists>h u u'. Trie_Hash G t = Inr (h, u) \<and> Trie_Hash G t' = Inr (h, u') \<and> durable G u m \<and> durable G u' m"
  using durable_hash [OF assms(1,2)] durable_hash [OF assms(3,4)] durable_rootHash [OF assms] by metis

theorem root_hash_of_content_witness:
  "\<exists>t t' h u u'. write_all (write_step (TryUpdate ref_geth) (TryDelete ref_geth)) blankTrie
      [Put [1, 2] [7], Put [1, 3] [8], Put [5] [9], Remove [5]] = Some (Inr (((), None), t))
    \<and> write_all (write_step (TryUpdate ref_geth) (TryDelete ref_geth)) blankTrie
      [Put [1, 3] [8], Put [1, 2] [7]] = Some (Inr (((), None), t'))
    \<and> Trie_Hash ref_geth t = Inr (h, u) \<and> Trie_Hash ref_geth t' = Inr (h, u')"
proof -
  have l: "lawful ref_geth (reader blankTrie)" using lawful_ref by simp
  have e: "foldl write_map Map.empty [Put [1, 2] [7], Put [1, 3] [8], Put [5] [9], Remove [5]] = [[1, 2] \<mapsto> [7], [1, 3] \<mapsto> [8]]"
    "foldl write_map Map.empty [Put [1, 3] [8], Put [1, 2] [7]] = [[1, 2] \<mapsto> [7], [1, 3] \<mapsto> [8]]" by (simp_all add: fun_eq_iff)
  obtain t where t: "write_all (write_step (TryUpdate ref_geth) (TryDelete ref_geth)) blankTrie
      [Put [1, 2] [7], Put [1, 3] [8], Put [5] [9], Remove [5]] = Some (Inr (((), None), t))"
    "durable ref_geth t [[1, 2] \<mapsto> [7], [1, 3] \<mapsto> [8]]" "reader t = reader blankTrie"
    using durable_writes [OF durable_blank l, of "[Put [1, 2] [7], Put [1, 3] [8], Put [5] [9], Remove [5]]"] unfolding e by blast
  obtain t' where t': "write_all (write_step (TryUpdate ref_geth) (TryDelete ref_geth)) blankTrie
      [Put [1, 3] [8], Put [1, 2] [7]] = Some (Inr (((), None), t'))"
    "durable ref_geth t' [[1, 2] \<mapsto> [7], [1, 3] \<mapsto> [8]]" "reader t' = reader blankTrie"
    using durable_writes [OF durable_blank l, of "[Put [1, 3] [8], Put [1, 2] [7]]"] unfolding e by blast
  from root_hash_of_content [OF t(2) _ t'(2)] t t' l show ?thesis by auto
qed

text \<open>C16: The root hash binds the content: two loaded tries with different maps have different root
  hashes, unless the hash function maps two of the encodings that are hashed, or one of them and the
  empty root, to the same hash.\<close>

theorem root_hash_binds_content:
  assumes "durable G t m" "lawful G (reader t)" "loaded (root t)" "small_content m"
    and "durable G t' m'" "lawful G (reader t')" "loaded (root t')" "small_content m'"
    and "no_collision G (blobs G (root t) \<union> blobs G (root t'))"
    and "EmptyRootHash G \<notin> keccak256 G ` (blobs G (root t) \<union> blobs G (root t'))" and "m \<noteq> m'"
  shows "\<exists>h u h' u'. Trie_Hash G t = Inr (h, u) \<and> Trie_Hash G t' = Inr (h', u') \<and> h \<noteq> h'"
  using durable_hash [OF assms(1,2)] durable_hash [OF assms(5,6)] rootHash_binds [OF assms] by metis

text \<open>A trie with one leaf.\<close>

definition leafTrie :: "byte \<Rightarrow> Trie" where
  "leafTrie v = blankTrie\<lparr>unhashed := 1, trc := onInsert newTracer [], root := shortNode [0, 1, 16] (valueNode [v]) newFlag\<rparr>"

lemma leafTrie_written: "TryUpdate G blankTrie [1] [v] = Some (Inr (((), None), leafTrie v))"
  by (simp add: TryUpdate_def tryUpdate_def Let_def blankTrie_def leafTrie_def keybytesToHex_unpack insert_node.simps setRoot_def)

lemma leafTrie_durable: "durable ref_geth (leafTrie v) [[1] \<mapsto> [v]]" "lawful ref_geth (reader (leafTrie v))"
  using durable_step [OF durable_blank, of ref_geth "Put [1] [v]"] lawful_ref leafTrie_written [of ref_geth v]
  by (auto simp: leafTrie_def)

lemma leafTrie_blobs: "blobs ref_geth (root (leafTrie v)) = {ref_list (ref_string [0x20, 1] @ ref_string [v])}"
  by (simp add: leafTrie_def compactKey_def compact_of_def path_part_def hasTerm_def embed_def ref_geth_def)

theorem root_hash_binds_content_witness:
  "\<exists>h u h' u'. Trie_Hash ref_geth (leafTrie 7) = Inr (h, u) \<and> Trie_Hash ref_geth (leafTrie 8) = Inr (h', u') \<and> h \<noteq> h'"
proof (rule root_hash_binds_content [OF leafTrie_durable _ _ leafTrie_durable])
  show "no_collision ref_geth (blobs ref_geth (root (leafTrie 7)) \<union> blobs ref_geth (root (leafTrie 8)))"
    unfolding leafTrie_blobs by (simp add: no_collision_def ref_geth_def ref_list_def ref_string_def rlp_header_def be_nat_def)
  show "EmptyRootHash ref_geth \<notin> keccak256 ref_geth ` (blobs ref_geth (root (leafTrie 7)) \<union> blobs ref_geth (root (leafTrie 8)))"
    unfolding leafTrie_blobs by (simp add: ref_geth_def ref_list_def ref_string_def rlp_header_def be_nat_def)
  show "[[1] \<mapsto> [7]] \<noteq> [[1 :: byte] \<mapsto> [8 :: byte]]" by (simp add: fun_eq_iff)
qed (simp_all add: leafTrie_def small_content_def)

lemma commit_reopened:
  assumes "durable G t m" "lawful G (reader t)" "small_content (foldl write_map m ws)"
  shows "\<exists>t1 S t2. write_all (write_step (TryUpdate G) (TryDelete G)) t ws = Some (Inr (((), None), t1))
    \<and> Trie_Commit G order t1 cl = Inr ((rootHash G (root t1), S), t2) \<and> committed_set G cl (owner t1) S
    \<and> (\<forall>i db codec store rd. db (StateRoot i) codec = Some store \<longrightarrow> id_Root i = rootHash G (root t1) \<longrightarrow>
         rd = \<lparr>rd_owner = id_Owner i, rd_reader = Some store, rd_banned = None\<rparr> \<longrightarrow>
         serves (reader t) rd \<longrightarrow> deliversSet G rd S \<longrightarrow> (id_Root i = 0 \<or> id_Root i = EmptyRootHash G \<longrightarrow> root t1 = nilNode) \<longrightarrow>
         (\<exists>t3. New G i db codec = Inr (Inr t3) \<and> content G t3 (foldl write_map m ws)
            \<and> (sound_reader G rd \<longrightarrow> durable G t3 (foldl write_map m ws))))"
proof -
  let ?m = "foldl write_map m ws"
  obtain t1 where t1: "write_all (write_step (TryUpdate G) (TryDelete G)) t ws = Some (Inr (((), None), t1))" "durable G t1 ?m"
    "reader t1 = reader t" using durable_writes [OF assms(1,2)] by blast
  then have l1: "lawful G (reader t1)" using assms(2) by simp
  obtain S t2 where S: "Trie_Commit G order t1 cl = Inr ((rootHash G (root t1), S), t2)" "committed_set G cl (owner t1) S"
    "\<And>R'. serves (reader t) R' \<Longrightarrow> deliversSet G R' S \<Longrightarrow> ?m = Map.empty \<or> rooted G R' (rootHash G (root t1)) ?m"
    using durable_commit [OF t1(2) l1 assms(3), of order cl] t1(3) by auto
  have e: "?m = Map.empty \<longleftrightarrow> root t1 = nilNode" using content_empty_iff t1(2) by (auto simp: durable_def)
  have nil: "rootHash G nilNode = EmptyRootHash G" by (simp add: rootHash_def)
  show ?thesis
  proof (intro exI conjI, rule t1(1), rule S(1), rule S(2), intro allI impI)
    fix i :: ID and db :: "hash \<Rightarrow> u64 \<Rightarrow> nodeStore option" and codec store rd
    assume db: "db (StateRoot i) codec = Some store" and r: "id_Root i = rootHash G (root t1)"
      and rd: "rd = \<lparr>rd_owner = id_Owner i, rd_reader = Some store, rd_banned = None\<rparr>"
      and s: "serves (reader t) rd" "deliversSet G rd S" and z: "id_Root i = 0 \<or> id_Root i = EmptyRootHash G \<longrightarrow> root t1 = nilNode"
    show "\<exists>t3. New G i db codec = Inr (Inr t3) \<and> content G t3 ?m \<and> (sound_reader G rd \<longrightarrow> durable G t3 ?m)"
    proof (cases "id_Root i = 0 \<or> id_Root i = EmptyRootHash G")
      case True
      then obtain t3 where "New G i db codec = Inr (Inr t3)" "content G t3 Map.empty" "root t3 = nilNode"
        using New_empty [of db i codec store G] db by blast
      then show ?thesis using True z e by (auto simp: durable_def persists_def)
    next
      case False
      then have "root t1 \<noteq> nilNode" using r nil by auto
      then have "rooted G rd (id_Root i) ?m" using S(3) [OF s] e r by simp
      then obtain kd mm where k: "tnode G rd [] (hashNode (hash_bytes (id_Root i))) kd mm" "dom mm \<subseteq> range keybytesToHex"
        "?m = (\<lambda>k. mm (keybytesToHex k))" by (auto simp: rooted_def)
      then obtain t3 blob where t3: "New G i db codec = Inr (Inr t3)" "content G t3 ?m" "reader t3 = rd"
        "resolves G rd [] (hash_bytes (id_Root i)) blob (root t3)"
        using New_content [of db i codec store G kd mm] db False rd by auto
      have "persists G rd [] (root t3)" if "sound_reader G rd"
        using persists_resolved [OF lawfulD(1) [OF assms(2)] that lawfulD(3) [OF assms(2)] _ t3(4)] by (simp add: persists_def)
      then show ?thesis using t3 by (auto simp: durable_def)
    qed
  qed
qed

text \<open>C9: Commit and reopen: after any writes to a trie over a sound store, \<open>Commit\<close> returns the root hash and
  a node set such that every store that has the old nodes and the nodes of the set
  opens under that root, with \<open>New\<close>, as a trie with exactly the content written; if that store is
  sound, the new trie can be written and committed in turn. (A root hash that is zero, or the empty root
  for a trie that is not empty, would be a collision.)\<close>

theorem commit_reopens:
  assumes "durable G t m" "lawful G (reader t)" "small_content (foldl write_map m ws)"
  shows "\<exists>t1 S t2. write_all (write_step (TryUpdate G) (TryDelete G)) t ws = Some (Inr (((), None), t1))
    \<and> Trie_Commit G order t1 cl = Inr ((rootHash G (root t1), S), t2)
    \<and> (\<forall>i db codec store rd. db (StateRoot i) codec = Some store \<longrightarrow> id_Root i = rootHash G (root t1) \<longrightarrow>
         rd = \<lparr>rd_owner = id_Owner i, rd_reader = Some store, rd_banned = None\<rparr> \<longrightarrow>
         serves (reader t) rd \<longrightarrow> deliversSet G rd S \<longrightarrow> (id_Root i = 0 \<or> id_Root i = EmptyRootHash G \<longrightarrow> root t1 = nilNode) \<longrightarrow>
         (\<exists>t3. New G i db codec = Inr (Inr t3) \<and> content G t3 (foldl write_map m ws)
            \<and> (sound_reader G rd \<longrightarrow> durable G t3 (foldl write_map m ws))))"
  using commit_reopened [OF assms, of order cl] by blast

definition leafSetStore :: nodeStore where
  "leafSetStore own p h = (if p = [] \<and> h = 0xc482200107 then [0xc4, 0x82, 0x20, 1, 7] else [], None)"

lemma leaf_encoded: "rlpList ref_geth (rlpString ref_geth [0x20, 1] @ rlpString ref_geth [7]) = [0xc4, 0x82, 0x20, 1, 7]"
  by (simp add: ref_geth_def ref_list_def ref_string_def rlp_header_def)

lemma leaf_hashed: "keccak256 ref_geth [0xc4, 0x82, 0x20, 1, 7] = 0xc482200107"
  by (simp add: ref_geth_def be_nat_def)

lemma leafTrie_commit:
  "\<exists>S u. Trie_Commit ref_geth [] (leafTrie 7) False = Inr ((0xc482200107, Some S), u)
     \<and> ns_nodes S = [[] \<mapsto> \<lparr>mn_hash = 0xc482200107, mn_size = 7, mn_node = rawShortNode [0x20, 1] (valueNode [7])\<rparr>]"
  using common_laws_ref
  by (simp add: leafTrie_def Trie_Commit_def Trie_Hash_def hashRoot_def hasher_hash.simps hashShortNodeChildren.simps blankTrie_def
     hexToCompact_eq compact_of_def path_part_def hasTerm_def shortnodeToHash_def setHash_def hashData_def newFlag_def Let_def
     committer_Commit_def commit.simps store_def markUpdated_def markDeletions_def NewNodeSet_def leaf_encoded leaf_hashed)

theorem commit_reopens_witness:
  "\<exists>t1 S t2 t3. write_all (write_step (TryUpdate ref_geth) (TryDelete ref_geth)) blankTrie [Put [1] [7]] = Some (Inr (((), None), t1))
    \<and> Trie_Commit ref_geth [] t1 False = Inr ((0xc482200107, S), t2)
    \<and> New ref_geth (StateTrieID 0xc482200107) (\<lambda>_ _. Some leafSetStore) 0x96 = Inr (Inr t3) \<and> content ref_geth t3 [[1] \<mapsto> [7]]"
proof -
  have l: "lawful ref_geth (reader blankTrie)" using lawful_ref by simp
  have sm: "small_content (foldl write_map Map.empty [Put [1] [7]])" by (simp add: small_content_def)
  let ?i = "StateTrieID 0xc482200107"
  let ?rd = "\<lparr>rd_owner = id_Owner ?i, rd_reader = Some leafSetStore, rd_banned = None\<rparr>"
  obtain t1 S t2 where t1: "write_all (write_step (TryUpdate ref_geth) (TryDelete ref_geth)) blankTrie [Put [1] [7]] = Some (Inr (((), None), t1))"
    "Trie_Commit ref_geth [] t1 False = Inr ((rootHash ref_geth (root t1), S), t2)"
    and re: "(\<lambda>_ _. Some leafSetStore) (StateRoot ?i) (0x96 :: u64) = Some leafSetStore \<Longrightarrow> id_Root ?i = rootHash ref_geth (root t1) \<Longrightarrow>
         serves (reader blankTrie) ?rd \<Longrightarrow> deliversSet ref_geth ?rd S \<Longrightarrow>
         (id_Root ?i = 0 \<or> id_Root ?i = EmptyRootHash ref_geth \<longrightarrow> root t1 = nilNode) \<Longrightarrow>
         \<exists>t3. New ref_geth ?i (\<lambda>_ _. Some leafSetStore) 0x96 = Inr (Inr t3) \<and> content ref_geth t3 (foldl write_map Map.empty [Put [1] [7]])"
    using commit_reopens [OF durable_blank l sm, of "[]" False] by metis
  have r: "t1 = leafTrie 7" using t1(1) leafTrie_written [of ref_geth 7] by simp
  then have h: "rootHash ref_geth (root t1) = 0xc482200107" using t1(2) leafTrie_commit by auto
  obtain S' where S': "S = Some S'" "ns_nodes S' = [[] \<mapsto> \<lparr>mn_hash = 0xc482200107, mn_size = 7, mn_node = rawShortNode [0x20, 1] (valueNode [7])\<rparr>]"
    using t1(2) leafTrie_commit r by auto
  have "deliversSet ref_geth ?rd S"
    by (simp add: deliversSet_def delivers_def S' memoryNode_rlp_def nodeToBytes_def nodeBlob_def leafSetStore_def leaf_encoded)
  moreover have "serves (reader blankTrie) ?rd" by (simp add: serves_def nodeBlob_def newEmptyReader_def)
  ultimately obtain t3 where "New ref_geth ?i (\<lambda>_ _. Some leafSetStore) 0x96 = Inr (Inr t3)" "content ref_geth t3 [[1] \<mapsto> [7]]"
    using re h by (auto simp: StateTrieID_def ref_geth_def [THEN arg_cong, of EmptyRootHash])
  then show ?thesis using t1 h by auto
qed

text \<open>C21: After any sequence of updates and deletions the root of a trie is nil exactly when the writes leave no key: removing the
  last key, in whatever way, leaves the nil root, and then the root hash is the constant \<open>EmptyRootHash\<close>; a trie that holds a key never has the nil root.\<close>

theorem emptied_trie_is_nil:
  assumes "content G t m" "hash_laws G"
  shows "\<exists>t1. write_all (write_step (TryUpdate G) (TryDelete G)) t ws = Some (Inr (((), None), t1))
    \<and> (root t1 = nilNode \<longleftrightarrow> (\<forall>k. foldl write_map m ws k = None))
    \<and> (root t1 = nilNode \<longrightarrow> (\<exists>t2. Trie_Hash G t1 = Inr (EmptyRootHash G, t2) \<and> root t2 = nilNode))"
proof -
  obtain t1 where t1: "write_all (write_step (TryUpdate G) (TryDelete G)) t ws = Some (Inr (((), None), t1))"
    "content G t1 (foldl write_map m ws)" using trie_writes [OF assms(1)] by blast
  have "root t1 = nilNode \<longleftrightarrow> (\<forall>k. foldl write_map m ws k = None)" using content_empty_iff [OF t1(2)] by (auto simp: fun_eq_iff)
  moreover have "\<exists>t2. Trie_Hash G t1 = Inr (EmptyRootHash G, t2) \<and> root t2 = nilNode" if "root t1 = nilNode"
    using that assms(2) by (simp add: Trie_Hash_def hashRoot_def hash_laws_def)
  ultimately show ?thesis using t1(1) by blast
qed

theorem emptied_trie_is_nil_witness:
  "\<exists>t1 t2. write_all (write_step (TryUpdate ref_geth) (TryDelete ref_geth)) blankTrie
      [Put [1, 2] [7], Put [1, 3] [8], Remove [1, 2], Put [1, 3] []] = Some (Inr (((), None), t1))
    \<and> root t1 = nilNode \<and> Trie_Hash ref_geth t1 = Inr (EmptyRootHash ref_geth, t2)"
proof -
  have "hash_laws ref_geth" using lawful_ref by (simp add: lawful_def)
  from emptied_trie_is_nil [OF blankTrie_empty this, of "[Put [1, 2] [7], Put [1, 3] [8], Remove [1, 2], Put [1, 3] []]"]
  show ?thesis by auto
qed

end
