(* ===== verification/CidStorage.thy ===== *)
theory CidStorage
  imports CidState TrieDurable
begin

text \<open>
  The storage of a state object: caches of dirty, pending and original slots over a storage trie. It
  refines a function from slots to values; \<open>updateTrie\<close> makes the trie agree with it, in whatever order the
  pending slots are visited.
\<close>

section \<open>Slots of a storage trie\<close>

definition slotKey :: "geth \<Rightarrow> hash \<Rightarrow> bytes" where
  "slotKey G k = hashKey G (hash_bytes k)"

definition slot :: "geth \<Rightarrow> (bytes \<rightharpoonup> bytes) \<Rightarrow> hash \<Rightarrow> hash option" where
  "slot G mm k =
     (case mm (slotKey G k) of
        None \<Rightarrow> Some 0
      | Some b \<Rightarrow> if b = [] then Some 0
                  else case rlpSplit G b of (_, c, _, None) \<Rightarrow> Some (BytesToHash G c) | (_, _, _, Some _) \<Rightarrow> None)"

text \<open>The content \<open>mm\<close> of a trie stands for the storage \<open>sg\<close> on the slots \<open>K\<close>, among which the hash has no collision.\<close>

definition stands_for :: "geth \<Rightarrow> hash set \<Rightarrow> (bytes \<rightharpoonup> bytes) \<Rightarrow> (hash \<Rightarrow> hash) \<Rightarrow> bool" where
  "stands_for G K mm sg \<longleftrightarrow> inj_on (slotKey G) K \<and> (\<forall>k \<in> K. slot G mm k = Some (sg k))"

text \<open>What is assumed of \<open>common.TrimLeftZeroes\<close>: it loses nothing of a hash, and makes nothing longer.\<close>

definition trim_law :: "geth \<Rightarrow> stateEnv \<Rightarrow> bool" where
  "trim_law G E \<longleftrightarrow> (\<forall>h. BytesToHash G (TrimLeftZeroes E (hash_bytes h)) = h) \<and> (\<forall>b. length (TrimLeftZeroes E b) \<le> length b)"

lemma string_not_empty:
  assumes "rlp G" "rlp_small b" shows "rlpString G b \<noteq> []"
proof
  assume "rlpString G b = []"
  then have "rlpSplit G (rlpList G []) = (string_kind b, b, rlpList G [], None)"
    using rlp.split_string [OF assms, of "rlpList G []"] by simp
  moreover have "rlpSplit G (rlpList G []) = (RlpList, [], [], None)"
    using rlp.split_list [OF assms(1), of "[]" "[]"] by (simp add: rlp_small_def)
  ultimately show False by (simp add: string_kind_def split: if_splits)
qed

lemma slot_written:
  assumes "rlp G" "trim_law G E" shows "slot G (mm(slotKey G k \<mapsto> rlpString G (TrimLeftZeroes E (hash_bytes v)))) k = Some v"
proof -
  have "length (TrimLeftZeroes E (hash_bytes v)) \<le> 32" using assms(2) unfolding trim_law_def by (metis length_hash_bytes)
  then have "rlp_small (TrimLeftZeroes E (hash_bytes v))" by (simp add: rlp_small_def)
  then show ?thesis using rlp.split_string [OF assms(1), of _ "[]"] string_not_empty [OF assms(1)] assms(2)
    by (simp add: slot_def trim_law_def)
qed

lemma stands_for_write:
  assumes "rlp G" "trim_law G E" "stands_for G K mm sg" "k \<in> K"
  shows "stands_for G K (mm(slotKey G k \<mapsto> rlpString G (TrimLeftZeroes E (hash_bytes v)))) (sg(k := v))"
  using assms(3,4) slot_written [OF assms(1,2)] unfolding stands_for_def
  by (auto simp: slot_def inj_on_eq_iff)

lemma stands_for_delete:
  assumes "stands_for G K mm sg" "k \<in> K" shows "stands_for G K (mm(slotKey G k := None)) (sg(k := 0))"
  using assms unfolding stands_for_def by (auto simp: slot_def inj_on_eq_iff)

section \<open>Secure tries over a lawful store\<close>

definition secured :: "geth \<Rightarrow> StateTrie \<Rightarrow> (bytes \<rightharpoonup> bytes) \<Rightarrow> bool" where
  "secured G tr mm \<longleftrightarrow> durable G (trie tr) mm \<and> lawful G (reader (trie tr))"

lemma secured_trie: "trie t' = trie t \<Longrightarrow> secured G t' mm = secured G t mm"
  by (simp add: secured_def)

lemma secured_get:
  assumes "secured G t mm" shows "\<exists>t'. StateTrie_TryGet G t k = okR ((mm (hashKey G k), None), t') \<and> secured G t' mm"
  using dtrie.look_law [of G "trie t" mm "hashKey G k"] assms by (auto simp: secured_def StateTrie_TryGet_def onTrie_def)

lemma secured_put:
  assumes "secured G t mm" "v \<noteq> []"
  shows "\<exists>t'. StateTrie_TryUpdate G t k v = okR (((), None), t') \<and> secured G t' (mm(hashKey G k \<mapsto> v))"
proof -
  obtain t' where "TryUpdate G (trie t) (hashKey G k) v = Some (Inr (((), None), t'))" "durable G t' (mm(hashKey G k \<mapsto> v))" "lawful G (reader t')"
    using dtrie.put_law [of G "trie t" mm "hashKey G k" v] assms by (auto simp: secured_def)
  then show ?thesis by (auto simp: secured_def StateTrie_TryUpdate_def onTrie_def cacheKey_def Let_def)
qed

lemma secured_delete:
  assumes "secured G t mm"
  shows "\<exists>t'. StateTrie_TryDelete G t k = okR (((), None), t') \<and> secured G t' (mm(hashKey G k := None))"
proof -
  obtain t' where "TryDelete G (trie t) (hashKey G k) = Some (Inr (((), None), t'))" "durable G t' (mm(hashKey G k := None))" "lawful G (reader t')"
    using dtrie.rem_law [of G "trie t" mm "hashKey G k"] assms by (auto simp: secured_def)
  then show ?thesis by (auto simp: secured_def StateTrie_TryDelete_def onTrie_def Let_def)
qed

lemma secured_hash:
  assumes "secured G t mm"
  shows "\<exists>t'. StateTrie_Hash G t = Inr (rootHash G (root (trie t)), t') \<and> secured G t' mm"
proof -
  obtain t' where "Trie_Hash G (trie t) = Inr (rootHash G (root (trie t)), t')" "durable G t' mm" "reader t' = reader (trie t)"
    using durable_hash assms unfolding secured_def by blast
  then show ?thesis using assms by (auto simp: secured_def StateTrie_Hash_def)
qed

lemma secured_root: "secured G t mm \<Longrightarrow> secured G t' mm \<Longrightarrow> rootHash G (root (trie t)) = rootHash G (root (trie t'))"
  using durable_rootHash by (auto simp: secured_def)

section \<open>Objects over their storage\<close>

definition trie_of :: "stateEnv \<Rightarrow> cidDB \<Rightarrow> cidObject \<Rightarrow> StateTrie option" where
  "trie_of E s so =
     (case obj_trie so of
        Some t \<Rightarrow> Some t
      | None \<Rightarrow> (case OpenStorageTrie (sdb E) (originalRoot s) (addrHash so) (Root (data so)) of
                   Inr (Inr t) \<Rightarrow> Some t | _ \<Rightarrow> None))"

lemma trie_of_cong:
  "originalRoot s' = originalRoot s \<Longrightarrow> obj_trie so' = obj_trie so \<Longrightarrow> addrHash so' = addrHash so \<Longrightarrow> data so' = data so \<Longrightarrow>
   trie_of E s' so' = trie_of E s so"
  by (simp add: trie_of_def cong: option.case_cong)

lemma trie_of_simps [simp]:
  "trie_of E s (so\<lparr>pendingStorage := x, dirtyStorage := y\<rparr>) = trie_of E s so" "trie_of E s (so\<lparr>pendingStorage := x\<rparr>) = trie_of E s so"
  "trie_of E s (setState so k v) = trie_of E s so" "trie_of E (journal_append s e) so = trie_of E s so"
  "trie_of E s (so\<lparr>obj_trie := Some t\<rparr>) = Some t" "trie_of E s (so\<lparr>obj_trie := Some t, originStorage := z\<rparr>) = Some t"
  "trie_of E s (so\<lparr>dirtyStorage := y\<rparr>) = trie_of E s so" "trie_of E (s\<lparr>journal := j\<rparr>) so = trie_of E s so"
  by (simp_all add: trie_of_def setState_def journal_append_def cong: option.case_cong)

text \<open>
  The invariant. An original slot is what the trie has; a slot with a pending or dirty value has its original value cached, or
  the trie has none for it. The trie of an object that was destructed in this block has only slots the object has cached.
\<close>

definition obj_over ::
    "geth \<Rightarrow> stateEnv \<Rightarrow> hash set \<Rightarrow> cidDB \<Rightarrow> cidObject \<Rightarrow> (bytes \<rightharpoonup> bytes) \<Rightarrow> (hash \<Rightarrow> hash) \<Rightarrow> bool" where
  "obj_over G E K s so mm sg \<longleftrightarrow>
     (\<exists>t. trie_of E s so = Some t \<and> secured G t mm) \<and> stands_for G K mm sg \<and> snap s = None
     \<and> (address so \<in> stateObjectsDestruct s \<longrightarrow> (\<forall>k \<in> K. k \<in> dom (originStorage so) \<or> sg k = 0))
     \<and> (\<forall>k \<in> K. \<forall>v. originStorage so k = Some v \<longrightarrow> v = sg k)
     \<and> dom (pendingStorage so) \<subseteq> K \<and> dom (dirtyStorage so) \<subseteq> K
     \<and> (\<forall>k \<in> dom (pendingStorage so) \<union> dom (dirtyStorage so). k \<in> dom (originStorage so) \<or> sg k = 0)"

text \<open>The storage as the object presents it.\<close>

definition current :: "cidObject \<Rightarrow> (hash \<Rightarrow> hash) \<Rightarrow> hash \<Rightarrow> hash" where
  "current so sg k =
     (case dirtyStorage so k of Some v \<Rightarrow> v | None \<Rightarrow> (case pendingStorage so k of Some v \<Rightarrow> v | None \<Rightarrow> sg k))"

definition committed :: "cidObject \<Rightarrow> (hash \<Rightarrow> hash) \<Rightarrow> hash \<Rightarrow> hash" where
  "committed so sg k = (case pendingStorage so k of Some v \<Rightarrow> v | None \<Rightarrow> sg k)"

text \<open>What a read may change: caches and the open trie.\<close>

definition same_slots :: "cidObject \<Rightarrow> cidObject \<Rightarrow> bool" where
  "same_slots so so' \<longleftrightarrow> address so' = address so \<and> addrHash so' = addrHash so \<and> data so' = data so
     \<and> pendingStorage so' = pendingStorage so \<and> dirtyStorage so' = dirtyStorage so \<and> code so' = code so
     \<and> dirtyCode so' = dirtyCode so \<and> suicided so' = suicided so \<and> deleted so' = deleted so
     \<and> dom (originStorage so) \<subseteq> dom (originStorage so')"

lemma getTrie_opens:
  assumes "trie_of E s so = Some t"
  shows "getTrie E s so = okR (Inr t, so\<lparr>obj_trie := Some t\<rparr>)"
  using assms by (cases so) (auto simp: trie_of_def getTrie_def split: option.splits sum.splits)

lemma obj_read:
  assumes "obj_over G E K s so mm sg" "k \<in> K"
  shows "\<exists>so'. obj_GetCommittedState G E s so k = okR (committed so sg k, so', s) \<and> obj_over G E K s so' mm sg \<and> same_slots so so'
    \<and> (k \<in> dom (originStorage so') \<or> sg k = 0 \<or> k \<in> dom (pendingStorage so))"
proof -
  obtain t where t: "trie_of E s so = Some t" "secured G t mm" using assms(1) by (auto simp: obj_over_def)
  obtain t' where t': "StateTrie_TryGet G t (hash_bytes k) = okR ((mm (slotKey G k), None), t')" "secured G t' mm"
    using secured_get [OF t(2)] by (auto simp: slotKey_def)
  have sl: "slot G mm k = Some (sg k)" using assms by (simp add: obj_over_def stands_for_def)
  let ?so = "so\<lparr>obj_trie := Some t', originStorage := (originStorage so)(k \<mapsto> sg k)\<rparr>"
  show ?thesis
  proof (cases "pendingStorage so k = None \<and> originStorage so k = None \<and> address so \<notin> stateObjectsDestruct s")
    case True
    have "decodeSlot G (case mm (slotKey G k) of None \<Rightarrow> [] | Some b \<Rightarrow> b) k (so\<lparr>obj_trie := Some t'\<rparr>) s = (sg k, ?so, s)"
      using sl by (auto simp: decodeSlot_def slot_def split: option.splits prod.splits if_splits)
    then have "obj_GetCommittedState G E s so k = okR (committed so sg k, ?so, s)"
      using True t' getTrie_opens [OF t(1)] assms(1) by (simp add: obj_GetCommittedState_def snapSlot_def obj_over_def committed_def)
    moreover have "obj_over G E K s ?so mm sg" using assms(1) t'(2) by (auto simp: obj_over_def trie_of_def)
    ultimately show ?thesis by (intro exI [of _ ?so]) (auto simp: same_slots_def)
  next
    case False
    then have "obj_GetCommittedState G E s so k = okR (committed so sg k, so, s)"
      using assms by (auto simp: obj_GetCommittedState_def obj_over_def committed_def split: option.splits)
    then show ?thesis using assms False by (intro exI [of _ so]) (auto simp: same_slots_def obj_over_def)
  qed
qed

lemma obj_over_state:
  assumes "obj_over G E K s so mm sg" "originalRoot s' = originalRoot s" "snap s' = snap s" "stateObjectsDestruct s' = stateObjectsDestruct s"
  shows "obj_over G E K s' so mm sg"
  using assms trie_of_cong [OF assms(2)] by (simp add: obj_over_def)

lemma obj_get:
  assumes "obj_over G E K s so mm sg" "k \<in> K"
  shows "\<exists>so'. obj_GetState G E s so k = okR (current so sg k, so', s) \<and> obj_over G E K s so' mm sg \<and> same_slots so so'
    \<and> (k \<in> dom (originStorage so') \<or> sg k = 0)"
proof (cases "dirtyStorage so k")
  case None
  then have "current so sg k = committed so sg k" by (simp add: current_def committed_def)
  moreover obtain so' where "obj_GetCommittedState G E s so k = okR (committed so sg k, so', s)" "obj_over G E K s so' mm sg" "same_slots so so'"
    "k \<in> dom (originStorage so') \<or> sg k = 0 \<or> k \<in> dom (pendingStorage so)" using obj_read [OF assms] by blast
  moreover have "k \<in> dom (originStorage so') \<or> sg k = 0" using calculation(3-5) assms(1) unfolding obj_over_def same_slots_def by blast
  ultimately show ?thesis using None by (auto simp: obj_GetState_def)
next
  case (Some v)
  then show ?thesis using assms by (intro exI [of _ so]) (auto simp: obj_GetState_def current_def obj_over_def same_slots_def)
qed

lemma current_setState [simp]: "current (setState so k v) sg j = (if j = k then v else current so sg j)"
  by (simp add: current_def setState_def cong: option.case_cong)

text \<open>The object and the state after \<open>SetState\<close>.\<close>

lemma obj_set:
  assumes "obj_over G E K s so mm sg" "k \<in> K"
  shows "\<exists>so' s'. obj_SetState G E s so k v = okR (so', s') \<and> obj_over G E K s' so' mm sg
    \<and> (\<forall>j. current so' sg j = (if j = k then v else current so sg j))
    \<and> pendingStorage so' = pendingStorage so \<and> address so' = address so \<and> data so' = data so
    \<and> (s' = s \<or> s' = journal_append s (storageChange (address so) k (current so sg k)))"
proof -
  obtain so1 where so1: "obj_GetState G E s so k = okR (current so sg k, so1, s)" "obj_over G E K s so1 mm sg" "same_slots so so1"
    "k \<in> dom (originStorage so1) \<or> sg k = 0" using obj_get [OF assms] by blast
  have c: "current so1 sg j = current so sg j" for j using so1(3) by (simp add: same_slots_def current_def cong: option.case_cong)
  show ?thesis
  proof (cases "current so sg k = v")
    case True
    then show ?thesis using so1 c by (intro exI [of _ so1] exI [of _ s]) (auto simp: obj_SetState_def same_slots_def)
  next
    case False
    let ?s = "journal_append s (storageChange (address so) k (current so sg k))"
    have "obj_over G E K ?s (setState so1 k v) mm sg"
      using so1(2,4) assms(2) by (auto simp: obj_over_def setState_def journal_append_def)
    moreover have "pendingStorage (setState so1 k v) = pendingStorage so" "address (setState so1 k v) = address so"
      "data (setState so1 k v) = data so" "address so1 = address so" using so1(3) by (simp_all add: same_slots_def setState_def)
    ultimately show ?thesis using False so1(1) c
      by (intro exI [of _ "setState so1 k v"] exI [of _ ?s]) (simp add: obj_SetState_def)
  qed
qed

lemma obj_finalise_eq: "obj_finalise so = so\<lparr>pendingStorage := pendingStorage so ++ dirtyStorage so, dirtyStorage := Map.empty\<rparr>"
  by (cases so) (auto simp: obj_finalise_def Let_def)

lemma obj_finalised:
  assumes "obj_over G E K s so mm sg"
  shows "obj_over G E K s (obj_finalise so) mm sg" "current (obj_finalise so) sg = current so sg"
    "committed (obj_finalise so) sg = current so sg"
proof -
  have "dom (pendingStorage so ++ dirtyStorage so) = dom (pendingStorage so) \<union> dom (dirtyStorage so)" by auto
  then show "obj_over G E K s (obj_finalise so) mm sg" using assms by (simp add: obj_over_def obj_finalise_eq)
  show "current (obj_finalise so) sg = current so sg" "committed (obj_finalise so) sg = current so sg"
    by (auto simp: obj_finalise_eq current_def committed_def fun_eq_iff map_add_def split: option.splits)
qed

section \<open>Writing the pending slots to the trie\<close>

definition encSlot :: "geth \<Rightarrow> stateEnv \<Rightarrow> hash \<Rightarrow> bytes option" where
  "encSlot G E v = (if v = 0 then None else Some (rlpString G (TrimLeftZeroes E (hash_bytes v))))"

text \<open>The invariant of the loop, and one round of it.\<close>

definition flushing :: "geth \<Rightarrow> hash set \<Rightarrow> cidObject \<Rightarrow> (bytes \<rightharpoonup> bytes) \<Rightarrow> (hash \<Rightarrow> hash) \<Rightarrow> bool" where
  "flushing G K so mm sg \<longleftrightarrow> (\<exists>t. obj_trie so = Some t \<and> secured G t mm) \<and> stands_for G K mm sg
     \<and> (\<forall>k \<in> K. \<forall>v. originStorage so k = Some v \<longrightarrow> v = sg k)
     \<and> dom (pendingStorage so) \<subseteq> K \<and> (\<forall>k \<in> dom (pendingStorage so). k \<in> dom (originStorage so) \<or> sg k = 0)"

lemma slot_flushed:
  assumes "flushing G K so mm sg" "k \<in> K" "rlp G" "trim_law G E" "snap s = None" "obj_trie so = Some tr"
  shows "\<exists>tr' s' mm'. updateSlot G E so s tr k v
      = okR (None, so\<lparr>originStorage := (originStorage so)(k \<mapsto> v), obj_trie := Some tr'\<rparr>, s')
    \<and> flushing G K (so\<lparr>originStorage := (originStorage so)(k \<mapsto> v), obj_trie := Some tr'\<rparr>) mm' (sg(k := v))
    \<and> (s' = s\<lparr>StorageDeleted := StorageDeleted s + 1\<rparr> \<or> s' = s\<lparr>StorageUpdated := StorageUpdated s + 1\<rparr>)
    \<and> mm' = mm(slotKey G k := encSlot G E v)"
proof -
  have tr: "secured G tr mm" and sf: "stands_for G K mm sg" using assms(1,6) by (auto simp: flushing_def)
  have sn: "snapWrite G s1 so1 k x = s1" if "snap s1 = None" for s1 so1 x using that by (simp add: snapWrite_def)
  have fl: "flushing G K (so\<lparr>originStorage := (originStorage so)(k \<mapsto> v), obj_trie := Some tr'\<rparr>) mm' (sg(k := v))"
    if "secured G tr' mm'" "stands_for G K mm' (sg(k := v))" for tr' mm'
    using assms(1) that by (auto simp: flushing_def)
  show ?thesis
  proof (cases "v = 0")
    case True
    obtain tr' where "StateTrie_TryDelete G tr (hash_bytes k) = okR (((), None), tr')" "secured G tr' (mm(slotKey G k := None))"
      using secured_delete [OF tr] by (auto simp: slotKey_def)
    then show ?thesis using True fl stands_for_delete [OF sf assms(2)] assms(5) sn by (auto simp: updateSlot_def encSlot_def Let_def)
  next
    case False
    let ?b = "rlpString G (TrimLeftZeroes E (hash_bytes v))"
    have "length (TrimLeftZeroes E (hash_bytes v)) \<le> 32" using assms(4) unfolding trim_law_def by (metis length_hash_bytes)
    then have "?b \<noteq> []" using string_not_empty [OF assms(3)] by (simp add: rlp_small_def)
    then obtain tr' where "StateTrie_TryUpdate G tr (hash_bytes k) ?b = okR (((), None), tr')" "secured G tr' (mm(slotKey G k \<mapsto> ?b))"
      using secured_put [OF tr] by (auto simp: slotKey_def)
    then show ?thesis using False fl stands_for_write [OF assms(3,4) sf assms(2)] assms(5) sn by (auto simp: updateSlot_def encSlot_def Let_def)
  qed
qed

text \<open>The content after the slots \<open>ks\<close> have been visited, from the content before.\<close>

definition flush_on :: "geth \<Rightarrow> stateEnv \<Rightarrow> hash set \<Rightarrow> cidObject \<Rightarrow> (bytes \<rightharpoonup> bytes) \<Rightarrow> (bytes \<rightharpoonup> bytes) \<Rightarrow> bool" where
  "flush_on G E ks so mm mm' \<longleftrightarrow>
     (\<forall>k \<in> ks. \<forall>v. pendingStorage so k = Some v \<longrightarrow>
        mm' (slotKey G k) = (if v = storage_at (originStorage so) k then mm (slotKey G k) else encSlot G E v))
     \<and> (\<forall>b. b \<notin> slotKey G ` ks \<longrightarrow> mm' b = mm b)"

lemma flush_on_det:
  assumes "flush_on G E ks so mm m1" "flush_on G E ks so mm m2" "ks \<subseteq> dom (pendingStorage so)" shows "m1 = m2"
proof
  fix b show "m1 b = m2 b"
  proof (cases "b \<in> slotKey G ` ks")
    case True
    then obtain k v where "k \<in> ks" "b = slotKey G k" "pendingStorage so k = Some v" using assms(3) by blast
    then show ?thesis using assms(1,2) by (simp add: flush_on_def)
  qed (use assms(1,2) in \<open>simp add: flush_on_def\<close>)
qed

definition counts_only :: "cidDB \<Rightarrow> cidDB \<Rightarrow> bool" where
  "counts_only s s' \<longleftrightarrow> (\<exists>u d. s' = s\<lparr>StorageUpdated := u, StorageDeleted := d\<rparr>)"

lemma counts_only_refl [simp]: "counts_only s s"
  unfolding counts_only_def by (intro exI [of _ "StorageUpdated s"] exI [of _ "StorageDeleted s"]) simp

lemma counts_only_step:
  "counts_only (s\<lparr>StorageUpdated := u\<rparr>) s' \<Longrightarrow> counts_only s s'" "counts_only (s\<lparr>StorageDeleted := d\<rparr>) s' \<Longrightarrow> counts_only s s'"
  by (auto simp: counts_only_def)

lemma slots_flushed:
  assumes "flushing G K so mm sg" "set ks \<subseteq> dom (pendingStorage so)" "distinct ks" "rlp G" "trim_law G E" "snap s = None"
  shows "\<exists>og tr s' mm'. updateSlots G E so s ks = okR (None, so\<lparr>originStorage := og, obj_trie := Some tr\<rparr>, s')
    \<and> flushing G K (so\<lparr>originStorage := og, obj_trie := Some tr\<rparr>) mm' (\<lambda>k. if k \<in> set ks then the (pendingStorage so k) else sg k)
    \<and> counts_only s s' \<and> flush_on G E (set ks) so mm mm' \<and> dom (originStorage so) \<subseteq> dom og"
  using assms
proof (induction ks arbitrary: so s mm sg)
  case Nil
  then obtain tr where "obj_trie so = Some tr" by (auto simp: flushing_def)
  then have e: "so\<lparr>obj_trie := Some tr\<rparr> = so" by (cases so) simp
  show ?case using Nil.prems(1)
    by (intro exI [of _ "originStorage so"] exI [of _ tr] exI [of _ s] exI [of _ mm]) (simp add: e flush_on_def)
next
  case (Cons k ks)
  obtain v where v: "pendingStorage so k = Some v" and kK: "k \<in> K" using Cons.prems(1,2) by (auto simp: flushing_def)
  obtain tr where tr: "obj_trie so = Some tr" using Cons.prems(1) by (auto simp: flushing_def)
  have inj: "inj_on (slotKey G) K" "dom (pendingStorage so) \<subseteq> K" using Cons.prems(1) by (auto simp: flushing_def stands_for_def)
  have fresh: "slotKey G k \<notin> slotKey G ` set ks"
  proof
    assume "slotKey G k \<in> slotKey G ` set ks"
    then obtain x where x: "x \<in> set ks" "slotKey G k = slotKey G x" by blast
    then have "x \<in> K" using inj(2) Cons.prems(2) by auto
    then show False using inj(1) x kK Cons.prems(3) by (auto dest: inj_onD)
  qed
  have sub: "set ks \<subseteq> dom (pendingStorage so)" "distinct ks" using Cons.prems(2,3) by auto
  show ?case
  proof (cases "v = storage_at (originStorage so) k")
    case True
    have "k \<in> dom (originStorage so) \<or> sg k = 0" "\<forall>w. originStorage so k = Some w \<longrightarrow> w = sg k"
      using Cons.prems(1) v kK by (auto simp: flushing_def)
    then have "sg k = v" using True by (cases "originStorage so k") (auto simp: storage_at_def)
    then have e: "(\<lambda>j. if j \<in> set (k # ks) then the (pendingStorage so j) else sg j) = (\<lambda>j. if j \<in> set ks then the (pendingStorage so j) else sg j)"
      using v by auto
    obtain og tr' s' mm' where h: "updateSlots G E so s ks = okR (None, so\<lparr>originStorage := og, obj_trie := Some tr'\<rparr>, s')"
      "flushing G K (so\<lparr>originStorage := og, obj_trie := Some tr'\<rparr>) mm' (\<lambda>k. if k \<in> set ks then the (pendingStorage so k) else sg k)"
      "counts_only s s'" "flush_on G E (set ks) so mm mm'" "dom (originStorage so) \<subseteq> dom og" using Cons.IH [OF Cons.prems(1) sub Cons.prems(4-6)] by blast
    have "flush_on G E (set (k # ks)) so mm mm'" using h(4) fresh True v by (auto simp: flush_on_def)
    moreover have "updateSlots G E so s (k # ks) = okR (None, so\<lparr>originStorage := og, obj_trie := Some tr'\<rparr>, s')"
      using h(1) True v tr by simp
    ultimately show ?thesis unfolding e using h(2,3,5) by blast
  next
    case False
    let ?so = "\<lambda>t. so\<lparr>originStorage := (originStorage so)(k \<mapsto> v), obj_trie := Some t\<rparr>"
    obtain t1 s1 where one: "updateSlot G E so s tr k v = okR (None, ?so t1, s1)" "flushing G K (?so t1) (mm(slotKey G k := encSlot G E v)) (sg(k := v))"
      "s1 = s\<lparr>StorageDeleted := StorageDeleted s + 1\<rparr> \<or> s1 = s\<lparr>StorageUpdated := StorageUpdated s + 1\<rparr>"
      using slot_flushed [OF Cons.prems(1) kK Cons.prems(4-6) tr, of v] by blast
    have s1: "snap s1 = None" using one(3) Cons.prems(6) by auto
    have sub': "set ks \<subseteq> dom (pendingStorage (?so t1))" using sub(1) by simp
    obtain og tr' s' mm' where h: "updateSlots G E (?so t1) s1 ks = okR (None, ?so t1\<lparr>originStorage := og, obj_trie := Some tr'\<rparr>, s')"
      "flushing G K (?so t1\<lparr>originStorage := og, obj_trie := Some tr'\<rparr>) mm'
         (\<lambda>j. if j \<in> set ks then the (pendingStorage (?so t1) j) else (sg(k := v)) j)"
      "counts_only s1 s'" "flush_on G E (set ks) (?so t1) (mm(slotKey G k := encSlot G E v)) mm'"
      "dom (originStorage (?so t1)) \<subseteq> dom og"
      using Cons.IH [OF one(2) sub' sub(2) Cons.prems(4,5) s1] by blast
    have e: "(\<lambda>j. if j \<in> set (k # ks) then the (pendingStorage so j) else sg j)
        = (\<lambda>j. if j \<in> set ks then the (pendingStorage (?so t1) j) else (sg(k := v)) j)" using v Cons.prems(3) by auto
    have "slotKey G j \<noteq> slotKey G k" "storage_at ((originStorage so)(k \<mapsto> v)) j = storage_at (originStorage so) j" if "j \<in> set ks" for j
      using that fresh Cons.prems(3) by (metis image_eqI) (use that Cons.prems(3) in \<open>auto simp: storage_at_def\<close>)
    then have "flush_on G E (set (k # ks)) so mm mm'"
      using h(4) fresh False v by (auto simp: flush_on_def)
    moreover have "updateSlots G E so s (k # ks) = okR (None, so\<lparr>originStorage := og, obj_trie := Some tr'\<rparr>, s')"
      using h(1) one(1) False v tr by simp
    moreover have "counts_only s s'" using h(3) one(3) counts_only_step by blast
    moreover have "flushing G K (so\<lparr>originStorage := og, obj_trie := Some tr'\<rparr>) mm'
        (\<lambda>j. if j \<in> set (k # ks) then the (pendingStorage so j) else sg j)" unfolding e using h(2) by simp
    moreover have "dom (originStorage so) \<subseteq> dom og" using h(5) by auto
    ultimately show ?thesis by blast
  qed
qed

definition flushed :: "cidObject \<Rightarrow> cidObject \<Rightarrow> bool" where
  "flushed so so' \<longleftrightarrow> (\<exists>og tr. so' = (obj_finalise so)\<lparr>originStorage := og, obj_trie := tr, pendingStorage := Map.empty\<rparr>)"

lemma flushedD:
  assumes "flushed so so'"
  shows "data so' = data so" "address so' = address so" "addrHash so' = addrHash so" "deleted so' = deleted so"
    "pendingStorage so' = Map.empty" "dirtyStorage so' = Map.empty"
  using assms by (auto simp: flushed_def obj_finalise_eq)

lemma obj_flushed:
  assumes "obj_over G E K s so mm sg" "range_of ks (dom (pendingStorage (obj_finalise so)))" "rlp G" "trim_law G E"
  shows "\<exists>so' s' mm'. obj_updateTrie G E ks s so = okR (Inr (obj_trie so'), so', s') \<and> obj_over G E K s' so' mm' (current so sg)
    \<and> flush_on G E (dom (pendingStorage (obj_finalise so))) (obj_finalise so) mm mm' \<and> counts_only s s'
    \<and> flushed so so' \<and> (pendingStorage (obj_finalise so) \<noteq> Map.empty \<longrightarrow> obj_trie so' \<noteq> None) \<and> (obj_trie so' = None \<longrightarrow> obj_trie so = None)"
proof -
  let ?so = "obj_finalise so"
  have o: "obj_over G E K s ?so mm sg" using obj_finalised(1) [OF assms(1)] .
  have dirty: "dirtyStorage ?so = Map.empty" by (simp add: obj_finalise_eq)
  show ?thesis
  proof (cases "pendingStorage ?so = Map.empty")
    case True
    then have "current so sg = sg" using obj_finalised(2) [OF assms(1)] dirty by (auto simp: current_def fun_eq_iff)
    then have c: "obj_over G E K s ?so mm (current so sg)" using o by simp
    have e: "?so = ?so\<lparr>originStorage := originStorage ?so, obj_trie := obj_trie ?so, pendingStorage := Map.empty\<rparr>"
      using True by (cases ?so) simp
    then have fe: "flushed so ?so" unfolding flushed_def by blast
    have u: "obj_updateTrie G E ks s so = okR (Inr (obj_trie ?so), ?so, s)" using True by (simp add: obj_updateTrie_def Let_def)
    have f: "flush_on G E (dom (pendingStorage ?so)) ?so mm mm" using True by (simp add: flush_on_def)
    have t: "obj_trie ?so = obj_trie so" by (simp add: obj_finalise_eq)
    from u c f t True show ?thesis by (intro exI [of _ ?so] exI [of _ s] exI [of _ mm] conjI exI) (assumption | rule counts_only_refl | rule fe | simp)+
  next
    case False
    obtain t where t: "trie_of E s ?so = Some t" "secured G t mm" using o by (auto simp: obj_over_def)
    let ?s1 = "?so\<lparr>obj_trie := Some t\<rparr>"
    have fl: "flushing G K ?s1 mm sg" using o t(2) by (auto simp: obj_over_def flushing_def)
    have ks: "set ks = dom (pendingStorage ?so)" "distinct ks" using assms(2) by (auto simp: range_of_def)
    have sub: "set ks \<subseteq> dom (pendingStorage ?s1)" using ks(1) by simp
    have sn: "snap s = None" using o by (simp add: obj_over_def)
    obtain og tr s' mm' where h: "updateSlots G E ?s1 s ks = okR (None, ?s1\<lparr>originStorage := og, obj_trie := Some tr\<rparr>, s')"
      "flushing G K (?s1\<lparr>originStorage := og, obj_trie := Some tr\<rparr>) mm' (\<lambda>k. if k \<in> set ks then the (pendingStorage ?s1 k) else sg k)"
      "counts_only s s'" "flush_on G E (set ks) ?s1 mm mm'" "dom (originStorage ?s1) \<subseteq> dom og"
      using slots_flushed [OF fl sub ks(2) assms(3,4) sn] by blast
    let ?so' = "?so\<lparr>originStorage := og, obj_trie := Some tr, pendingStorage := Map.empty\<rparr>"
    have cur: "(\<lambda>k. if k \<in> set ks then the (pendingStorage ?s1 k) else sg k) = current so sg"
      using obj_finalised(3) [OF assms(1)] ks(1) by (auto simp: committed_def fun_eq_iff split: option.splits)
    have "obj_updateTrie G E ks s so = okR (Inr (obj_trie ?so'), ?so', s')"
      using False h(1) getTrie_opens [OF t(1)] by (simp add: obj_updateTrie_def Let_def)
    moreover have "obj_over G E K s' ?so' mm' (current so sg)"
    proof -
      have f: "flushing G K (?s1\<lparr>originStorage := og, obj_trie := Some tr\<rparr>) mm' (current so sg)" using h(2) unfolding cur .
      have d: "k \<in> dom og \<or> current so sg k = 0" if "address so \<in> stateObjectsDestruct s" "k \<in> K" for k
      proof (cases "k \<in> set ks")
        case True
        then show ?thesis using f ks(1) by (auto simp: flushing_def)
      next
        case False
        then have "current so sg k = sg k" using fun_cong [OF cur, of k] by simp
        moreover have "k \<in> dom (originStorage so) \<or> sg k = 0" using assms(1) that by (simp add: obj_over_def)
        moreover have "dom (originStorage so) \<subseteq> dom og" using h(5) by (simp add: obj_finalise_eq)
        ultimately show ?thesis by auto
      qed
      have st: "snap s' = None" "stateObjectsDestruct s' = stateObjectsDestruct s" using h(3) sn by (auto simp: counts_only_def)
      have tr: "trie_of E s' ?so' = Some tr" by (simp add: trie_of_def)
      have "address ?so' = address so" by (simp add: obj_finalise_eq)
      then show ?thesis unfolding obj_over_def using f d st tr dirty by (simp add: flushing_def)
    qed
    moreover have "flush_on G E (dom (pendingStorage ?so)) ?so mm mm'" using h(4) ks(1) by (simp add: flush_on_def)
    moreover have "flushed so ?so'" unfolding flushed_def by blast
    ultimately show ?thesis using h(3) by (intro exI [of _ ?so'] exI [of _ s'] exI [of _ mm']) auto
  qed
qed

section \<open>The storage root\<close>

definition is_root :: "geth \<Rightarrow> (bytes \<rightharpoonup> bytes) \<Rightarrow> hash \<Rightarrow> bool" where
  "is_root G mm h \<longleftrightarrow> (\<exists>t. secured G t mm \<and> rootHash G (root (trie t)) = h)"

lemma is_root_det: "is_root G mm h \<Longrightarrow> is_root G mm h' \<Longrightarrow> h = h'"
  using secured_root by (auto simp: is_root_def)

lemma secured_det: "secured G t mm \<Longrightarrow> secured G t mm' \<Longrightarrow> mm = mm'"
proof
  fix k assume "secured G t mm" "secured G t mm'"
  then have "content G (trie t) mm" "content G (trie t) mm'" by (auto simp: secured_def durable_def)
  then show "mm k = mm' k" using content_get [of G "trie t" mm k] content_get [of G "trie t" mm' k] by auto
qed

text \<open>A trie that is not open yet has the root recorded in the account.\<close>

definition obj_rooted :: "geth \<Rightarrow> stateEnv \<Rightarrow> cidDB \<Rightarrow> cidObject \<Rightarrow> bool" where
  "obj_rooted G E s so \<longleftrightarrow> (\<forall>t. obj_trie so = None \<longrightarrow> trie_of E s so = Some t \<longrightarrow> rootHash G (root (trie t)) = Root (data so))"

lemma root_updated:
  assumes "obj_over G E K s so mm sg" "obj_rooted G E s so" "range_of ks (dom (pendingStorage (obj_finalise so)))" "rlp G" "trim_law G E"
  shows "\<exists>so' s' mm' r. obj_updateRoot G E ks s so = okR (so', s') \<and> counts_only s s'
    \<and> flush_on G E (dom (pendingStorage (obj_finalise so))) (obj_finalise so) mm mm' \<and> is_root G mm' r \<and> stands_for G K mm' (current so sg)
    \<and> data so' = (data so)\<lparr>Root := r\<rparr> \<and> address so' = address so \<and> addrHash so' = addrHash so \<and> deleted so' = deleted so
    \<and> pendingStorage so' = Map.empty \<and> dirtyStorage so' = Map.empty"
proof -
  obtain so1 s1 mm' where u: "obj_updateTrie G E ks s so = okR (Inr (obj_trie so1), so1, s1)" "obj_over G E K s1 so1 mm' (current so sg)"
    "flush_on G E (dom (pendingStorage (obj_finalise so))) (obj_finalise so) mm mm'" "counts_only s s1"
    "flushed so so1" "obj_trie so1 = None \<longrightarrow> obj_trie so = None"
    using obj_flushed [OF assms(1,3-5)] by metis
  note d = flushedD [OF u(5)]
  obtain t where t: "trie_of E s1 so1 = Some t" "secured G t mm'" "stands_for G K mm' (current so sg)" using u(2) by (auto simp: obj_over_def)
  show ?thesis
  proof (cases "obj_trie so1")
    case None
    then have "trie_of E s so = trie_of E s1 so1" using u(4,6) d by (intro trie_of_cong) (auto simp: counts_only_def)
    then have "is_root G mm' (Root (data so))" using t None u(6) assms(2) by (auto simp: obj_rooted_def is_root_def)
    then show ?thesis using u(1,3,4) None d t(3)
      by (intro exI [of _ so1] exI [of _ s1] exI [of _ mm'] exI [of _ "Root (data so)"]) (simp add: obj_updateRoot_def)
  next
    case (Some tr1)
    then have tr1: "secured G tr1 mm'" using t(1,2) by (simp add: trie_of_def)
    obtain tr2 where h: "StateTrie_Hash G tr1 = Inr (rootHash G (root (trie tr1)), tr2)" using secured_hash [OF tr1] by blast
    have "is_root G mm' (rootHash G (root (trie tr1)))" using tr1 by (auto simp: is_root_def)
    then show ?thesis using u(1,3,4) Some d t(3) h
      by (intro exI [of _ "so1\<lparr>obj_trie := Some tr2, data := (data so1)\<lparr>Root := rootHash G (root (trie tr1))\<rparr>\<rparr>"] exI [of _ s1]
          exI [of _ mm'] exI [of _ "rootHash G (root (trie tr1))"]) (simp add: obj_updateRoot_def)
  qed
qed

lemma object_storage_steps:
  assumes "obj_over G E K s so mm sg" "k \<in> K" "rlp G" "trim_law G E"
  shows "(\<exists>so'. obj_GetState G E s so k = okR (current so sg k, so', s) \<and> obj_over G E K s so' mm sg \<and> current so' sg = current so sg)"
    "(\<exists>so'. obj_GetCommittedState G E s so k = okR (committed so sg k, so', s) \<and> obj_over G E K s so' mm sg \<and> current so' sg = current so sg)"
    "(\<exists>so' s'. obj_SetState G E s so k v = okR (so', s') \<and> obj_over G E K s' so' mm sg \<and> current so' sg = (current so sg)(k := v)
        \<and> committed so' sg = committed so sg)"
    "obj_over G E K s (obj_finalise so) mm sg \<and> current (obj_finalise so) sg = current so sg \<and> committed (obj_finalise so) sg = current so sg"
    "range_of ks (dom (pendingStorage (obj_finalise so))) \<longrightarrow>
       (\<exists>so' s' mm'. obj_updateTrie G E ks s so = okR (Inr (obj_trie so'), so', s') \<and> obj_over G E K s' so' mm' (current so sg)
          \<and> current so' (current so sg) = current so sg)"
proof -
  have c: "same_slots so so' \<Longrightarrow> current so' sg = current so sg" for so'
    by (simp add: same_slots_def current_def fun_eq_iff cong: option.case_cong)
  show "(\<exists>so'. obj_GetState G E s so k = okR (current so sg k, so', s) \<and> obj_over G E K s so' mm sg \<and> current so' sg = current so sg)"
    "(\<exists>so'. obj_GetCommittedState G E s so k = okR (committed so sg k, so', s) \<and> obj_over G E K s so' mm sg \<and> current so' sg = current so sg)"
    using obj_get [OF assms(1,2)] obj_read [OF assms(1,2)] c by blast+
  obtain so' s' where so': "obj_SetState G E s so k v = okR (so', s')" "obj_over G E K s' so' mm sg"
    "\<forall>j. current so' sg j = (if j = k then v else current so sg j)" "pendingStorage so' = pendingStorage so" using obj_set [OF assms(1,2)] by blast
  then have "committed so' sg = committed so sg" "current so' sg = (current so sg)(k := v)" by (auto simp: committed_def fun_eq_iff)
  then show "(\<exists>so' s'. obj_SetState G E s so k v = okR (so', s') \<and> obj_over G E K s' so' mm sg \<and> current so' sg = (current so sg)(k := v)
        \<and> committed so' sg = committed so sg)" using so'(1,2) by blast
  show "obj_over G E K s (obj_finalise so) mm sg \<and> current (obj_finalise so) sg = current so sg \<and> committed (obj_finalise so) sg = current so sg"
    using obj_finalised [OF assms(1)] by blast
  show "range_of ks (dom (pendingStorage (obj_finalise so))) \<longrightarrow>
       (\<exists>so' s' mm'. obj_updateTrie G E ks s so = okR (Inr (obj_trie so'), so', s') \<and> obj_over G E K s' so' mm' (current so sg)
          \<and> current so' (current so sg) = current so sg)"
  proof
    assume "range_of ks (dom (pendingStorage (obj_finalise so)))"
    then obtain so' s' mm' where "obj_updateTrie G E ks s so = okR (Inr (obj_trie so'), so', s')" "obj_over G E K s' so' mm' (current so sg)"
      "flushed so so'" using obj_flushed [OF assms(1) _ assms(3,4)] by blast
    moreover from this have "current so' x = x" for x using flushedD by (simp add: current_def fun_eq_iff)
    ultimately show "\<exists>so' s' mm'. obj_updateTrie G E ks s so = okR (Inr (obj_trie so'), so', s') \<and> obj_over G E K s' so' mm' (current so sg)
          \<and> current so' (current so sg) = current so sg" by blast
  qed
qed

section \<open>Properties\<close>

text \<open>C7: The storage of an object refines a function from slots to values, over a storage trie that stands for \<open>sg\<close>: \<open>GetState\<close>
  returns the current value and \<open>GetCommittedState\<close> the value at the end of the last transaction, \<open>SetState\<close> changes one
  slot, \<open>finalise\<close> makes the current values the committed ones, and \<open>updateTrie\<close>, in whatever order it visits the pending
  slots, makes the trie stand for the current values; no call fails.\<close>

theorem object_storage_refines:
  assumes "obj_over G E K s so mm sg" "k \<in> K" "rlp G" "trim_law G E"
  shows "(\<exists>so'. obj_GetState G E s so k = okR (current so sg k, so', s) \<and> obj_over G E K s so' mm sg \<and> current so' sg = current so sg)
    \<and> (\<exists>so'. obj_GetCommittedState G E s so k = okR (committed so sg k, so', s) \<and> obj_over G E K s so' mm sg \<and> current so' sg = current so sg)
    \<and> (\<exists>so' s'. obj_SetState G E s so k v = okR (so', s') \<and> obj_over G E K s' so' mm sg \<and> current so' sg = (current so sg)(k := v)
        \<and> committed so' sg = committed so sg)
    \<and> (obj_over G E K s (obj_finalise so) mm sg \<and> current (obj_finalise so) sg = current so sg \<and> committed (obj_finalise so) sg = current so sg)
    \<and> (range_of ks (dom (pendingStorage (obj_finalise so))) \<longrightarrow>
       (\<exists>so' s' mm'. obj_updateTrie G E ks s so = okR (Inr (obj_trie so'), so', s') \<and> obj_over G E K s' so' mm' (current so sg)
          \<and> current so' (current so sg) = current so sg))"
  by (rule conjI [OF object_storage_steps(1) [OF assms] conjI [OF object_storage_steps(2) [OF assms]
      conjI [OF object_storage_steps(3) [OF assms] conjI [OF object_storage_steps(4) [OF assms] object_storage_steps(5) [OF assms]]]]])

text \<open>A state over an empty database.\<close>

definition emptyEnv :: stateEnv where
  "emptyEnv = \<lparr>sdb = \<lparr>OpenTrie = (\<lambda>_. Inr (Inr blankStateTrie)), OpenStorageTrie = (\<lambda>_ _ _. Inr (Inr blankStateTrie)),
      CopyTrie = StateTrie_Copy, db_ContractCode = (\<lambda>_. (None, None)), db_ContractCodeSize = (\<lambda>_. (0, None))\<rparr>,
    codec = sampleCodec, TrimLeftZeroes = dropWhile (\<lambda>b. b = 0), SlimAccountRLP = (\<lambda>_ _ _ _. [])\<rparr>"

definition emptyState :: cidDB where
  "emptyState = \<lparr>stateObjects = Map.empty, stateObjectsPending = {}, stateObjectsDirty = {},
      stateObjectsDestruct = {}, dbErr = None, refund = 0, thash = 0, txIndex = 0,
      logs = Map.empty, logSize = 0, preimages = Map.empty, accList = newAccessList,
      transient = newTransientStorage, journal = newJournal, validRevisions = [],
      nextRevisionId = 0, db_trie = blankStateTrie, originalRoot = 0, snaps = None, snap = None,
      snapAccounts = Map.empty, snapStorage = Map.empty,
      AccountUpdated = 0, StorageUpdated = 0, AccountDeleted = 0, StorageDeleted = 0\<rparr>"

lemma New_emptyEnv: "New emptyEnv 0 None = Inr (Inr emptyState)"
  by (simp add: New_def emptyEnv_def emptyState_def)

lemma be_nat_dropWhile: "be_nat (dropWhile (\<lambda>b. b = 0) bs) = be_nat bs"
proof -
  have "foldl (\<lambda>a b. a * 256 + unat b) 0 (dropWhile (\<lambda>b. b = 0) bs) = foldl (\<lambda>a b. a * 256 + unat b) (0 :: nat) bs"
    by (induction bs) auto
  then show ?thesis by (simp add: be_nat_def)
qed

lemma trim_law_sample: "trim_law ref_geth emptyEnv"
  by (simp add: trim_law_def emptyEnv_def ref_geth_def be_nat_dropWhile length_dropWhile_le)

lemma blank_secured: "secured ref_geth blankStateTrie Map.empty"
  using durable_blank lawful_ref by (simp add: secured_def blankStateTrie_def)

lemma inj_slotKey_ref: "inj_on (slotKey ref_geth) K"
proof (rule inj_onI)
  fix x y assume "slotKey ref_geth x = slotKey ref_geth y"
  moreover have "hash_bytes h \<noteq> []" for h by (metis length_hash_bytes list.size(3) zero_neq_numeral)
  ultimately show "x = y" by (simp add: slotKey_def hashKey_def ref_geth_def)
qed

lemma sample_obj_over:
  "obj_over ref_geth emptyEnv K emptyState (newObject ref_geth a emptyStateAccount) Map.empty (\<lambda>_. 0)"
  using blank_secured inj_slotKey_ref
  by (simp add: obj_over_def trie_of_def newObject_def emptyEnv_def emptyState_def stands_for_def slot_def)

theorem object_storage_refines_witness:
  "\<exists>so s so'. obj_SetState ref_geth emptyEnv emptyState (newObject ref_geth 5 emptyStateAccount) 1 7 = okR (so, s)
     \<and> obj_over ref_geth emptyEnv {1, 2} s so Map.empty (\<lambda>_. 0)
     \<and> obj_GetState ref_geth emptyEnv s so 1 = okR (7, so', s)"
proof -
  note steps = object_storage_refines [OF _ _ ref.rlp_axioms trim_law_sample, of "{1, 2}" _ _ Map.empty "\<lambda>_. 0" 1 7 "[]"]
  obtain so s where so: "obj_SetState ref_geth emptyEnv emptyState (newObject ref_geth 5 emptyStateAccount) 1 7 = okR (so, s)"
    "obj_over ref_geth emptyEnv {1, 2} s so Map.empty (\<lambda>_. 0)"
    "current so (\<lambda>_. 0) = (current (newObject ref_geth 5 emptyStateAccount) (\<lambda>_. 0))(1 := 7)"
    using steps [OF sample_obj_over [of _ 5] insertI1, THEN conjunct2, THEN conjunct2, THEN conjunct1] by blast
  obtain so' where "obj_GetState ref_geth emptyEnv s so 1 = okR (current so (\<lambda>_. 0) 1, so', s)"
    using steps [OF so(2) insertI1, THEN conjunct1] by blast
  then have "obj_GetState ref_geth emptyEnv s so 1 = okR (7, so', s)" unfolding so(3) by simp
  then show ?thesis using so(1,2) by blast
qed

end
