(* ===== verification/CidRoot.thy ===== *)
theory CidRoot
  imports CidStorage
begin

text \<open>
  \<open>IntermediateRoot\<close> of \<open>trie_by_cid/state\<close>: what \<open>Finalise\<close> leaves, the loop that writes the pending slots of every
  object into its storage trie, the loop that writes the accounts into the account trie, and the root hash. The state
  stands over its tries (\<open>state_over\<close>): every object that is not deleted has a storage trie that stands for its
  storage, and the account trie is sound. The root that comes out does not depend on any of the orders in which Go
  walks its maps.
\<close>

section \<open>A state over its tries\<close>

definition obj_fit :: "geth \<Rightarrow> stateEnv \<Rightarrow> cidDB \<Rightarrow> address \<Rightarrow> cidObject \<Rightarrow> hash set \<Rightarrow> (bytes \<rightharpoonup> bytes) \<Rightarrow> (hash \<Rightarrow> hash) \<Rightarrow> bool" where
  "obj_fit G E s a obj K mm sg \<longleftrightarrow> address obj = a \<and> (\<not> deleted obj \<longrightarrow> obj_over G E K s obj mm sg \<and> obj_rooted G E s obj)"

definition state_over ::
    "geth \<Rightarrow> stateEnv \<Rightarrow> (address \<Rightarrow> hash set) \<Rightarrow> (address \<Rightarrow> bytes \<rightharpoonup> bytes) \<Rightarrow> (address \<Rightarrow> hash \<Rightarrow> hash) \<Rightarrow> cidDB \<Rightarrow> (bytes \<rightharpoonup> bytes) \<Rightarrow> bool" where
  "state_over G E K M SG s A \<longleftrightarrow> snap s = None \<and> secured G (db_trie s) A \<and> stateObjectsPending s \<subseteq> dom (stateObjects s)
     \<and> (\<forall>a obj. stateObjects s a = Some obj \<longrightarrow> obj_fit G E s a obj (K a) (M a) (SG a))"

lemma obj_fit_state:
  assumes "obj_fit G E s a obj K mm sg" "originalRoot s' = originalRoot s" "snap s' = snap s"
    "a \<in> stateObjectsDestruct s' \<longrightarrow> deleted obj \<or> a \<in> stateObjectsDestruct s"
  shows "obj_fit G E s' a obj K mm sg"
  using assms trie_of_cong [OF assms(2) refl refl refl, of E obj] by (auto simp: obj_fit_def obj_over_def obj_rooted_def)

section \<open>Finalise\<close>

definition dies :: "geth \<Rightarrow> bool \<Rightarrow> cidObject \<Rightarrow> bool" where
  "dies G de obj \<longleftrightarrow> suicided obj \<or> (de \<and> empty G obj)"

definition finalised :: "geth \<Rightarrow> bool \<Rightarrow> cidObject \<Rightarrow> cidObject" where
  "finalised G de obj = (if dies G de obj then obj\<lparr>deleted := True\<rparr> else obj_finalise obj)"

text \<open>What finalising the addresses \<open>D\<close> does to the fields, whatever the order.\<close>

definition fin_fields :: "geth \<Rightarrow> bool \<Rightarrow> address set \<Rightarrow> cidDB \<Rightarrow> cidDB \<Rightarrow> bool" where
  "fin_fields G de D s s' \<longleftrightarrow>
     stateObjects s' = (\<lambda>a. if a \<in> D then map_option (finalised G de) (stateObjects s a) else stateObjects s a)
     \<and> stateObjectsDestruct s' = stateObjectsDestruct s \<union> {a \<in> D. \<exists>obj. stateObjects s a = Some obj \<and> dies G de obj}
     \<and> stateObjectsPending s' = stateObjectsPending s \<union> (D \<inter> dom (stateObjects s))
     \<and> db_trie s' = db_trie s \<and> originalRoot s' = originalRoot s \<and> dbErr s' = dbErr s \<and> snap s' = snap s"

lemma finaliseAddr_fields:
  assumes "snap s = None" "\<And>obj. stateObjects s a = Some obj \<Longrightarrow> address obj = a"
  shows "fin_fields G de {a} s (finaliseAddr G de s a)"
proof (cases "stateObjects s a")
  case None
  then show ?thesis by (auto simp: fin_fields_def finaliseAddr_def fun_eq_iff)
next
  case (Some obj)
  have "finaliseAddr G de s a = s\<lparr>stateObjects := (stateObjects s)(a \<mapsto> finalised G de obj),
      stateObjectsDestruct := (if dies G de obj then insert a (stateObjectsDestruct s) else stateObjectsDestruct s),
      stateObjectsPending := insert a (stateObjectsPending s), stateObjectsDirty := insert a (stateObjectsDirty s)\<rparr>"
    using Some assms by (simp add: finaliseAddr_def dies_def [symmetric] finalised_def)
  then show ?thesis using Some by (auto simp: fin_fields_def fun_eq_iff)
qed

lemma fin_fields_join:
  assumes "fin_fields G de D1 s s1" "fin_fields G de D2 s1 s2" "D1 \<inter> D2 = {}"
  shows "fin_fields G de (D1 \<union> D2) s s2"
  using assms by (auto simp: fin_fields_def fun_eq_iff split: if_splits)

lemma finalise_loop:
  assumes "snap s = None" "\<And>a obj. stateObjects s a = Some obj \<Longrightarrow> address obj = a" "distinct as"
  shows "fin_fields G de (set as) s (foldl (finaliseAddr G de) s as)"
  using assms
proof (induction as arbitrary: s)
  case (Cons a as)
  have 1: "fin_fields G de {a} s (finaliseAddr G de s a)" using Cons.prems(1,2) by (rule finaliseAddr_fields)
  have "fin_fields G de (set as) (finaliseAddr G de s a) (foldl (finaliseAddr G de) (finaliseAddr G de s a) as)"
  proof (rule Cons.IH)
    show "address obj = b" if "stateObjects (finaliseAddr G de s a) b = Some obj" for b obj
      using that 1 Cons.prems(2) by (auto simp: fin_fields_def finalised_def obj_finalise_eq split: if_splits)
  qed (use 1 Cons.prems in \<open>auto simp: fin_fields_def\<close>)
  from fin_fields_join [OF 1 this] show ?case using Cons.prems(3) by simp
qed (simp add: fin_fields_def)

lemma Finalise_fields:
  assumes "state_over G E K M SG s A" "distinct od"
  shows "fin_fields G de (set od) s (Finalise G od de s)"
proof -
  have "fin_fields G de (set od) s (foldl (finaliseAddr G de) s od)"
    using assms by (intro finalise_loop) (auto simp: state_over_def obj_fit_def)
  then show ?thesis by (simp add: Finalise_def clearJournalAndRefund_def fin_fields_def Let_def)
qed

lemma finalised_fit:
  assumes "obj_fit G E s a obj K mm sg" shows "obj_fit G E s a (finalised G de obj) K mm sg"
proof (cases "dies G de obj \<or> deleted obj")
  case True then show ?thesis using assms by (auto simp: finalised_def obj_fit_def obj_finalise_eq)
next
  case False
  then have "obj_over G E K s (obj_finalise obj) mm sg" using assms obj_finalised(1) by (auto simp: obj_fit_def)
  moreover have "obj_rooted G E s (obj_finalise obj)"
    using assms False trie_of_cong [of s s "obj_finalise obj" obj] by (auto simp: obj_rooted_def obj_fit_def obj_finalise_eq)
  ultimately show ?thesis using assms False by (auto simp: finalised_def obj_fit_def obj_finalise_eq)
qed

lemma Finalise_over:
  assumes "state_over G E K M SG s A" "distinct od" shows "state_over G E K M SG (Finalise G od de s) A"
proof -
  let ?s = "Finalise G od de s"
  note f = Finalise_fields [OF assms, of de]
  have "obj_fit G E ?s a obj (K a) (M a) (SG a)" if o: "stateObjects ?s a = Some obj" for a obj
  proof -
    obtain ob where ob: "stateObjects s a = Some ob" "obj = (if a \<in> set od then finalised G de ob else ob)"
      using o f by (auto simp: fin_fields_def split: if_splits)
    then have "obj_fit G E s a obj (K a) (M a) (SG a)" using assms(1) finalised_fit by (auto simp: state_over_def)
    then show ?thesis
    proof (rule obj_fit_state)
      show "a \<in> stateObjectsDestruct ?s \<longrightarrow> deleted obj \<or> a \<in> stateObjectsDestruct s"
        using ob f by (auto simp: fin_fields_def finalised_def)
    qed (use f in \<open>auto simp: fin_fields_def\<close>)
  qed
  moreover have "dom (stateObjects ?s) = dom (stateObjects s)" using f by (auto simp: fin_fields_def split: if_splits)
  ultimately show ?thesis using assms(1) f by (auto simp: state_over_def fin_fields_def)
qed

section \<open>The storage roots\<close>

text \<open>What \<open>updateRoot\<close> makes of an object: its pending slots are in the storage trie and its account names the root.\<close>

definition slots_rooted ::
    "geth \<Rightarrow> stateEnv \<Rightarrow> hash set \<Rightarrow> (bytes \<rightharpoonup> bytes) \<Rightarrow> (hash \<Rightarrow> hash) \<Rightarrow> cidObject \<Rightarrow> StateAccount \<Rightarrow> bool" where
  "slots_rooted G E K mm sg obj acc \<longleftrightarrow>
     (\<exists>mm' r. flush_on G E (dom (pendingStorage (obj_finalise obj))) (obj_finalise obj) mm mm' \<and> is_root G mm' r
        \<and> stands_for G K mm' (current obj sg) \<and> acc = (data obj)\<lparr>Root := r\<rparr>)"

lemma slots_rooted_det: "slots_rooted G E K mm sg obj a1 \<Longrightarrow> slots_rooted G E K mm sg obj a2 \<Longrightarrow> a1 = a2"
  unfolding slots_rooted_def by (metis flush_on_det is_root_det order_refl)

definition rooted_to ::
    "geth \<Rightarrow> stateEnv \<Rightarrow> hash set \<Rightarrow> (bytes \<rightharpoonup> bytes) \<Rightarrow> (hash \<Rightarrow> hash) \<Rightarrow> cidObject \<Rightarrow> cidObject \<Rightarrow> bool" where
  "rooted_to G E K mm sg obj obj' \<longleftrightarrow> address obj' = address obj \<and> deleted obj' = deleted obj
     \<and> (\<not> deleted obj \<longrightarrow> slots_rooted G E K mm sg obj (data obj') \<and> pendingStorage obj' = Map.empty \<and> dirtyStorage obj' = Map.empty)"

definition only_objects :: "cidDB \<Rightarrow> cidDB \<Rightarrow> bool" where
  "only_objects s s' \<longleftrightarrow> (\<exists>ob u d. s' = s\<lparr>stateObjects := ob, StorageUpdated := u, StorageDeleted := d\<rparr>)"

lemma only_objectsD:
  assumes "only_objects s s'"
  shows "originalRoot s' = originalRoot s" "snap s' = snap s" "stateObjectsDestruct s' = stateObjectsDestruct s"
    "db_trie s' = db_trie s" "dbErr s' = dbErr s" "stateObjectsPending s' = stateObjectsPending s"
  using assms by (auto simp: only_objects_def)

lemma only_objects_refl [simp]: "only_objects s s"
  unfolding only_objects_def by (intro exI [of _ "stateObjects s"] exI [of _ "StorageUpdated s"] exI [of _ "StorageDeleted s"]) simp

lemma only_objects_trans: "only_objects s s1 \<Longrightarrow> only_objects s1 s2 \<Longrightarrow> only_objects s s2"
  unfolding only_objects_def by (elim exE) (simp, blast)

lemma counts_only_objects: "counts_only s s' \<Longrightarrow> only_objects s (s'\<lparr>stateObjects := ob\<rparr>)"
proof -
  assume "counts_only s s'"
  then obtain u d where "s' = s\<lparr>StorageUpdated := u, StorageDeleted := d\<rparr>" by (auto simp: counts_only_def)
  then have "s'\<lparr>stateObjects := ob\<rparr> = s\<lparr>stateObjects := ob, StorageUpdated := u, StorageDeleted := d\<rparr>" by simp
  then show ?thesis unfolding only_objects_def by blast
qed

definition slot_order :: "address set \<Rightarrow> cidDB \<Rightarrow> (address \<Rightarrow> hash list) \<Rightarrow> bool" where
  "slot_order P s ords \<longleftrightarrow> (\<forall>a \<in> P. \<forall>obj. stateObjects s a = Some obj \<longrightarrow> \<not> deleted obj \<longrightarrow> range_of (ords a) (dom (pendingStorage (obj_finalise obj))))"

lemma updateRootOf_step:
  assumes "obj_fit G E s a obj K mm sg" "stateObjects s a = Some obj" "rlp G" "trim_law G E"
    "\<not> deleted obj \<longrightarrow> range_of (ords a) (dom (pendingStorage (obj_finalise obj)))"
  shows "\<exists>obj' s'. updateRootOf G E ords s a = okR s' \<and> only_objects s s' \<and> stateObjects s' = (stateObjects s)(a \<mapsto> obj')
    \<and> rooted_to G E K mm sg obj obj'"
proof (cases "deleted obj")
  case True
  then show ?thesis using assms(2)
    by (intro exI [of _ obj] exI [of _ s]) (auto simp: updateRootOf_def rooted_to_def)
next
  case False
  obtain obj' s' mm' r where u: "obj_updateRoot G E (ords a) s obj = okR (obj', s')" "counts_only s s'"
    "flush_on G E (dom (pendingStorage (obj_finalise obj))) (obj_finalise obj) mm mm'" "is_root G mm' r" "stands_for G K mm' (current obj sg)"
    "data obj' = (data obj)\<lparr>Root := r\<rparr>" "address obj' = address obj" "deleted obj' = deleted obj"
    "pendingStorage obj' = Map.empty" "dirtyStorage obj' = Map.empty"
    using root_updated [of G E K s obj mm sg "ords a"] assms False by (auto simp: obj_fit_def)
  have "rooted_to G E K mm sg obj obj'" using u unfolding rooted_to_def slots_rooted_def by blast
  moreover have "only_objects s (s'\<lparr>stateObjects := (stateObjects s')(a \<mapsto> obj')\<rparr>)" using u(2) by (rule counts_only_objects)
  ultimately show ?thesis using u(1,2) assms(2) False
    by (intro exI [of _ obj'] exI [of _ "s'\<lparr>stateObjects := (stateObjects s')(a \<mapsto> obj')\<rparr>"]) (auto simp: updateRootOf_def counts_only_def)
qed

lemma roots_updated:
  assumes "\<And>a. a \<in> set as \<Longrightarrow> \<exists>obj. stateObjects s a = Some obj \<and> obj_fit G E s a obj (K a) (M a) (SG a)"
    "distinct as" "slot_order (set as) s ords" "rlp G" "trim_law G E"
  shows "\<exists>s'. foldR (updateRootOf G E ords) s as = okR s' \<and> only_objects s s'
    \<and> (\<forall>a. a \<notin> set as \<longrightarrow> stateObjects s' a = stateObjects s a)
    \<and> (\<forall>a \<in> set as. \<exists>obj obj'. stateObjects s a = Some obj \<and> stateObjects s' a = Some obj' \<and> rooted_to G E (K a) (M a) (SG a) obj obj')"
  using assms(1-3)
proof (induction as arbitrary: s)
  case Nil then show ?case by simp
next
  case (Cons a as)
  obtain obj where o: "stateObjects s a = Some obj" "obj_fit G E s a obj (K a) (M a) (SG a)" using Cons.prems(1) by fastforce
  have "\<not> deleted obj \<longrightarrow> range_of (ords a) (dom (pendingStorage (obj_finalise obj)))" using Cons.prems(3) o(1) by (auto simp: slot_order_def)
  then obtain obj' s1 where s1: "updateRootOf G E ords s a = okR s1" "only_objects s s1" "stateObjects s1 = (stateObjects s)(a \<mapsto> obj')"
    "rooted_to G E (K a) (M a) (SG a) obj obj'" using updateRootOf_step [OF o(2,1) assms(4,5)] by blast
  have fit: "\<exists>ob. stateObjects s1 b = Some ob \<and> obj_fit G E s1 b ob (K b) (M b) (SG b)" if b: "b \<in> set as" for b
  proof -
    have "b \<noteq> a" using b Cons.prems(2) by auto
    moreover obtain ob where "stateObjects s b = Some ob" "obj_fit G E s b ob (K b) (M b) (SG b)" using Cons.prems(1) b by (meson list.set_intros(2))
    ultimately show ?thesis using s1(3) only_objectsD [OF s1(2)] by (auto intro: obj_fit_state)
  qed
  have "slot_order (set as) s1 ords" using Cons.prems(2,3) s1(3) by (auto simp: slot_order_def)
  from Cons.IH [OF fit _ this] Cons.prems(2) obtain s2 where s2: "foldR (updateRootOf G E ords) s1 as = okR s2" "only_objects s1 s2"
    "\<forall>a. a \<notin> set as \<longrightarrow> stateObjects s2 a = stateObjects s1 a"
    "\<forall>a \<in> set as. \<exists>obj obj'. stateObjects s1 a = Some obj \<and> stateObjects s2 a = Some obj' \<and> rooted_to G E (K a) (M a) (SG a) obj obj'"
    by auto
  show ?case
  proof (intro exI [of _ s2] conjI)
    show "\<forall>b \<in> set (a # as). \<exists>ob ob'. stateObjects s b = Some ob \<and> stateObjects s2 b = Some ob' \<and> rooted_to G E (K b) (M b) (SG b) ob ob'"
      using s1(3,4) s2(3,4) o(1) Cons.prems(2) by (auto split: if_splits)
  qed (use s1 s2 only_objects_trans in auto)
qed

section \<open>The account trie\<close>

definition acctKey :: "geth \<Rightarrow> address \<Rightarrow> bytes" where
  "acctKey G a = hashKey G (address_bytes a)"

text \<open>
  What is assumed of the account codec here: it encodes every account whose balance is not negative, to something. RLP refuses
  negative integers, and \<open>SubBalance\<close> does not check for them, so the properties ask for balances that are
  not negative in the accounts that are written.
\<close>

definition encodes :: "stateEnv \<Rightarrow> bool" where
  "encodes E \<longleftrightarrow> (\<forall>acc. 0 \<le> Balance acc \<longrightarrow> (\<exists>b. encodeAccount (codec E) acc = Inr b \<and> b \<noteq> []))"

definition solvent :: "cidDB \<Rightarrow> bool" where
  "solvent s \<longleftrightarrow> (\<forall>a \<in> stateObjectsPending s. \<forall>obj. stateObjects s a = Some obj \<longrightarrow> \<not> deleted obj \<longrightarrow> 0 \<le> Balance (data obj))"

definition leafOf :: "stateEnv \<Rightarrow> bool \<Rightarrow> StateAccount \<Rightarrow> bytes option" where
  "leafOf E del acc = (if del then None else case encodeAccount (codec E) acc of Inr b \<Rightarrow> Some b | Inl _ \<Rightarrow> None)"

definition only_trie :: "cidDB \<Rightarrow> cidDB \<Rightarrow> bool" where
  "only_trie s s' \<longleftrightarrow> (\<exists>t u d. s' = s\<lparr>db_trie := t, AccountUpdated := u, AccountDeleted := d\<rparr>)"

lemma only_trieD:
  assumes "only_trie s s'"
  shows "stateObjects s' = stateObjects s" "snap s' = snap s" "dbErr s' = dbErr s" "originalRoot s' = originalRoot s"
    "stateObjectsDestruct s' = stateObjectsDestruct s" "stateObjectsPending s' = stateObjectsPending s"
  using assms by (auto simp: only_trie_def)

lemma only_trie_refl [simp]: "only_trie s s"
  unfolding only_trie_def by (intro exI [of _ "db_trie s"] exI [of _ "AccountUpdated s"] exI [of _ "AccountDeleted s"]) simp

lemma only_trie_trans: "only_trie s s1 \<Longrightarrow> only_trie s1 s2 \<Longrightarrow> only_trie s s2"
  unfolding only_trie_def by (elim exE) (simp, blast)

lemma only_trieI: "only_trie s (s\<lparr>db_trie := t, AccountUpdated := u\<rparr>)" "only_trie s (s\<lparr>db_trie := t, AccountDeleted := d\<rparr>)"
proof -
  have "s\<lparr>db_trie := t, AccountUpdated := u\<rparr> = s\<lparr>db_trie := t, AccountUpdated := u, AccountDeleted := AccountDeleted s\<rparr>"
    "s\<lparr>db_trie := t, AccountDeleted := d\<rparr> = s\<lparr>db_trie := t, AccountUpdated := AccountUpdated s, AccountDeleted := d\<rparr>" by simp_all
  then show "only_trie s (s\<lparr>db_trie := t, AccountUpdated := u\<rparr>)" "only_trie s (s\<lparr>db_trie := t, AccountDeleted := d\<rparr>)"
    unfolding only_trie_def by blast+
qed

lemma writeBack_step:
  assumes "secured G (db_trie s) A" "stateObjects s a = Some obj" "address obj = a" "snap s = None" "encodes E" "\<not> deleted obj \<Longrightarrow> 0 \<le> Balance (data obj)"
  shows "\<exists>s'. writeBack G E s a = okR s' \<and> only_trie s s' \<and> secured G (db_trie s') (A(acctKey G a := leafOf E (deleted obj) (data obj)))"
proof (cases "deleted obj")
  case True
  obtain t where t: "StateTrie_TryDelete G (db_trie s) (address_bytes a) = okR (((), None), t)"
    "secured G t (A(acctKey G a := None))" using secured_delete [OF assms(1)] unfolding acctKey_def by blast
  have "TryDeleteAccount G (db_trie s) a = StateTrie_TryDelete G (db_trie s) (address_bytes a)"
    by (simp add: TryDeleteAccount_def StateTrie_TryDelete_def Let_def)
  then show ?thesis using True t assms(2,3)
    by (intro exI [of _ "s\<lparr>db_trie := t, AccountDeleted := AccountDeleted s + 1\<rparr>"])
      (simp add: writeBack_def deleteStateObject_def leafOf_def only_trieI)
next
  case False
  obtain b where b: "encodeAccount (codec E) (data obj) = Inr b" "b \<noteq> []" using assms(5,6) False by (auto simp: encodes_def)
  obtain t where t: "StateTrie_TryUpdate G (db_trie s) (address_bytes a) b = okR (((), None), t)"
    "secured G t (A(acctKey G a \<mapsto> b))" using secured_put [OF assms(1) b(2)] unfolding acctKey_def by blast
  then show ?thesis using False t assms(2-4) b(1)
    by (intro exI [of _ "s\<lparr>db_trie := t, AccountUpdated := AccountUpdated s + 1\<rparr>"])
      (simp add: writeBack_def updateStateObject_def leafOf_def only_trieI TryUpdateAccount_put [OF b(1)])
qed

lemma accounts_written:
  assumes "secured G (db_trie s) A" "snap s = None" "encodes E" "distinct as" "inj_on (acctKey G) (set as)"
    "\<And>a. a \<in> set as \<Longrightarrow> \<exists>obj. stateObjects s a = Some obj \<and> address obj = a \<and> (\<not> deleted obj \<longrightarrow> 0 \<le> Balance (data obj))"
  shows "\<exists>s' A'. foldR (writeBack G E) s as = okR s' \<and> only_trie s s' \<and> secured G (db_trie s') A'
    \<and> (\<forall>a \<in> set as. \<forall>obj. stateObjects s a = Some obj \<longrightarrow> A' (acctKey G a) = leafOf E (deleted obj) (data obj))
    \<and> (\<forall>b. b \<notin> acctKey G ` set as \<longrightarrow> A' b = A b)"
  using assms
proof (induction as arbitrary: s A)
  case Nil
  then show ?case by (intro exI [of _ s] exI [of _ A]) simp
next
  case (Cons a as)
  obtain obj where o: "stateObjects s a = Some obj" "address obj = a" "\<not> deleted obj \<Longrightarrow> 0 \<le> Balance (data obj)"
    using Cons.prems(6) by (meson list.set_intros(1))
  obtain s1 where s1: "writeBack G E s a = okR s1" "only_trie s s1"
    "secured G (db_trie s1) (A(acctKey G a := leafOf E (deleted obj) (data obj)))"
    using writeBack_step [OF Cons.prems(1) o(1,2) Cons.prems(2,3) o(3)] by blast
  note f = only_trieD [OF s1(2)]
  have "\<exists>obj. stateObjects s1 b = Some obj \<and> address obj = b \<and> (\<not> deleted obj \<longrightarrow> 0 \<le> Balance (data obj))" if "b \<in> set as" for b
    using Cons.prems(6) [of b] that f(1) by simp
  then obtain s2 A' where s2: "foldR (writeBack G E) s1 as = okR s2" "only_trie s1 s2" "secured G (db_trie s2) A'"
    "\<forall>a \<in> set as. \<forall>obj. stateObjects s1 a = Some obj \<longrightarrow> A' (acctKey G a) = leafOf E (deleted obj) (data obj)"
    "\<forall>b. b \<notin> acctKey G ` set as \<longrightarrow> A' b = (A(acctKey G a := leafOf E (deleted obj) (data obj))) b"
    using Cons.IH [OF s1(3) _ Cons.prems(3)] Cons.prems(2,4,5) f by auto
  have "acctKey G a \<notin> acctKey G ` set as" using Cons.prems(4,5) by auto
  then have "\<forall>c \<in> set (a # as). \<forall>ob. stateObjects s c = Some ob \<longrightarrow> A' (acctKey G c) = leafOf E (deleted ob) (data ob)"
    using s2(4,5) f(1) o(1) by auto
  moreover have "\<forall>b. b \<notin> acctKey G ` set (a # as) \<longrightarrow> A' b = A b" using s2(5) by auto
  ultimately show ?case using s1(1,2) s2(1-3) only_trie_trans by (intro exI [of _ s2] exI [of _ A']) auto
qed

section \<open>The root of the state\<close>

text \<open>The account trie \<open>A'\<close> that \<open>IntermediateRoot\<close> has to hash, for a state \<open>s\<close> that is already finalised.\<close>

definition accounts_after ::
    "geth \<Rightarrow> stateEnv \<Rightarrow> (address \<Rightarrow> hash set) \<Rightarrow> (address \<Rightarrow> bytes \<rightharpoonup> bytes) \<Rightarrow> (address \<Rightarrow> hash \<Rightarrow> hash) \<Rightarrow> cidDB
       \<Rightarrow> (bytes \<rightharpoonup> bytes) \<Rightarrow> (bytes \<rightharpoonup> bytes) \<Rightarrow> bool" where
  "accounts_after G E K M SG s A A' \<longleftrightarrow>
     (\<forall>a \<in> stateObjectsPending s. \<exists>obj. stateObjects s a = Some obj
        \<and> (if deleted obj then A' (acctKey G a) = None
           else \<exists>acc b. slots_rooted G E (K a) (M a) (SG a) obj acc \<and> encodeAccount (codec E) acc = Inr b \<and> A' (acctKey G a) = Some b))
     \<and> (\<forall>b. b \<notin> acctKey G ` stateObjectsPending s \<longrightarrow> A' b = A b)"

lemma accounts_after_det:
  assumes "accounts_after G E K M SG s A A1" "accounts_after G E K M SG s A A2" shows "A1 = A2"
proof
  fix b
  show "A1 b = A2 b"
  proof (cases "b \<in> acctKey G ` stateObjectsPending s")
    case True
    then obtain a where a: "a \<in> stateObjectsPending s" "b = acctKey G a" by blast
    then show ?thesis using assms slots_rooted_det unfolding accounts_after_def
      by (metis option.inject sum.inject(2))
  next
    case False then show ?thesis using assms by (simp add: accounts_after_def)
  qed
qed

lemma root_of_finalised:
  assumes over: "state_over G E K M SG s A" and laws: "rlp G" "trim_law G E" "encodes E" "inj_on (acctKey G) (stateObjectsPending s)" "solvent s"
    and orders: "range_of o1 (stateObjectsPending s)" "range_of o2 (stateObjectsPending s)" "slot_order (stateObjectsPending s) s ords"
  shows "\<exists>s1 s2 h tr A'. foldR (updateRootOf G E ords) s o1 = okR s1 \<and> foldR (writeBack G E) s1 o2 = okR s2
    \<and> StateTrie_Hash G (db_trie s2) = Inr (h, tr) \<and> secured G tr A' \<and> is_root G A' h \<and> dbErr s2 = dbErr s
    \<and> accounts_after G E K M SG s A A'"
proof -
  let ?P = "stateObjectsPending s"
  have o: "distinct o1" "set o1 = ?P" "distinct o2" "set o2 = ?P" using orders by auto
  have fit: "\<exists>obj. stateObjects s a = Some obj \<and> obj_fit G E s a obj (K a) (M a) (SG a)" if "a \<in> ?P" for a
    using over that by (auto simp: state_over_def)
  obtain s1 where s1: "foldR (updateRootOf G E ords) s o1 = okR s1" "only_objects s s1"
    "\<forall>a \<in> ?P. \<exists>obj obj'. stateObjects s a = Some obj \<and> stateObjects s1 a = Some obj' \<and> rooted_to G E (K a) (M a) (SG a) obj obj'"
    using roots_updated [of o1 s G E K M SG ords, OF _ o(1) _ laws(1,2)] fit orders(3) o(2) by auto
  note f1 = only_objectsD [OF s1(2)]
  have root: "Balance (data obj') = Balance (data obj)" if "slots_rooted G E K mm sg obj (data obj')" for K mm sg obj obj'
    using that by (auto simp: slots_rooted_def)
  have at: "\<exists>obj. stateObjects s1 a = Some obj \<and> address obj = a \<and> (\<not> deleted obj \<longrightarrow> 0 \<le> Balance (data obj))" if a: "a \<in> set o2" for a
  proof -
    obtain obj obj' where ob: "stateObjects s a = Some obj" "stateObjects s1 a = Some obj'" "rooted_to G E (K a) (M a) (SG a) obj obj'"
      using s1(3) a o(4) by blast
    then show ?thesis using fit [of a] laws(5) a o(4) root [of _ _ _ obj obj'] by (auto simp: rooted_to_def obj_fit_def solvent_def)
  qed
  obtain s2 A' where s2: "foldR (writeBack G E) s1 o2 = okR s2" "only_trie s1 s2" "secured G (db_trie s2) A'"
    "\<forall>a \<in> ?P. \<forall>obj. stateObjects s1 a = Some obj \<longrightarrow> A' (acctKey G a) = leafOf E (deleted obj) (data obj)"
    "\<forall>b. b \<notin> acctKey G ` ?P \<longrightarrow> A' b = A b"
    using accounts_written [of G s1 A E o2, OF _ _ laws(3) o(3) _ at] over laws(4) f1 o(4) by (auto simp: state_over_def)
  obtain tr where h: "StateTrie_Hash G (db_trie s2) = Inr (rootHash G (root (trie (db_trie s2))), tr)" "secured G tr A'"
    using secured_hash [OF s2(3)] by blast
  have "accounts_after G E K M SG s A A'"
    unfolding accounts_after_def
  proof (intro conjI ballI)
    fix a assume a: "a \<in> ?P"
    then obtain obj obj' where ob: "stateObjects s a = Some obj" "stateObjects s1 a = Some obj'" "rooted_to G E (K a) (M a) (SG a) obj obj'"
      using s1(3) by blast
    have "\<exists>b. encodeAccount (codec E) (data obj') = Inr b" if "\<not> deleted obj"
      using laws(3) at [of a] ob a o(4) that by (auto simp: encodes_def rooted_to_def)
    then show "\<exists>obj. stateObjects s a = Some obj
        \<and> (if deleted obj then A' (acctKey G a) = None
           else \<exists>acc b. slots_rooted G E (K a) (M a) (SG a) obj acc \<and> encodeAccount (codec E) acc = Inr b \<and> A' (acctKey G a) = Some b)"
      using ob s2(4) a by (auto simp: rooted_to_def leafOf_def) blast
  qed (use s2(5) in blast)
  moreover have "is_root G A' (rootHash G (root (trie (db_trie s2))))" using s2(3) by (auto simp: is_root_def)
  ultimately show ?thesis using s1(1) s2(1) h f1 only_trieD [OF s2(2)] by auto
qed

definition root_orders ::
    "geth \<Rightarrow> cidDB \<Rightarrow> bool \<Rightarrow> address list \<Rightarrow> address list \<Rightarrow> address list \<Rightarrow> (address \<Rightarrow> hash list) \<Rightarrow> bool" where
  "root_orders G s de od o1 o2 ords \<longleftrightarrow> range_of od (dom (dirties (journal s)))
     \<and> range_of o1 (stateObjectsPending (Finalise G od de s)) \<and> range_of o2 (stateObjectsPending (Finalise G od de s))
     \<and> slot_order (stateObjectsPending (Finalise G od de s)) (Finalise G od de s) ords"

lemma IntermediateRoot_spec:
  assumes "state_over G E K M SG s A" "root_orders G s de od o1 o2 ords" "rlp G" "trim_law G E" "encodes E"
    "inj_on (acctKey G) (stateObjectsPending (Finalise G od de s))" "solvent (Finalise G od de s)"
  shows "\<exists>h s' A'. IntermediateRoot G E od o1 o2 ords de s = okR (h, s') \<and> secured G (db_trie s') A' \<and> is_root G A' h
    \<and> accounts_after G E K M SG (Finalise G od de s) A A' \<and> stateObjectsPending s' = {} \<and> dbErr s' = dbErr s"
proof -
  let ?s = "Finalise G od de s"
  have od: "distinct od" "range_of o1 (stateObjectsPending ?s)" "range_of o2 (stateObjectsPending ?s)"
    "slot_order (stateObjectsPending ?s) ?s ords" using assms(2) by (auto simp: root_orders_def)
  obtain s1 s2 h tr A' where r: "foldR (updateRootOf G E ords) ?s o1 = okR s1" "foldR (writeBack G E) s1 o2 = okR s2"
    "StateTrie_Hash G (db_trie s2) = Inr (h, tr)" "secured G tr A'" "is_root G A' h" "dbErr s2 = dbErr ?s"
    "accounts_after G E K M SG ?s A A'"
    using root_of_finalised [OF Finalise_over [OF assms(1) od(1)] assms(3-7) od(2-4)] by metis
  moreover have "dbErr ?s = dbErr s" using Finalise_fields [OF assms(1) od(1)] by (simp add: fin_fields_def)
  ultimately show ?thesis
    by (intro exI [of _ h] exI [of _ "s2\<lparr>stateObjectsPending := {}, db_trie := tr\<rparr>"] exI [of _ A']) (simp add: IntermediateRoot_def)
qed

lemma fin_fields_det:
  assumes "fin_fields G de D s s1" "fin_fields G de D s s2"
  shows "stateObjects s1 = stateObjects s2" "stateObjectsPending s1 = stateObjectsPending s2"
  using assms by (simp_all add: fin_fields_def)

section \<open>Properties\<close>

text \<open>C5: On a state over sound tries, \<open>IntermediateRoot\<close> returns without panic or error, provided no account that is written back has a negative
  balance (RLP does not encode it). The account trie it leaves has, for
  every pending account, nothing if the account is deleted and otherwise the encoding of the account with the root of a storage
  trie that stands for the current storage of the account; all other leaves are as before. The hash returned is the root of
  that trie, and nothing is pending any more.\<close>

theorem IntermediateRoot_commits_state:
  assumes "state_over G E K M SG s A" "root_orders G s de od o1 o2 ords" "rlp G" "trim_law G E" "encodes E"
    "inj_on (acctKey G) (stateObjectsPending (Finalise G od de s))" "solvent (Finalise G od de s)"
  shows "\<exists>h s' A'. IntermediateRoot G E od o1 o2 ords de s = okR (h, s') \<and> secured G (db_trie s') A' \<and> is_root G A' h
    \<and> accounts_after G E K M SG (Finalise G od de s) A A' \<and> stateObjectsPending s' = {} \<and> dbErr s' = dbErr s"
  by (rule IntermediateRoot_spec [OF assms])

text \<open>C6: The root \<open>IntermediateRoot\<close> returns does not depend on the orders in which Go walks the dirty addresses, the pending
  addresses (twice) and the pending slots of each object, provided no account that is written back has a negative balance.\<close>

theorem IntermediateRoot_order_independent:
  assumes "state_over G E K M SG s A" "rlp G" "trim_law G E" "encodes E"
    "inj_on (acctKey G) (stateObjectsPending (Finalise G od de s))" "solvent (Finalise G od de s)"
    "root_orders G s de od o1 o2 ords" "root_orders G s de od' o1' o2' ords'"
  shows "\<exists>h s1 s2. IntermediateRoot G E od o1 o2 ords de s = okR (h, s1) \<and> IntermediateRoot G E od' o1' o2' ords' de s = okR (h, s2)"
proof -
  have "set od' = set od" "distinct od" "distinct od'" using assms(7,8) by (simp_all add: root_orders_def range_of_def)
  with Finalise_fields [OF assms(1)] have f: "fin_fields G de (set od) s (Finalise G od de s)" "fin_fields G de (set od) s (Finalise G od' de s)"
    by metis+
  note e = fin_fields_det [OF f]
  obtain h s1 A1 where 1: "IntermediateRoot G E od o1 o2 ords de s = okR (h, s1)" "is_root G A1 h"
    "accounts_after G E K M SG (Finalise G od de s) A A1" using IntermediateRoot_spec [OF assms(1,7,2-6)] by blast
  have "inj_on (acctKey G) (stateObjectsPending (Finalise G od' de s))" "solvent (Finalise G od' de s)"
    using assms(5,6) e by (simp_all add: solvent_def)
  then obtain h' s2 A2 where 2: "IntermediateRoot G E od' o1' o2' ords' de s = okR (h', s2)" "is_root G A2 h'"
    "accounts_after G E K M SG (Finalise G od' de s) A A2" using IntermediateRoot_spec [OF assms(1,8,2-4)] by blast
  have "accounts_after G E K M SG (Finalise G od de s) A A2" using 2(3) e by (simp add: accounts_after_def)
  then have "A2 = A1" using 1(3) by (metis accounts_after_det)
  then show ?thesis using 1(1,2) 2(1,2) is_root_det by blast
qed

text \<open>
  An account codec that writes what RLP does, and refuses a negative balance as RLP does; a state over the empty
  database in which slots of two accounts were written.
\<close>

definition trimmed :: "bytes \<Rightarrow> bytes" where
  "trimmed = dropWhile (\<lambda>b. b = 0)"

definition rlpCodec :: accountCodec where
  "rlpCodec =
     \<lparr>decodeAccount = (\<lambda>b.
        (let (c, _, e) = rlpSplitList ref_geth b; (n, c1, _) = rlpSplitString ref_geth c; (bal, c2, _) = rlpSplitString ref_geth c1;
             (rt, c3, _) = rlpSplitString ref_geth c2; (ch, _, _) = rlpSplitString ref_geth c3
         in (\<lparr>Nonce = word_of_nat (be_nat n), Balance = int (be_nat bal), Root = word_of_nat (be_nat rt), CodeHash = ch\<rparr>, e))),
      encodeAccount = (\<lambda>a.
        (if Balance a < 0 then Inl (Err ''rlp: cannot encode negative big.Int'')
         else Inr (ref_list (ref_string (trimmed (be_bytes 8 (unat (Nonce a)))) @ ref_string (trimmed (be_bytes 32 (nat (Balance a))))
                 @ ref_string (hash_bytes (Root a)) @ ref_string (CodeHash a)))))\<rparr>"

definition rlpEnv :: stateEnv where
  "rlpEnv = emptyEnv\<lparr>codec := rlpCodec\<rparr>"

lemma rlpEnv_facts: "trim_law ref_geth rlpEnv" "encodes rlpEnv"
  using trim_law_sample by (simp_all add: trim_law_def rlpEnv_def encodes_def rlpCodec_def ref_list_def rlp_header_def)

lemma rlpEnv_refuses: "Balance acc < 0 \<Longrightarrow> encodeAccount (codec rlpEnv) acc = Inl (Err ''rlp: cannot encode negative big.Int'')"
  by (simp add: rlpEnv_def rlpCodec_def)

definition writtenObject :: "address \<Rightarrow> cidObject" where
  "writtenObject a = (newObject ref_geth a emptyStateAccount)\<lparr>dirtyStorage := [1 \<mapsto> 7, 2 \<mapsto> 9]\<rparr>"

definition writtenState :: cidDB where
  "writtenState = emptyState\<lparr>stateObjects := [5 \<mapsto> writtenObject 5, 6 \<mapsto> writtenObject 6],
     journal := \<lparr>entries = [storageChange 5 1 0], dirties = [5 \<mapsto> 1, 6 \<mapsto> 1]\<rparr>\<rparr>"

lemma written_fit: "obj_fit ref_geth rlpEnv writtenState a (writtenObject a) UNIV Map.empty (\<lambda>_. 0)"
proof -
  have "obj_rooted ref_geth rlpEnv writtenState (writtenObject a)"
    by (simp add: obj_rooted_def trie_of_def writtenObject_def newObject_def rlpEnv_def emptyEnv_def blankStateTrie_def blankTrie_def emptyStateAccount_def rootHash_def)
  moreover have "obj_over ref_geth rlpEnv UNIV writtenState (writtenObject a) Map.empty (\<lambda>_. 0)"
    using sample_obj_over [of UNIV a]
    by (simp add: obj_over_def trie_of_def newObject_def rlpEnv_def emptyEnv_def emptyState_def stands_for_def slot_def writtenState_def writtenObject_def)
  ultimately show ?thesis by (simp add: obj_fit_def writtenObject_def newObject_def)
qed

lemma written_over: "state_over ref_geth rlpEnv (\<lambda>_. UNIV) (\<lambda>_. Map.empty) (\<lambda>_ _. 0) writtenState Map.empty"
  using written_fit [of 5] written_fit [of 6] blank_secured by (auto simp: state_over_def writtenState_def emptyState_def)

lemma written_finalised:
  assumes "distinct od" "set od = {5, 6}"
  shows "stateObjects (Finalise ref_geth od False writtenState) = [5 \<mapsto> obj_finalise (writtenObject 5), 6 \<mapsto> obj_finalise (writtenObject 6)]"
    "stateObjectsPending (Finalise ref_geth od False writtenState) = {5, 6}"
  using Finalise_fields [OF written_over assms(1), of False] assms(2)
  by (auto simp: fin_fields_def writtenState_def emptyState_def finalised_def dies_def writtenObject_def newObject_def fun_eq_iff)

lemma written_orders:
  assumes "distinct od" "set od = {5, 6}" "distinct o1" "set o1 = {5, 6}" "distinct o2" "set o2 = {5, 6}" "distinct sl" "set sl = {1, 2}"
  shows "root_orders ref_geth writtenState False od o1 o2 (\<lambda>_. sl)"
proof -
  have d: "dom (dirties (journal writtenState)) = {5, 6}" by (auto simp: writtenState_def)
  have "dom (pendingStorage (obj_finalise (obj_finalise (writtenObject a)))) = {1, 2}" for a
    by (auto simp: obj_finalise_eq writtenObject_def newObject_def)
  then have "slot_order {5, 6} (Finalise ref_geth od False writtenState) (\<lambda>_. sl)"
    using assms(7,8) by (simp add: slot_order_def written_finalised(1) [OF assms(1,2)] range_of_def)
  then show ?thesis using assms by (simp add: root_orders_def written_finalised(2) [OF assms(1,2)] range_of_def d)
qed

lemma written_inj: "inj_on (acctKey ref_geth) A"
proof (rule inj_onI)
  fix x y assume "acctKey ref_geth x = acctKey ref_geth y"
  moreover have "address_bytes z \<noteq> []" for z by (metis length_address_bytes list.size(3) zero_neq_numeral)
  ultimately have w: "(word_of_nat (unat x) :: hash) = word_of_nat (unat y)" by (simp add: acctKey_def hashKey_def ref_geth_def)
  have "unat z < 2 ^ LENGTH(256)" for z :: address
    using unsigned_less [of z, where 'a = nat] by (simp add: order.strict_trans2)
  moreover have "n < 2 ^ LENGTH(256) \<Longrightarrow> unat (word_of_nat n :: hash) = n" for n by (simp add: unat_of_nat)
  ultimately have "unat (word_of_nat (unat z) :: hash) = unat z" for z :: address by blast
  then show "x = y" using w by (metis word_unat_eq_iff)
qed

lemma written_solvent: "distinct od \<Longrightarrow> set od = {5, 6} \<Longrightarrow> solvent (Finalise ref_geth od False writtenState)"
  by (auto simp: solvent_def written_finalised writtenObject_def newObject_def obj_finalise_eq emptyStateAccount_def split: if_splits)

theorem IntermediateRoot_commits_state_witness:
  "\<exists>h s' A'. IntermediateRoot ref_geth rlpEnv [5, 6] [6, 5] [5, 6] (\<lambda>_. [1, 2]) False writtenState = okR (h, s')
     \<and> secured ref_geth (db_trie s') A' \<and> is_root ref_geth A' h"
  using IntermediateRoot_commits_state [OF written_over written_orders ref.rlp_axioms rlpEnv_facts written_inj written_solvent,
      of "[5, 6]" "[6, 5]" "[5, 6]" "[1, 2]"] by auto

theorem IntermediateRoot_order_independent_witness:
  "\<exists>h s1 s2. IntermediateRoot ref_geth rlpEnv [5, 6] [6, 5] [5, 6] (\<lambda>_. [1, 2]) False writtenState = okR (h, s1)
     \<and> IntermediateRoot ref_geth rlpEnv [6, 5] [5, 6] [6, 5] (\<lambda>_. [2, 1]) False writtenState = okR (h, s2)"
  by (rule IntermediateRoot_order_independent [OF written_over ref.rlp_axioms rlpEnv_facts written_inj written_solvent written_orders written_orders])
    auto

end
