(* ===== verification/TrieDatabase.thy ===== *)
theory TrieDatabase
  imports SecureTrie Ipld
begin

text \<open>
  The node database of the trie package, \<open>trie_by_cid/trie/database.go\<close>, with the cached nodes of \<open>database_node.go\<close>: committed
  nodes are kept in memory (\<open>dirties\<close>), linked in a list in the order of their insertion, with counted references from
  parents and from accounts to storage roots; everything else is read from the block store by CID, through a cache of
  clean nodes. Nodes are never written to disk in this repository. The block store and the eviction policy of the cache
  are parameters (\<open>blockStore\<close>); the entry under the zero hash is the meta root. \<open>StorageSize\<close> is a \<open>float64\<close> that only
  holds integers here and is an \<open>int\<close>. Metrics, logs and timings are left out, and the lock makes every call atomic.
\<close>

section \<open>Cached nodes\<close>

record cachedNode =
  cn_node :: node
  cn_size :: "16 word"
  cn_parents :: "32 word"
  cn_children :: "(hash \<rightharpoonup> 16 word) option"
  flushPrev :: hash
  flushNext :: hash

definition cachedNodeChildrenSize :: int where
  "cachedNodeChildrenSize = 48"

definition cachedNode_rlp :: "geth \<Rightarrow> cachedNode \<Rightarrow> bytes" where
  "cachedNode_rlp G n = (case cn_node n of rawNode b \<Rightarrow> b | nd \<Rightarrow> nodeToBytes G nd)"

definition cachedNode_obj :: "geth \<Rightarrow> cachedNode \<Rightarrow> hash \<Rightarrow> panic + node" where
  "cachedNode_obj G n h =
     (case cn_node n of
        rawNode b \<Rightarrow> mustDecodeNode G (Some (hash_bytes h)) b
      | nd \<Rightarrow> expandNode (Some (hash_bytes h)) nd)"

text \<open>The hashes \<open>forChilds\<close> passes to its callback; \<open>order\<close> is the order in which the external children are visited.\<close>

definition forChilds :: "geth \<Rightarrow> hash list \<Rightarrow> cachedNode \<Rightarrow> panic + hash list" where
  "forChilds G order n =
     (case cn_node n of
        rawNode _ \<Rightarrow> Inr order
      | nd \<Rightarrow> (case forGatherChildren G nd of Inl p \<Rightarrow> Inl p | Inr hs \<Rightarrow> Inr (order @ hs)))"

section \<open>The database\<close>

record blockStore = ipld +
  diskGet :: "bytes \<Rightarrow> bytes \<times> goerr option"
  keepClean :: "(hash \<rightharpoonup> bytes) \<Rightarrow> hash set"

record nodeDB =
  cleans :: "(hash \<rightharpoonup> bytes) option"
  db_dirties :: "hash \<rightharpoonup> cachedNode"
  oldest :: hash
  newest :: hash
  gcnodes :: u64
  gcsize :: int
  dirtiesSize :: int
  childrenSize :: int
  db_preimages :: "preimageStore option"

record Config =
  cfg_Cache :: int
  cfg_Journal :: string
  cfg_Preimages :: bool

definition metaRoot :: cachedNode where
  "metaRoot = \<lparr>cn_node = nilNode, cn_size = 0, cn_parents = 0, cn_children = Some Map.empty, flushPrev = 0, flushNext = 0\<rparr>"

text \<open>\<open>loadFile\<close> is what \<open>fastcache\<close> finds in the file of the journal, nothing if there is none.\<close>

definition NewDatabaseWithConfig ::
    "(string \<Rightarrow> hash \<rightharpoonup> bytes) \<Rightarrow> (hash \<Rightarrow> bytes option) \<Rightarrow> Config option \<Rightarrow> nodeDB" where
  "NewDatabaseWithConfig loadFile preimageDisk config =
     \<lparr>cleans = (case config of
                  None \<Rightarrow> None
                | Some c \<Rightarrow> (if cfg_Cache c > 0
                             then (if cfg_Journal c = '''' then Some Map.empty else Some (loadFile (cfg_Journal c)))
                             else None)),
      db_dirties = [0 \<mapsto> metaRoot], oldest = 0, newest = 0, gcnodes = 0, gcsize = 0, dirtiesSize = 0, childrenSize = 0,
      db_preimages = (case config of None \<Rightarrow> None
                      | Some c \<Rightarrow> if cfg_Preimages c then Some (newPreimageStore preimageDisk) else None)\<rparr>"

definition NewDatabase :: "(string \<Rightarrow> hash \<rightharpoonup> bytes) \<Rightarrow> (hash \<Rightarrow> bytes option) \<Rightarrow> nodeDB" where
  "NewDatabase loadFile preimageDisk = NewDatabaseWithConfig loadFile preimageDisk None"

text \<open>Change an entry in place; writing through a missing entry is a nil dereference.\<close>

definition changeNode :: "nodeDB \<Rightarrow> hash \<Rightarrow> (cachedNode \<Rightarrow> cachedNode) \<Rightarrow> panic + nodeDB" where
  "changeNode db h f =
     (case db_dirties db h of None \<Rightarrow> Inl NilDereference | Some e \<Rightarrow> Inr (db\<lparr>db_dirties := (db_dirties db)(h \<mapsto> f e)\<rparr>))"

definition addParent :: "nodeDB \<Rightarrow> hash \<Rightarrow> nodeDB" where
  "addParent db child =
     (case db_dirties db child of
        None \<Rightarrow> db
      | Some c \<Rightarrow> db\<lparr>db_dirties := (db_dirties db)(child \<mapsto> c\<lparr>cn_parents := cn_parents c + 1\<rparr>)\<rparr>)"

text \<open>The size is added at the width of the entry's size, sixteen bits.\<close>

definition insertNode :: "geth \<Rightarrow> nodeDB \<Rightarrow> hash \<Rightarrow> int \<Rightarrow> node \<Rightarrow> panic + nodeDB" where
  "insertNode G db h sz n =
     (if db_dirties db h \<noteq> None then Inr db
      else let entry = \<lparr>cn_node = n, cn_size = word_of_int sz, cn_parents = 0, cn_children = None,
                        flushPrev = newest db, flushNext = 0\<rparr>
           in case forChilds G [] entry of
                Inl p \<Rightarrow> Inl p
              | Inr hs \<Rightarrow>
                  (let db1 = foldl addParent db hs;
                       db2 = db1\<lparr>db_dirties := (db_dirties db1)(h \<mapsto> entry)\<rparr>
                   in case (if oldest db2 = 0 then Inr (db2\<lparr>oldest := h, newest := h\<rparr>)
                            else (case changeNode db2 (newest db2) (\<lambda>e. e\<lparr>flushNext := h\<rparr>) of
                                    Inl p \<Rightarrow> Inl p | Inr db3 \<Rightarrow> Inr (db3\<lparr>newest := h\<rparr>))) of
                        Inl p \<Rightarrow> Inl p
                      | Inr db4 \<Rightarrow> Inr (db4\<lparr>dirtiesSize := dirtiesSize db4 + uint (32 + cn_size entry)\<rparr>)))"

definition notFound :: goerr where
  "notFound = Err ''not found''"

text \<open>\<open>db.Node\<close>; no blob is the empty one.\<close>

definition Node :: "geth \<Rightarrow> 'z blockStore_scheme \<Rightarrow> nodeDB \<Rightarrow> hash \<Rightarrow> u64 \<Rightarrow> (bytes \<times> goerr option) \<times> nodeDB" where
  "Node G P db h codec =
     (if h = 0 then (([], Some notFound), db)
      else
        (case Option.bind (cleans db) (\<lambda>c. c h) of
           Some enc \<Rightarrow> ((enc, None), db)
         | None \<Rightarrow>
        (case db_dirties db h of
           Some nd \<Rightarrow> ((cachedNode_rlp G nd, None), db)
         | None \<Rightarrow>
        (case Keccak256ToCid P codec (hash_bytes h) of
           Inl e \<Rightarrow> (([], Some e), db)
         | Inr c \<Rightarrow>
             (case diskGet P c of
                (_, Some e) \<Rightarrow> (([], Some e), db)
              | (enc, None) \<Rightarrow>
                  (if length enc \<noteq> 0
                   then ((enc, None),
                         case cleans db of
                           None \<Rightarrow> db
                         | Some cs \<Rightarrow> (let cs' = cs(h \<mapsto> enc) in db\<lparr>cleans := Some (cs' |` keepClean P cs')\<rparr>))
                   else (([], Some notFound), db)))))))"

text \<open>\<open>order\<close> is the order in which \<open>dirties\<close> is visited.\<close>

definition Nodes :: "hash list \<Rightarrow> hash list" where
  "Nodes order = filter (\<lambda>h. h \<noteq> 0) order"

section \<open>References\<close>

definition countUp :: "(hash \<rightharpoonup> 16 word) \<Rightarrow> hash \<Rightarrow> 16 word" where
  "countUp m h = (case m h of None \<Rightarrow> 0 | Some c \<Rightarrow> c) + 1"

definition openChildren :: "nodeDB \<Rightarrow> hash \<Rightarrow> cachedNode \<Rightarrow> nodeDB" where
  "openChildren db parent par =
     (case cn_children par of
        Some _ \<Rightarrow> db
      | None \<Rightarrow> db\<lparr>db_dirties := (db_dirties db)(parent \<mapsto> par\<lparr>cn_children := Some Map.empty\<rparr>),
                   childrenSize := childrenSize db + cachedNodeChildrenSize\<rparr>)"

definition reference :: "nodeDB \<Rightarrow> hash \<Rightarrow> hash \<Rightarrow> panic + nodeDB" where
  "reference db child parent =
     (case db_dirties db child of
        None \<Rightarrow> Inr db
      | Some _ \<Rightarrow>
     (case db_dirties db parent of
        None \<Rightarrow> Inl NilDereference
      | Some par \<Rightarrow>
          (if (case cn_children par of None \<Rightarrow> False | Some m \<Rightarrow> m child \<noteq> None) \<and> parent \<noteq> 0 then Inr db
           else
             (let db2 = addParent (openChildren db parent par) child;
                  m = (case cn_children par of None \<Rightarrow> Map.empty | Some m \<Rightarrow> m)
              in case changeNode db2 parent (\<lambda>e. e\<lparr>cn_children := Some (m(child \<mapsto> countUp m child))\<rparr>) of
                   Inl p \<Rightarrow> Inl p
                 | Inr db3 \<Rightarrow> Inr (if countUp m child = 1 then db3\<lparr>childrenSize := childrenSize db3 + 34\<rparr> else db3)))))"

definition Reference :: "nodeDB \<Rightarrow> hash \<Rightarrow> hash \<Rightarrow> panic + nodeDB" where
  "Reference db child parent = reference db child parent"

text \<open>The first step of \<open>dereference\<close>: one reference less from the parent.\<close>

definition dropChild :: "nodeDB \<Rightarrow> hash \<Rightarrow> hash \<Rightarrow> panic + nodeDB" where
  "dropChild db child parent =
     (case db_dirties db parent of
        None \<Rightarrow> Inl NilDereference
      | Some par \<Rightarrow>
          (case cn_children par of
             None \<Rightarrow> Inr db
           | Some m \<Rightarrow>
               (case m child of
                  None \<Rightarrow> Inr db
                | Some c \<Rightarrow>
                    (if c = 0 then Inr db
                     else let m' = (if c - 1 = 0 then m(child := None) else m(child \<mapsto> c - 1))
                          in Inr (db\<lparr>db_dirties := (db_dirties db)(parent \<mapsto> par\<lparr>cn_children := Some m'\<rparr>),
                                     childrenSize := (if c - 1 = 0 then childrenSize db - 34 else childrenSize db)\<rparr>)))))"

text \<open>Removal from the flush list.\<close>

definition unlinkNode :: "nodeDB \<Rightarrow> hash \<Rightarrow> cachedNode \<Rightarrow> panic + nodeDB" where
  "unlinkNode db child n =
     (if child = oldest db
      then changeNode (db\<lparr>oldest := flushNext n\<rparr>) (flushNext n) (\<lambda>e. e\<lparr>flushPrev := 0\<rparr>)
      else if child = newest db
      then changeNode (db\<lparr>newest := flushPrev n\<rparr>) (flushPrev n) (\<lambda>e. e\<lparr>flushNext := 0\<rparr>)
      else (case changeNode db (flushPrev n) (\<lambda>e. e\<lparr>flushNext := flushNext n\<rparr>) of
              Inl p \<Rightarrow> Inl p
            | Inr db1 \<Rightarrow> changeNode db1 (flushNext n) (\<lambda>e. e\<lparr>flushPrev := flushPrev n\<rparr>)))"

definition deleteNode :: "nodeDB \<Rightarrow> hash \<Rightarrow> cachedNode \<Rightarrow> nodeDB" where
  "deleteNode db child n =
     (let db1 = db\<lparr>db_dirties := (db_dirties db)(child := None), dirtiesSize := dirtiesSize db - (32 + uint (cn_size n))\<rparr>
      in if cn_children n \<noteq> None then db1\<lparr>childrenSize := childrenSize db1 - cachedNodeChildrenSize\<rparr> else db1)"

text \<open>
  \<open>dereference\<close> cascades along the children, which in a store with a circle of references need not end. \<open>ords h\<close> is
  the order in which the external children of the node \<open>h\<close> are visited.
\<close>

partial_function (option) dereference :: "geth \<Rightarrow> (hash \<Rightarrow> hash list) \<Rightarrow> nodeDB \<Rightarrow> hash \<Rightarrow> hash \<Rightarrow> nodeDB res" where
  "dereference G ords db child parent =
     bindR (Some (dropChild db child parent)) (\<lambda>db1.
       case db_dirties db1 child of
         None \<Rightarrow> okR db1
       | Some n0 \<Rightarrow>
           (let n = (if cn_parents n0 > 0 then n0\<lparr>cn_parents := cn_parents n0 - 1\<rparr> else n0);
                db2 = db1\<lparr>db_dirties := (db_dirties db1)(child \<mapsto> n)\<rparr>
            in if cn_parents n \<noteq> 0 then okR db2
               else bindR (Some (unlinkNode db2 child n)) (\<lambda>db3.
                    bindR (Some (forChilds G (ords child) n)) (\<lambda>hs.
                    bindR (foldR (\<lambda>db h. dereference G ords db h child) db3 hs) (\<lambda>db4.
                      okR (deleteNode db4 child n))))))"

text \<open>Entries are counted for \<open>gcnodes\<close>; dereferencing the meta root is refused.\<close>

definition Dereference :: "geth \<Rightarrow> (hash \<Rightarrow> hash list) \<Rightarrow> nodeDB \<Rightarrow> hash \<Rightarrow> nodeDB res" where
  "Dereference G ords db h =
     (if h = 0 then okR db
      else bindR (dereference G ords db h 0) (\<lambda>db1.
        okR (db1\<lparr>gcnodes := gcnodes db1 + word_of_int (int (card (dom (db_dirties db))) - int (card (dom (db_dirties db1)))),
                 gcsize := gcsize db1 + (dirtiesSize db - dirtiesSize db1)\<rparr>)))"

section \<open>Update\<close>

definition insertMemoryNode :: "geth \<Rightarrow> panic + nodeDB \<Rightarrow> bytes \<Rightarrow> memoryNode \<Rightarrow> panic + nodeDB" where
  "insertMemoryNode G r path n =
     (case r of Inl p \<Rightarrow> Inl p
      | Inr db \<Rightarrow> (if isDeleted n then Inr db else insertNode G db (mn_hash n) (uint (mn_size n)) (mn_node n)))"

definition insertSet :: "geth \<Rightarrow> (hash \<Rightarrow> bytes list) \<Rightarrow> MergedNodeSet \<Rightarrow> nodeDB \<Rightarrow> hash \<Rightarrow> panic + nodeDB" where
  "insertSet G paths nodes db own =
     (case nodes own of None \<Rightarrow> Inr db | Some S \<Rightarrow> forEachWithOrder S (paths own) (insertMemoryNode G) (Inr db))"

fun linkLeaves :: "geth \<Rightarrow> accountCodec \<Rightarrow> nodeDB \<Rightarrow> leaf list \<Rightarrow> panic + (goerr option \<times> nodeDB)" where
  "linkLeaves G C db [] = Inr (None, db)"
| "linkLeaves G C db (l # ls) =
     (case decodeAccount C (leaf_blob l) of
        (_, Some e) \<Rightarrow> Inr (Some e, db)
      | (acc, None) \<Rightarrow>
          (if Root acc \<noteq> EmptyRootHash G
           then (case reference db (Root acc) (leaf_parent l) of Inl p \<Rightarrow> Inl p | Inr db1 \<Rightarrow> linkLeaves G C db1 ls)
           else linkLeaves G C db ls))"

text \<open>\<open>owners\<close> is the order in which the sets are visited, \<open>paths\<close> that of the nodes of each; storage tries go first.\<close>

definition Update ::
    "geth \<Rightarrow> accountCodec \<Rightarrow> hash list \<Rightarrow> (hash \<Rightarrow> bytes list) \<Rightarrow> nodeDB \<Rightarrow> MergedNodeSet \<Rightarrow> panic + (goerr option \<times> nodeDB)" where
  "Update G C owners paths db nodes =
     (let order = filter (\<lambda>h. h \<noteq> 0) owners @ (if nodes 0 \<noteq> None then [0] else [])
      in case foldE (insertSet G paths nodes) db order of
           Inl p \<Rightarrow> Inl p
         | Inr db1 \<Rightarrow> (case nodes 0 of None \<Rightarrow> Inr (None, db1) | Some S \<Rightarrow> linkLeaves G C db1 (ns_leaves S)))"

text \<open>\<open>cachedNodeSize\<close>, the size of the Go struct, is an argument.\<close>

definition db_Size :: "int \<Rightarrow> nodeDB \<Rightarrow> int \<times> int" where
  "db_Size cachedNodeSize db =
     (let metadataSize = (int (card (dom (db_dirties db))) - 1) * cachedNodeSize;
          metarootRefs = (case db_dirties db 0 of None \<Rightarrow> 0
                          | Some e \<Rightarrow> (case cn_children e of None \<Rightarrow> 0 | Some m \<Rightarrow> int (card (dom m)) * 34))
      in (dirtiesSize db + childrenSize db + metadataSize - metarootRefs,
          case db_preimages db of None \<Rightarrow> 0 | Some st \<Rightarrow> preimageStore_size st))"

section \<open>Readers\<close>

text \<open>
  A reader shares the database. Reading changes only the clean cache, which cannot be observed
  (\<open>Node_clean\<close> in \<open>NodeStore\<close>), so a reader is what \<open>Node\<close> answers.
\<close>

definition hashReader_NodeBlob :: "geth \<Rightarrow> 'z blockStore_scheme \<Rightarrow> nodeDB \<Rightarrow> u64 \<Rightarrow> nodeStore" where
  "hashReader_NodeBlob G P db codec own path h = fst (Node G P db h codec)"

definition GetReader :: "geth \<Rightarrow> 'z blockStore_scheme \<Rightarrow> nodeDB \<Rightarrow> hash \<Rightarrow> u64 \<Rightarrow> nodeStore option" where
  "GetReader G P db stateRoot codec = Some (hashReader_NodeBlob G P db codec)"

definition hashReader_Node :: "geth \<Rightarrow> 'z blockStore_scheme \<Rightarrow> nodeDB \<Rightarrow> u64 \<Rightarrow> hash \<Rightarrow> (goerr + decErr) + node" where
  "hashReader_Node G P db codec h =
     (case hashReader_NodeBlob G P db codec 0 [] h of
        (_, Some e) \<Rightarrow> Inl (Inl e)
      | (blob, None) \<Rightarrow> (case decodeNode G (Some (hash_bytes h)) blob of Inl e \<Rightarrow> Inl (Inr e) | Inr n \<Rightarrow> Inr n))"

end
