(* ===== verification/NodeStoreInv.thy ===== *)
theory NodeStoreInv
  imports TrieDatabase
begin

text \<open>
  The invariant of the node database: the dirty nodes, the meta root apart, form a doubly linked list from \<open>oldest\<close> to
  \<open>newest\<close>, and \<open>dirtiesSize\<close> is the sum of their sizes. Insertion appends to the list; references do not touch it;
  dereferencing unlinks. Under the invariant no operation meets a nil pointer, and a dereference ends when the references
  among the nodes have no circle.
\<close>

section \<open>Shape\<close>

text \<open>What references do not change: the nodes, their sizes and their links.\<close>

definition shape :: "nodeDB \<Rightarrow> hash \<rightharpoonup> node \<times> 16 word \<times> hash \<times> hash" where
  "shape db h = map_option (\<lambda>e. (cn_node e, cn_size e, flushPrev e, flushNext e)) (db_dirties db h)"

definition prv :: "nodeDB \<Rightarrow> hash \<Rightarrow> hash" where
  "prv db h = (case db_dirties db h of None \<Rightarrow> 0 | Some e \<Rightarrow> flushPrev e)"

definition nxt :: "nodeDB \<Rightarrow> hash \<Rightarrow> hash" where
  "nxt db h = (case db_dirties db h of None \<Rightarrow> 0 | Some e \<Rightarrow> flushNext e)"

definition nodes_of :: "nodeDB \<Rightarrow> hash \<rightharpoonup> node \<times> 16 word" where
  "nodes_of db h = map_option (\<lambda>e. (cn_node e, cn_size e)) (db_dirties db h)"

definition same_shape :: "nodeDB \<Rightarrow> nodeDB \<Rightarrow> bool" where
  "same_shape db db' \<longleftrightarrow> shape db' = shape db \<and> oldest db' = oldest db \<and> newest db' = newest db
     \<and> cleans db' = cleans db \<and> dirtiesSize db' = dirtiesSize db"

lemma same_shape_refl [simp]: "same_shape db db"
  by (simp add: same_shape_def)

lemma same_shape_trans: "same_shape a b \<Longrightarrow> same_shape b c \<Longrightarrow> same_shape a c"
  by (simp add: same_shape_def)

lemma of_shape:
  "dom (db_dirties db) = dom (shape db)" "nxt db h = (case shape db h of None \<Rightarrow> 0 | Some (_, _, _, x) \<Rightarrow> x)"
  "prv db h = (case shape db h of None \<Rightarrow> 0 | Some (_, _, x, _) \<Rightarrow> x)" "nodes_of db h = map_option (\<lambda>(n, z, _, _). (n, z)) (shape db h)"
  by (auto simp: shape_def nxt_def prv_def nodes_of_def option.map_comp comp_def split: option.split)

lemma shapeD:
  assumes "shape db' = shape db"
  shows "dom (db_dirties db') = dom (db_dirties db)" "nxt db' = nxt db" "prv db' = prv db" "nodes_of db' = nodes_of db"
  using assms by (simp_all add: of_shape(1) ext of_shape(2-4))

lemma dom_nodes [simp]: "dom (nodes_of db) = dom (db_dirties db)"
  by (auto simp: nodes_of_def)

section \<open>The flush list\<close>

abbreviation chain :: "nodeDB \<Rightarrow> hash list \<Rightarrow> bool" where
  "chain db \<equiv> successively (\<lambda>x y. nxt db x = y \<and> prv db y = x)"

definition links :: "nodeDB \<Rightarrow> hash list \<Rightarrow> bool" where
  "links db xs \<longleftrightarrow> chain db xs \<and> (xs \<noteq> [] \<longrightarrow> nxt db (last xs) = 0)"

text \<open>\<open>U\<close> are the nodes that are unlinked already and wait for their children to be dereferenced.\<close>

definition flush_list :: "hash set \<Rightarrow> nodeDB \<Rightarrow> hash list \<Rightarrow> bool" where
  "flush_list U db xs \<longleftrightarrow> distinct xs \<and> 0 \<notin> set xs \<and> 0 \<notin> U \<and> set xs \<inter> U = {} \<and> finite U
     \<and> dom (db_dirties db) = insert 0 (set xs \<union> U) \<and> links db xs
     \<and> (if xs = [] then oldest db = 0 else oldest db = hd xs \<and> newest db = last xs)"

definition sized :: "nodeDB \<Rightarrow> bool" where
  "sized db \<longleftrightarrow> dirtiesSize db = (\<Sum>h \<in> dom (nodes_of db) - {0}. 32 + uint (snd (the (nodes_of db h))))"

text \<open>A chain does not depend on the successor of its last node, nor on the predecessor of its first.\<close>

lemma chain_cong:
  assumes "chain db xs" "distinct xs" "\<And>x. x \<in> set xs \<Longrightarrow> x \<noteq> last xs \<Longrightarrow> nxt db' x = nxt db x"
    "\<And>x. x \<in> set (tl xs) \<Longrightarrow> prv db' x = prv db x"
  shows "chain db' xs"
  using assms
proof (induction xs rule: induct_list012)
  case (3 x y zs)
  have "last (y # zs) \<in> set (y # zs)" by (rule last_in_set) simp
  then have "x \<noteq> last (x # y # zs)" using 3(4) by auto
  then have "nxt db' x = nxt db x" "prv db' y = prv db y" using 3(5) [of x] 3(6) [of y] by simp_all
  moreover have "chain db' (y # zs)"
  proof (rule 3(2))
    show "prv db' z = prv db z" if "z \<in> set (tl (y # zs))" for z using 3(6) that by simp
    show "nxt db' z = nxt db z" if "z \<in> set (y # zs)" "z \<noteq> last (y # zs)" for z using 3(5) that by simp
  qed (use 3(3,4) in auto)
  ultimately show ?case using 3(3) by simp
qed auto

lemma links_cong:
  assumes "links db xs" "distinct xs" "\<And>x. x \<in> set xs \<Longrightarrow> nxt db' x = nxt db x" "\<And>x. x \<in> set (tl xs) \<Longrightarrow> prv db' x = prv db x"
  shows "links db' xs"
  using assms chain_cong [of db xs db'] by (auto simp: links_def)

lemma flush_list_shape: "same_shape db db' \<Longrightarrow> flush_list U db' xs = flush_list U db xs"
  using shapeD [of db' db] by (simp add: flush_list_def same_shape_def links_def)

lemma sized_shape: "same_shape db db' \<Longrightarrow> sized db' = sized db"
  using shapeD [of db' db] by (simp add: sized_def same_shape_def)

section \<open>References keep the shape\<close>

lemma addParent_shape: "same_shape db (addParent db c)"
  by (auto simp: addParent_def same_shape_def shape_def fun_eq_iff split: option.split)

lemma addParents_shape: "same_shape db (foldl addParent db hs)"
  by (induction hs arbitrary: db) (auto intro: same_shape_trans addParent_shape)

lemma children_shape:
  assumes "db_dirties db h = Some e"
  shows "same_shape db (db\<lparr>db_dirties := (db_dirties db)(h \<mapsto> e\<lparr>cn_children := m\<rparr>), childrenSize := n\<rparr>)"
    "same_shape db (db\<lparr>db_dirties := (db_dirties db)(h \<mapsto> e\<lparr>cn_children := m\<rparr>)\<rparr>)"
  using assms by (simp_all add: same_shape_def shape_def fun_eq_iff)

lemma dropChild_ok:
  assumes "parent \<in> dom (db_dirties db)"
  shows "\<exists>db'. dropChild db child parent = Inr db' \<and> same_shape db db'"
proof -
  obtain par where par: "db_dirties db parent = Some par" using assms by auto
  note s = children_shape [OF par]
  show ?thesis
  proof (cases "Option.bind (cn_children par) (\<lambda>m. m child)")
    case None
    then show ?thesis using par by (auto simp: dropChild_def split: option.split)
  next
    case (Some c)
    then obtain m where "cn_children par = Some m" "m child = Some c" by (auto split: option.splits simp: bind_eq_Some_conv)
    then show ?thesis using par s(1) by (auto simp: dropChild_def Let_def)
  qed
qed

lemma countChild_ok:
  assumes "parent \<in> dom (db_dirties db)"
  shows "\<exists>db'. (case changeNode db parent (\<lambda>e. e\<lparr>cn_children := m\<rparr>) of
      Inl p \<Rightarrow> Inl p | Inr db1 \<Rightarrow> Inr (if b then db1\<lparr>childrenSize := childrenSize db1 + 34\<rparr> else db1)) = Inr db' \<and> same_shape db db'"
proof -
  obtain e where e: "db_dirties db parent = Some e" using assms by auto
  show ?thesis using children_shape [OF e] e by (cases b) (simp_all add: changeNode_def)
qed

lemma openChildren_shape: "db_dirties db parent = Some par \<Longrightarrow> same_shape db (openChildren db parent par)"
  using children_shape(1) [of db parent par] by (simp add: openChildren_def split: option.split)

lemma reference_ok:
  assumes "parent \<in> dom (db_dirties db) \<or> child \<notin> dom (db_dirties db)"
  shows "\<exists>db'. reference db child parent = Inr db' \<and> same_shape db db'"
proof (cases "db_dirties db child")
  case None
  then show ?thesis by (simp add: reference_def)
next
  case (Some e)
  then obtain par where par: "db_dirties db parent = Some par" using assms by (auto simp: domIff)
  let ?d = "addParent (openChildren db parent par) child"
  have s: "same_shape db ?d" by (rule same_shape_trans [OF openChildren_shape [OF par] addParent_shape])
  then have "parent \<in> dom (db_dirties ?d)" using shapeD(1) [of ?d db] par by (auto simp: same_shape_def)
  note c = countChild_ok [OF this]
  show ?thesis
  proof (cases "(case cn_children par of None \<Rightarrow> False | Some m \<Rightarrow> m child \<noteq> None) \<and> parent \<noteq> 0")
    case True
    then show ?thesis using Some par unfolding reference_def by (simp only: option.case if_True) auto
  next
    case False
    then show ?thesis using Some par c same_shape_trans [OF s] unfolding reference_def Let_def by (simp only: option.case if_False) blast
  qed
qed

section \<open>Insertion\<close>

lemma links_snoc:
  assumes "links db xs" "nxt db' h = 0" "xs \<noteq> [] \<Longrightarrow> nxt db' (last xs) = h \<and> prv db' h = last xs"
    "\<And>x. x \<in> set xs \<Longrightarrow> x \<noteq> last xs \<Longrightarrow> nxt db' x = nxt db x" "\<And>x. x \<in> set xs \<Longrightarrow> prv db' x = prv db x" "distinct xs"
  shows "links db' (xs @ [h])"
proof -
  have "set (tl xs) \<subseteq> set xs" by (cases xs) auto
  then have "chain db' xs"
    using chain_cong [OF conjunct1 [OF assms(1) [unfolded links_def]] assms(6,4,5)] by (meson subsetD)
  moreover have "chain db' [h]" by simp
  moreover have "xs = [] \<or> [h] = [] \<or> (nxt db' (last xs) = hd [h] \<and> prv db' (hd [h]) = last xs)" using assms(3) by (cases "xs = []") simp_all
  ultimately have "chain db' (xs @ [h])" unfolding successively_append_iff by blast
  then show ?thesis using assms(2) by (simp add: links_def)
qed

lemma gathers_forChilds: "forGatherChildren G n = Inr hs \<Longrightarrow> cn_node e = n \<Longrightarrow> \<exists>hs'. forChilds G ord e = Inr hs'"
  by (cases n) (auto simp: forChilds_def)

lemma insertNode_ok:
  assumes "flush_list {} db xs" "forGatherChildren G n = Inr hs" "h \<notin> dom (db_dirties db)"
  shows "\<exists>db'. insertNode G db h sz n = Inr db' \<and> flush_list {} db' (xs @ [h]) \<and> cleans db' = cleans db
    \<and> nodes_of db' = (nodes_of db)(h \<mapsto> (n, word_of_int sz)) \<and> dirtiesSize db' = dirtiesSize db + uint (32 + (word_of_int sz :: 16 word))"
proof -
  define entry where "entry = \<lparr>cn_node = n, cn_size = word_of_int sz, cn_parents = 0, cn_children = None, flushPrev = newest db, flushNext = 0\<rparr>"
  obtain hs' where hs': "forChilds G [] entry = Inr hs'" using gathers_forChilds [OF assms(2), of entry] by (auto simp: entry_def)
  define db1 where "db1 = foldl addParent db hs'"
  have s: "same_shape db db1" unfolding db1_def by (rule addParents_shape)
  note sh = shapeD [of db1 db]
  have s1: "newest db1 = newest db" "oldest db1 = oldest db" "cleans db1 = cleans db" "dirtiesSize db1 = dirtiesSize db"
    "nodes_of db1 = nodes_of db" "nxt db1 = nxt db" "prv db1 = prv db" "dom (db_dirties db1) = dom (db_dirties db)"
    using s sh by (auto simp: same_shape_def)
  have fl: "distinct xs" "0 \<notin> set xs" "dom (db_dirties db) = insert 0 (set xs)" "links db1 xs"
    "if xs = [] then oldest db = 0 else oldest db = hd xs \<and> newest db = last xs"
    using assms(1) flush_list_shape [OF s, of "{}" xs] by (auto simp: flush_list_def)
  define D where "D = (if xs = [] then (db_dirties db1)(h \<mapsto> entry)
     else (db_dirties db1)(h \<mapsto> entry, last xs \<mapsto> (the (db_dirties db1 (last xs)))\<lparr>flushNext := h\<rparr>))"
  have h: "h \<noteq> 0" "h \<notin> set xs" using assms(3) fl(3) by auto
  have la: "last xs \<noteq> h" "\<exists>e. db_dirties db1 (last xs) = Some e" if "xs \<noteq> []"
  proof -
    have l: "last xs \<in> set xs" using that by simp
    then show "last xs \<noteq> h" using h(2) by metis
    have "last xs \<in> dom (db_dirties db1)" using l fl(3) s1(8) by blast
    then show "\<exists>e. db_dirties db1 (last xs) = Some e" by (simp add: domIff)
  qed
  define db' where "db' = db1\<lparr>db_dirties := D, oldest := (if xs = [] then h else oldest db1), newest := h,
     dirtiesSize := dirtiesSize db1 + uint (32 + cn_size entry)\<rparr>"
  have "hd xs \<noteq> 0" if "xs \<noteq> []" using fl(2) hd_in_set [OF that] by metis
  then have r: "insertNode G db h sz n = Inr db'"
    using assms(3) hs' fl(5) la s1(1,2) unfolding insertNode_def entry_def [symmetric] db'_def D_def
    by (cases "xs = []") (auto simp: db1_def [symmetric] changeNode_def Let_def domIff)
  have d: "db_dirties db' = D" by (simp add: db'_def)
  have nx: "nxt db' h = 0" "prv db' h = newest db" using la by (auto simp: nxt_def prv_def d D_def entry_def)
  have keep: "nxt db' x = nxt db1 x" "prv db' x = prv db1 x" if "x \<in> set xs" "x \<noteq> last xs" for x
    using that h(2) by (auto simp: nxt_def prv_def d D_def)
  have lst: "nxt db' (last xs) = h" "prv db' (last xs) = prv db1 (last xs)" if "xs \<noteq> []"
    using that la by (auto simp: nxt_def prv_def d D_def)
  have "prv db' x = prv db1 x" if x: "x \<in> set xs" for x
  proof -
    have "xs \<noteq> []" using x by auto
    then show ?thesis using keep(2) [OF x] lst(2) by metis
  qed
  then have l: "links db' (xs @ [h])"
    using nx lst(1) keep(1) fl(1,5) by (intro links_snoc [OF fl(4)]) auto
  have dm: "dom (db_dirties db') = insert 0 (set (xs @ [h]))" using fl(3) s1(8) la by (auto simp: d D_def)
  have "nodes_of db' = (nodes_of db1)(h \<mapsto> (n, word_of_int sz))"
    using la by (auto simp: fun_eq_iff nodes_of_def d D_def entry_def)
  moreover have "flush_list {} db' (xs @ [h])"
    using l dm fl(1,2,5) h s1(2) by (auto simp: flush_list_def db'_def)
  ultimately show ?thesis using r s1(3-5) by (auto simp: db'_def entry_def)
qed

section \<open>Removal\<close>

lemma changeNode_ok:
  assumes "h \<in> dom (db_dirties db)"
  shows "\<exists>e. db_dirties db h = Some e \<and> changeNode db h f = Inr (db\<lparr>db_dirties := (db_dirties db)(h \<mapsto> f e)\<rparr>)"
  using assms by (auto simp: changeNode_def)

text \<open>Setting one link of one node.\<close>

definition setNext :: "hash \<Rightarrow> cachedNode \<Rightarrow> cachedNode" where
  "setNext x e = e\<lparr>flushNext := x\<rparr>"

definition setPrev :: "hash \<Rightarrow> cachedNode \<Rightarrow> cachedNode" where
  "setPrev x e = e\<lparr>flushPrev := x\<rparr>"

text \<open>The counters of the references to a node and of those it holds itself.\<close>

definition refs_of :: "nodeDB \<Rightarrow> hash \<rightharpoonup> 32 word \<times> (hash \<rightharpoonup> 16 word) option" where
  "refs_of db h = map_option (\<lambda>e. (cn_parents e, cn_children e)) (db_dirties db h)"

definition relinked :: "nodeDB \<Rightarrow> nodeDB \<Rightarrow> bool" where
  "relinked db db' \<longleftrightarrow> nodes_of db' = nodes_of db \<and> refs_of db' = refs_of db \<and> cleans db' = cleans db \<and> dirtiesSize db' = dirtiesSize db"

lemma setNext_ok:
  assumes "h \<in> dom (db_dirties db)"
  shows "\<exists>db'. changeNode db h (setNext x) = Inr db' \<and> nxt db' = (nxt db)(h := x) \<and> prv db' = prv db \<and> relinked db db'
    \<and> oldest db' = oldest db \<and> newest db' = newest db"
  using assms by (auto simp: changeNode_def setNext_def nxt_def prv_def fun_eq_iff relinked_def nodes_of_def refs_of_def)

lemma setPrev_ok:
  assumes "h \<in> dom (db_dirties db)"
  shows "\<exists>db'. changeNode db h (setPrev x) = Inr db' \<and> prv db' = (prv db)(h := x) \<and> nxt db' = nxt db \<and> relinked db db'
    \<and> oldest db' = oldest db \<and> newest db' = newest db"
  using assms by (auto simp: changeNode_def setPrev_def nxt_def prv_def fun_eq_iff relinked_def nodes_of_def refs_of_def)

lemma ends_simps [simp]:
  "nxt (db\<lparr>oldest := h\<rparr>) = nxt db" "prv (db\<lparr>oldest := h\<rparr>) = prv db" "relinked (db\<lparr>oldest := h\<rparr>) = relinked db"
  "nxt (db\<lparr>newest := h\<rparr>) = nxt db" "prv (db\<lparr>newest := h\<rparr>) = prv db" "relinked (db\<lparr>newest := h\<rparr>) = relinked db"
  by (simp_all add: fun_eq_iff nxt_def prv_def relinked_def nodes_of_def refs_of_def)

lemma relinked_dom: "relinked db db' \<Longrightarrow> dom (db_dirties db') = dom (db_dirties db)"
  by (simp add: relinked_def flip: dom_nodes)

lemma unlinkNode_eq:
  "unlinkNode db child n =
     (if child = oldest db then changeNode (db\<lparr>oldest := flushNext n\<rparr>) (flushNext n) (setPrev 0)
      else if child = newest db then changeNode (db\<lparr>newest := flushPrev n\<rparr>) (flushPrev n) (setNext 0)
      else (case changeNode db (flushPrev n) (setNext (flushNext n)) of
              Inl p \<Rightarrow> Inl p | Inr db1 \<Rightarrow> changeNode db1 (flushNext n) (setPrev (flushPrev n))))"
  by (simp add: unlinkNode_def setNext_def [abs_def] setPrev_def [abs_def] split: sum.split)

lemma unlinkNode_ok:
  assumes fl: "flush_list U db xs" and x: "x \<in> set xs" "db_dirties db x = Some n"
  shows "\<exists>db' xs'. unlinkNode db x n = Inr db' \<and> flush_list (insert x U) db' xs' \<and> set xs' = set xs - {x} \<and> relinked db db'"
proof -
  obtain as bs where xs: "xs = as @ x # bs" using split_list [OF x(1)] by blast
  have f: "distinct xs" "0 \<notin> set xs" "0 \<notin> U" "set xs \<inter> U = {}" "finite U" "dom (db_dirties db) = insert 0 (set xs \<union> U)" "links db xs"
    "oldest db = hd xs" "newest db = last xs" using fl x(1) by (auto simp: flush_list_def split: if_splits)
  have d: "x \<notin> set as" "x \<notin> set bs" "distinct as" "distinct bs" "set as \<inter> set bs = {}" using f(1) xs by auto
  have n: "flushNext n = nxt db x" "flushPrev n = prv db x" using x(2) by (auto simp: nxt_def prv_def)
  have ch: "chain db as" "chain db bs" "bs \<noteq> [] \<Longrightarrow> nxt db x = hd bs \<and> prv db (hd bs) = x" "as \<noteq> [] \<Longrightarrow> nxt db (last as) = x \<and> prv db x = last as"
    "bs = [] \<Longrightarrow> nxt db x = 0" "bs \<noteq> [] \<Longrightarrow> nxt db (last bs) = 0"
    using f(7) xs by (auto simp: links_def successively_append_iff successively_Cons)
  have dm: "insert 0 (set (as @ bs) \<union> insert x U) = dom (db_dirties db)" using f(6) xs by auto
  have flI: "flush_list (insert x U) db' (as @ bs)"
    if "relinked db db'" "links db' (as @ bs)" "if as @ bs = [] then oldest db' = 0 else oldest db' = hd (as @ bs) \<and> newest db' = last (as @ bs)" for db'
    using that f(2-5) d xs dm relinked_dom [OF that(1)] by (auto simp: flush_list_def)
  have hdb: "hd bs \<notin> set (tl bs)" "hd bs \<in> set bs" if "bs \<noteq> []" using that d(4) by (cases bs; auto)+
  show ?thesis
  proof (cases "as = []")
    case True
    have k: "nxt db x \<in> dom (db_dirties (db\<lparr>oldest := nxt db x\<rparr>))" using ch(3,5) hdb(2) f(6) xs by (cases "bs = []") auto
    from setPrev_ok [OF k, of 0] obtain db' where db': "unlinkNode db x n = Inr db'" "prv db' = (prv db)(nxt db x := 0)" "nxt db' = nxt db"
      "relinked db db'" "oldest db' = nxt db x" "newest db' = newest db"
      using True xs n f(8) by (auto simp: unlinkNode_eq)
    have "links db' bs"
    proof (rule links_cong [of db])
      show "prv db' y = prv db y" if "y \<in> set (tl bs)" for y
        using that db'(2) ch(3) hdb(1) by (cases "bs = []") auto
    qed (use ch d db'(3) in \<open>auto simp: links_def\<close>)
    then have "flush_list (insert x U) db' (as @ bs)" using True db' ch f(9) xs by (intro flI) auto
    then show ?thesis using db'(1,4) xs d by (intro exI [of _ db'] exI [of _ "as @ bs"]) auto
  next
    case as: False
    have la: "last as \<in> set as" "last as \<in> dom (db_dirties db)" using as f(6) xs by auto
    have no: "x \<noteq> oldest db" using as f(8) xs d(1) by (cases as) auto
    show ?thesis
    proof (cases "bs = []")
      case True
      have k: "prv db x \<in> dom (db_dirties (db\<lparr>newest := prv db x\<rparr>))" using la ch(4) as by simp
      from setNext_ok [OF k, of 0] obtain db' where db': "unlinkNode db x n = Inr db'" "nxt db' = (nxt db)(last as := 0)" "prv db' = prv db"
        "relinked db db'" "oldest db' = oldest db" "newest db' = last as"
        using True xs n f(9) no ch(4) as by (auto simp: unlinkNode_eq)
      have "links db' as" using chain_cong [OF ch(1) d(3), of db'] db'(2,3) by (simp add: links_def)
      then have "flush_list (insert x U) db' (as @ bs)" using True db' as f(8) xs by (intro flI) auto
      then show ?thesis using db'(1,4) xs d by (intro exI [of _ db'] exI [of _ "as @ bs"]) auto
    next
      case bs: False
      have nn: "x \<noteq> newest db" using bs f(9) xs d(2) by (metis last_ConsR last_appendR last_in_set list.distinct(1))
      have e: "nxt db x = hd bs" "prv db x = last as" using ch(3,4) as bs by auto
      obtain db1 where db1: "changeNode db (last as) (setNext (hd bs)) = Inr db1" "nxt db1 = (nxt db)(last as := hd bs)" "prv db1 = prv db"
        "relinked db db1" "oldest db1 = oldest db" "newest db1 = newest db" using setNext_ok [OF la(2)] by blast
      have "hd bs \<in> dom (db_dirties db1)" using relinked_dom [OF db1(4)] f(6) xs hdb(2) [OF bs] by auto
      from setPrev_ok [OF this, of "last as"] obtain db' where db': "unlinkNode db x n = Inr db'" "prv db' = (prv db)(hd bs := last as)"
        "nxt db' = (nxt db)(last as := hd bs)" "relinked db db'" "oldest db' = oldest db" "newest db' = newest db"
        using n e no nn db1 by (auto simp: unlinkNode_eq relinked_def)
      have "hd bs \<notin> set as" "last as \<notin> set bs" using d(5) la(1) hdb(2) [OF bs] by auto
      then have o: "\<And>z. z \<in> set (tl as) \<Longrightarrow> z \<noteq> hd bs" "\<And>z. z \<in> set bs \<Longrightarrow> z \<noteq> last as" using list.set_sel(2) [OF as] by metis+
      have "chain db' as" by (rule chain_cong [OF ch(1) d(3)]) (use db'(2,3) o(1) in auto)
      moreover have "chain db' bs" by (rule chain_cong [OF ch(2) d(4)]) (use db'(2,3) o(2) hdb(1) [OF bs] in auto)
      moreover have "nxt db' (last bs) = 0" using ch(6) [OF bs] db'(3) o(2) [of "last bs"] bs by simp
      ultimately have "links db' (as @ bs)" using db'(2,3) as bs d(5) la(1) by (auto simp: links_def successively_append_iff)
      then have "flush_list (insert x U) db' (as @ bs)" using db' as bs f(8,9) xs by (intro flI) auto
      then show ?thesis using db'(1,4) xs d by (intro exI [of _ db'] exI [of _ "as @ bs"]) auto
    qed
  qed
qed

section \<open>Counting references\<close>

definition parentsOf :: "nodeDB \<Rightarrow> hash \<Rightarrow> nat" where
  "parentsOf db h = (case refs_of db h of None \<Rightarrow> 0 | Some (p, _) \<Rightarrow> unat p)"

text \<open>How often \<open>g\<close> holds \<open>c\<close> as an external child.\<close>

definition extRefs :: "nodeDB \<Rightarrow> hash \<Rightarrow> hash \<Rightarrow> nat" where
  "extRefs db g c = (case refs_of db g of Some (_, Some m) \<Rightarrow> (case m c of None \<Rightarrow> 0 | Some n \<Rightarrow> unat n) | _ \<Rightarrow> 0)"

text \<open>The nodes that are gone, and the references to \<open>h\<close> that were taken away: those in \<open>hs\<close> and those of the nodes that are gone.\<close>

definition gone :: "nodeDB \<Rightarrow> nodeDB \<Rightarrow> hash set" where
  "gone db db' = dom (db_dirties db) - dom (db_dirties db')"

definition taken :: "(hash \<Rightarrow> hash list) \<Rightarrow> hash list \<Rightarrow> nodeDB \<Rightarrow> nodeDB \<Rightarrow> hash \<Rightarrow> nat" where
  "taken K hs db db' h = count_list hs h + (\<Sum>g \<in> gone db db'. count_list (K g) h)"

text \<open>What becomes of a node with \<open>p\<close> parents when \<open>d\<close> references to it are taken: it goes when none is left.\<close>

fun fate :: "nat \<Rightarrow> nat \<Rightarrow> nat option \<Rightarrow> bool" where
  "fate p d None \<longleftrightarrow> 0 < d \<and> p \<le> d"
| "fate p d (Some q) \<longleftrightarrow> q = p - d \<and> (d = 0 \<or> d < p)"

lemma fate_trans: "fate p d (Some q) \<Longrightarrow> fate q d' x \<Longrightarrow> fate p (d + d') x"
  by (cases x) auto

lemma fate_more: "fate p d None \<Longrightarrow> fate p (d + d') None"
  by simp

definition parentsLeft :: "nodeDB \<Rightarrow> hash \<Rightarrow> nat option" where
  "parentsLeft db h = map_option (\<lambda>(p, _). unat p) (refs_of db h)"

lemma parentsLeft_Some: "parentsLeft db h = Some q \<Longrightarrow> parentsOf db h = q"
  by (auto simp: parentsLeft_def parentsOf_def)

lemma dom_refs: "refs_of db h = None \<longleftrightarrow> h \<notin> dom (db_dirties db)" "parentsLeft db h = None \<longleftrightarrow> h \<notin> dom (db_dirties db)"
  by (auto simp: refs_of_def parentsLeft_def)

lemma parentsLeft_dom: "h \<in> dom (db_dirties db) \<Longrightarrow> \<exists>q. parentsLeft db h = Some q"
  by (auto simp: parentsLeft_def refs_of_def)

definition released :: "(hash \<Rightarrow> hash list) \<Rightarrow> hash set \<Rightarrow> hash \<Rightarrow> hash list \<Rightarrow> nodeDB \<Rightarrow> nodeDB \<Rightarrow> bool" where
  "released K U p hs db db' \<longleftrightarrow> dom (db_dirties db') \<subseteq> dom (db_dirties db)
     \<and> (\<forall>h \<in> dom (db_dirties db) - insert 0 U. fate (parentsOf db h) (taken K hs db db' h) (parentsLeft db' h))
     \<and> (\<forall>g \<in> dom (db_dirties db'). \<forall>c. extRefs db' g c = extRefs db g c - (if g = p then count_list hs c else 0))"

lemma gone_trans:
  assumes "dom (db_dirties b) \<subseteq> dom (db_dirties a)" "dom (db_dirties c) \<subseteq> dom (db_dirties b)" "finite (dom (db_dirties a))"
  shows "taken K (hs @ hs') a c h = taken K hs a b h + taken K hs' b c h"
proof -
  have "gone a c = gone a b \<union> gone b c" "gone a b \<inter> gone b c = {}" "finite (gone a b)" "finite (gone b c)"
    using assms finite_subset [of _ "dom (db_dirties a)"] by (auto simp: gone_def)
  then show ?thesis by (simp add: taken_def sum.union_disjoint)
qed

lemma released_trans:
  assumes "released K U p hs a b" "released K U p hs' b c" "finite (dom (db_dirties a))"
  shows "released K U p (hs @ hs') a c"
proof -
  have d: "dom (db_dirties b) \<subseteq> dom (db_dirties a)" "dom (db_dirties c) \<subseteq> dom (db_dirties b)"
    using assms(1,2) by (simp_all add: released_def)
  note t = gone_trans [OF d assms(3), of K hs hs']
  have fa: "fate (parentsOf a h) (taken K hs a b h) (parentsLeft b h)" if "h \<in> dom (db_dirties a) - insert 0 U" for h
    using assms(1) that by (simp add: released_def)
  have fb: "fate (parentsOf b h) (taken K hs' b c h) (parentsLeft c h)" if "h \<in> dom (db_dirties b) - insert 0 U" for h
    using assms(2) that by (simp add: released_def)
  have "fate (parentsOf a h) (taken K (hs @ hs') a c h) (parentsLeft c h)" if h: "h \<in> dom (db_dirties a) - insert 0 U" for h
  proof (cases "parentsLeft b h")
    case None
    moreover have "parentsLeft c h = None" using None d(2) unfolding dom_refs by blast
    ultimately have "fate (parentsOf a h) (taken K hs a b h) None" "parentsLeft c h = None" using fa [OF h] by simp_all
    then show ?thesis using fate_more unfolding t by metis
  next
    case (Some q)
    then have "h \<in> dom (db_dirties b) - insert 0 U" using dom_refs(2) [of b h] h by auto
    then have "fate (parentsOf a h) (taken K hs a b h) (Some q)" "fate q (taken K hs' b c h) (parentsLeft c h)"
      using fa [OF h] fb [of h] Some parentsLeft_Some [OF Some] by simp_all
    then show ?thesis using fate_trans unfolding t by blast
  qed
  moreover have "extRefs c g x = extRefs a g x - (if g = p then count_list (hs @ hs') x else 0)" if g: "g \<in> dom (db_dirties c)" for g x
  proof -
    have "extRefs c g x = extRefs b g x - (if g = p then count_list hs' x else 0)" using assms(2) g by (simp add: released_def)
    moreover have "g \<in> dom (db_dirties b)" using g d(2) by blast
    then have "extRefs b g x = extRefs a g x - (if g = p then count_list hs x else 0)" using assms(1) by (simp add: released_def)
    ultimately show ?thesis by simp
  qed
  ultimately show ?thesis using d by (auto simp: released_def)
qed

lemma refs_change: "refs_of (db\<lparr>db_dirties := (db_dirties db)(h \<mapsto> e)\<rparr>) = (refs_of db)(h \<mapsto> (cn_parents e, cn_children e))"
  by (auto simp: refs_of_def fun_eq_iff)

lemma dropChild_shape:
  assumes "dropChild db child parent = Inr db'" "db_dirties db parent = Some par"
  shows "\<exists>ch z. db' = db\<lparr>db_dirties := (db_dirties db)(parent \<mapsto> par\<lparr>cn_children := ch\<rparr>), childrenSize := z\<rparr>
    \<and> (\<forall>c. (case ch of None \<Rightarrow> 0 | Some m \<Rightarrow> case m c of None \<Rightarrow> 0 | Some n \<Rightarrow> unat n)
        = (case cn_children par of None \<Rightarrow> 0 | Some m \<Rightarrow> case m c of None \<Rightarrow> 0 | Some n \<Rightarrow> unat n) - count_list [child] c)"
proof (cases "\<exists>m n. cn_children par = Some m \<and> m child = Some n \<and> n \<noteq> 0")
  case True
  then obtain m n where m: "cn_children par = Some m" "m child = Some n" "n \<noteq> 0" by blast
  have "unat (n - 1) = unat n - 1" using m(3) by (simp add: unat_minus_one)
  moreover have "n - 1 = 0 \<Longrightarrow> n = 1" by simp
  ultimately show ?thesis using assms m
    by (intro exI [of _ "Some (if n - 1 = 0 then m(child := None) else m(child \<mapsto> n - 1))"] exI [of _ "childrenSize db'"])
      (auto simp: dropChild_def Let_def)
next
  case False
  then have "db' = db" using assms by (auto simp: dropChild_def split: option.splits)
  moreover have "par\<lparr>cn_children := cn_children par\<rparr> = par" "(db_dirties db)(parent \<mapsto> par) = db_dirties db" using assms(2) by auto
  ultimately show ?thesis using False
    by (intro exI [of _ "cn_children par"] exI [of _ "childrenSize db"]) (auto split: option.splits)
qed

lemma dropChild_refs:
  assumes "dropChild db child parent = Inr db'"
  shows "parentsLeft db' = parentsLeft db" "extRefs db' g c = extRefs db g c - (if g = parent then count_list [child] c else 0)"
proof -
  obtain par where par: "db_dirties db parent = Some par" using assms by (auto simp: dropChild_def split: option.splits)
  obtain ch z where c: "db' = db\<lparr>db_dirties := (db_dirties db)(parent \<mapsto> par\<lparr>cn_children := ch\<rparr>), childrenSize := z\<rparr>"
    "\<And>c. (case ch of None \<Rightarrow> 0 | Some m \<Rightarrow> case m c of None \<Rightarrow> 0 | Some n \<Rightarrow> unat n)
        = (case cn_children par of None \<Rightarrow> 0 | Some m \<Rightarrow> case m c of None \<Rightarrow> 0 | Some n \<Rightarrow> unat n) - count_list [child] c"
    using dropChild_shape [OF assms par] by blast
  show "parentsLeft db' = parentsLeft db" using par by (auto simp: c(1) parentsLeft_def refs_of_def fun_eq_iff)
  show "extRefs db' g c = extRefs db g c - (if g = parent then count_list [child] c else 0)"
    using par c(2) [of c] by (cases "g = parent") (simp_all add: c(1) extRefs_def refs_of_def)
qed

lemma released_drop:
  assumes "dropChild db child parent = Inr db'" "same_shape db db'" "child \<notin> dom (db_dirties db)"
  shows "released K U parent [child] db db'"
proof -
  have d: "dom (db_dirties db') = dom (db_dirties db)" using assms(2) shapeD(1) [of db' db] by (simp add: same_shape_def)
  have "fate (parentsOf db h) (taken K [child] db db' h) (parentsLeft db' h)" if h: "h \<in> dom (db_dirties db)" for h
  proof -
    obtain q where "parentsLeft db h = Some q" using parentsLeft_dom [OF h] by blast
    then show ?thesis using h assms(3) dropChild_refs(1) [OF assms(1)] parentsLeft_Some
      by (auto simp: taken_def gone_def d)
  qed
  then show ?thesis using dropChild_refs(2) [OF assms(1)] d by (simp add: released_def)
qed

text \<open>The hashes \<open>forChilds\<close> visits are those of a list that stays.\<close>

definition kids :: "geth \<Rightarrow> (hash \<Rightarrow> hash list) \<Rightarrow> (hash \<Rightarrow> hash list) \<Rightarrow> nodeDB \<Rightarrow> bool" where
  "kids G ords K db \<longleftrightarrow> (\<forall>h e. db_dirties db h = Some e \<longrightarrow> h \<noteq> 0 \<longrightarrow> forChilds G (ords h) e = Inr (K h))"

section \<open>Dereferencing\<close>

text \<open>A rank that falls along the references among the cached nodes: there is no circle.\<close>

definition ranked :: "geth \<Rightarrow> (hash \<Rightarrow> hash list) \<Rightarrow> (hash \<Rightarrow> nat) \<Rightarrow> nodeDB \<Rightarrow> bool" where
  "ranked G ords r db \<longleftrightarrow> (\<forall>h e. db_dirties db h = Some e \<longrightarrow> h \<noteq> 0 \<longrightarrow>
     (\<exists>hs. forChilds G (ords h) e = Inr hs \<and> (\<forall>c \<in> set hs. c \<noteq> 0 \<and> (c \<in> dom (db_dirties db) \<longrightarrow> r c < r h))))"

lemma forChilds_node: "cn_node e = cn_node e' \<Longrightarrow> forChilds G ord e = forChilds G ord e'"
  by (simp add: forChilds_def)

lemma nodes_le:
  assumes "nodes_of db' \<subseteq>\<^sub>m nodes_of db" "db_dirties db' h = Some e'"
  shows "\<exists>e. db_dirties db h = Some e \<and> cn_node e = cn_node e' \<and> cn_size e = cn_size e'"
proof -
  have "nodes_of db' h = Some (cn_node e', cn_size e')" using assms(2) by (simp add: nodes_of_def)
  then have "nodes_of db h = Some (cn_node e', cn_size e')" using assms(1) by (metis domI map_le_def)
  then show ?thesis by (auto simp: nodes_of_def)
qed

lemma ranked_mono:
  assumes "ranked G ords r db" "nodes_of db' \<subseteq>\<^sub>m nodes_of db" shows "ranked G ords r db'"
  unfolding ranked_def
proof (intro allI impI)
  fix h e' assume h: "db_dirties db' h = Some e'" "h \<noteq> 0"
  obtain e where e: "db_dirties db h = Some e" "cn_node e = cn_node e'" using nodes_le [OF assms(2) h(1)] by blast
  have d: "dom (db_dirties db') \<subseteq> dom (db_dirties db)" using map_le_implies_dom_le [OF assms(2)] by simp
  obtain hs where "forChilds G (ords h) e = Inr hs" "\<forall>c \<in> set hs. c \<noteq> 0 \<and> (c \<in> dom (db_dirties db) \<longrightarrow> r c < r h)"
    using assms(1) e(1) h(2) unfolding ranked_def by blast
  then show "\<exists>hs. forChilds G (ords h) e' = Inr hs \<and> (\<forall>c \<in> set hs. c \<noteq> 0 \<and> (c \<in> dom (db_dirties db') \<longrightarrow> r c < r h))"
    using forChilds_node [OF e(2), of G "ords h"] d by (intro exI [of _ hs]) (simp, blast)
qed

lemma kids_mono:
  assumes "kids G ords K db" "nodes_of db' \<subseteq>\<^sub>m nodes_of db" shows "kids G ords K db'"
  using assms(1) nodes_le [OF assms(2)] forChilds_node unfolding kids_def by metis

lemma shape_nodes: "same_shape db db' \<Longrightarrow> nodes_of db' = nodes_of db"
  using shapeD(4) [of db' db] by (simp add: same_shape_def)

text \<open>What a dereference leaves, when it was asked for a node of rank at most \<open>k\<close>.\<close>

definition drops :: "hash set \<Rightarrow> (hash \<Rightarrow> nat) \<Rightarrow> nat \<Rightarrow> nodeDB \<Rightarrow> nodeDB \<Rightarrow> bool" where
  "drops U r k db db' \<longleftrightarrow> (\<exists>xs. flush_list U db' xs) \<and> (sized db \<longrightarrow> sized db') \<and> cleans db' = cleans db \<and> nodes_of db' \<subseteq>\<^sub>m nodes_of db
     \<and> (\<forall>h \<in> dom (db_dirties db) - dom (db_dirties db'). r h \<le> k)"

lemma drops_shape:
  assumes "flush_list U db xs" "same_shape db db'" shows "drops U r k db db'"
  using assms flush_list_shape [OF assms(2)] sized_shape [OF assms(2)] shape_nodes [OF assms(2)] shapeD(1) [of db' db]
  by (auto simp: drops_def same_shape_def)

lemma drops_trans: "drops U r k a b \<Longrightarrow> drops U r k b c \<Longrightarrow> drops U r k a c"
  unfolding drops_def by (auto intro: map_le_trans)

lemma drops_rank: "drops U r k a b \<Longrightarrow> k \<le> l \<Longrightarrow> drops U r l a b"
  unfolding drops_def by (meson le_trans)

lemma deref_absent:
  assumes "parent \<in> dom (db_dirties db)" "child \<notin> dom (db_dirties db)"
  shows "\<exists>db'. dereference G ords db child parent = okR db' \<and> same_shape db db' \<and> released K U parent [child] db db'"
proof -
  obtain db' where d: "dropChild db child parent = Inr db'" "same_shape db db'" using dropChild_ok [OF assms(1)] by blast
  then have "db_dirties db' child = None" using assms(2) shapeD(1) [of db' db] by (auto simp: same_shape_def domIff)
  then show ?thesis using d released_drop [OF d assms(2)] by (subst dereference.simps) auto
qed

lemma flush_finite: "flush_list U db xs \<Longrightarrow> finite (dom (db_dirties db))"
  by (simp add: flush_list_def)

lemma deref_children:
  assumes IH: "\<And>c db. (\<exists>xs. flush_list U db xs) \<Longrightarrow> ranked G ords r db \<Longrightarrow> kids G ords K db \<Longrightarrow> c \<noteq> 0 \<Longrightarrow> c \<in> dom (db_dirties db) \<Longrightarrow> r c < k \<Longrightarrow>
      \<exists>db'. dereference G ords db c child = okR db' \<and> drops U r (r c) db db' \<and> released K U child [c] db db'"
    and "\<exists>xs. flush_list U db xs" "ranked G ords r db" "kids G ords K db" "child \<in> U" "\<forall>c \<in> set hs. c \<noteq> 0 \<and> (c \<in> dom (db_dirties db) \<longrightarrow> r c < k)"
  shows "\<exists>db'. foldR (\<lambda>db h. dereference G ords db h child) db hs = okR db' \<and> drops U r k db db' \<and> released K U child hs db db'"
  using assms(2-)
proof (induction hs arbitrary: db)
  case Nil
  have "released K U child [] db db"
    using parentsLeft_Some dom_refs(2) [of db] by (fastforce simp: released_def taken_def gone_def)
  then show ?case using drops_shape [OF _ same_shape_refl] Nil.prems(1) by auto
next
  case (Cons c hs)
  obtain xs where xs: "flush_list U db xs" using Cons.prems(1) by blast
  have p: "child \<in> dom (db_dirties db)" using xs Cons.prems(4) by (auto simp: flush_list_def)
  have "\<exists>db1. dereference G ords db c child = okR db1 \<and> drops U r k db db1 \<and> released K U child [c] db db1"
  proof (cases "c \<in> dom (db_dirties db)")
    case True
    then show ?thesis using IH [OF Cons.prems(1-3) _ True] Cons.prems(5) drops_rank [of U r "r c" db _ k] by force
  next
    case False
    then show ?thesis using deref_absent [OF p False] drops_shape [OF xs] by blast
  qed
  then obtain db1 where db1: "dereference G ords db c child = okR db1" "drops U r k db db1" "released K U child [c] db db1" by blast
  have n: "nodes_of db1 \<subseteq>\<^sub>m nodes_of db" using db1(2) by (simp add: drops_def)
  have "dom (db_dirties db1) \<subseteq> dom (db_dirties db)" using map_le_implies_dom_le [OF n] by simp
  then have "\<forall>c \<in> set hs. c \<noteq> 0 \<and> (c \<in> dom (db_dirties db1) \<longrightarrow> r c < k)"
    using Cons.prems(5) by (meson list.set_intros(2) subsetD)
  moreover have "\<exists>xs. flush_list U db1 xs" using db1(2) by (simp add: drops_def)
  ultimately obtain db' where db': "foldR (\<lambda>db h. dereference G ords db h child) db1 hs = okR db'" "drops U r k db1 db'" "released K U child hs db1 db'"
    using Cons.IH [OF _ ranked_mono [OF Cons.prems(2) n] kids_mono [OF Cons.prems(3) n] Cons.prems(4)] by blast
  then show ?case using db1(1) drops_trans [OF db1(2)] released_trans [OF db1(3) _ flush_finite [OF xs]] by auto
qed

lemma deleteNode_ok:
  assumes "flush_list (insert x U) db xs" "x \<notin> U" "\<exists>nd. nodes_of db x = Some (nd, cn_size n)"
  shows "flush_list U (deleteNode db x n) xs" "sized db \<Longrightarrow> sized (deleteNode db x n)" "cleans (deleteNode db x n) = cleans db"
    "nodes_of (deleteNode db x n) = (nodes_of db)(x := None)"
proof -
  let ?d = "deleteNode db x n"
  have D: "db_dirties ?d = (db_dirties db)(x := None)" "oldest ?d = oldest db" "newest ?d = newest db"
    "dirtiesSize ?d = dirtiesSize db - (32 + uint (cn_size n))" by (simp_all add: deleteNode_def Let_def)
  show "cleans ?d = cleans db" by (simp add: deleteNode_def Let_def)
  show nd: "nodes_of ?d = (nodes_of db)(x := None)" by (auto simp: nodes_of_def D fun_eq_iff)
  have x: "x \<notin> set xs" "x \<noteq> 0" using assms(1) by (auto simp: flush_list_def)
  have "links ?d xs"
  proof (rule links_cong [of db])
    show "nxt ?d y = nxt db y" if "y \<in> set xs" for y using that x by (auto simp: nxt_def D)
    show "prv ?d y = prv db y" if "y \<in> set (tl xs)" for y using that x list.set_sel(2) [of xs y] by (cases xs) (auto simp: prv_def D)
  qed (use assms(1) in \<open>auto simp: flush_list_def\<close>)
  moreover have "dom (db_dirties ?d) = insert 0 (set xs \<union> U)" using assms(1,2) x by (auto simp: D flush_list_def)
  ultimately show "flush_list U ?d xs" using assms(1) by (auto simp: flush_list_def D split: if_splits)
  have fin: "finite (dom (nodes_of db))" using assms(1) by (simp add: flush_list_def)
  have "x \<in> dom (nodes_of db) - {0}" using assms(3) x(2) by (auto simp del: dom_nodes)
  then have "(\<Sum>h \<in> dom (nodes_of db) - {0}. 32 + uint (snd (the (nodes_of db h)))) =
      32 + uint (snd (the (nodes_of db x))) + (\<Sum>h \<in> dom (nodes_of db) - {0} - {x}. 32 + uint (snd (the (nodes_of db h))))"
    using fin by (simp add: sum.remove)
  moreover have "(\<Sum>h \<in> dom (nodes_of db) - {0} - {x}. 32 + uint (snd (the (nodes_of db h)))) =
      (\<Sum>h \<in> dom (nodes_of ?d) - {0}. 32 + uint (snd (the (nodes_of ?d h))))"
    by (rule sum.cong) (auto simp: nd)
  ultimately show "sized db \<Longrightarrow> sized ?d" using assms(3) by (auto simp: sized_def D)
qed

lemma oneLess:
  assumes "n = (if cn_parents n0 > 0 then n0\<lparr>cn_parents := cn_parents n0 - 1\<rparr> else n0)"
  shows "unat (cn_parents n) = unat (cn_parents n0) - 1" "cn_children n = cn_children n0"
  by (cases "cn_parents n0 > 0"; use assms in \<open>simp add: unat_minus_one word_gt_0\<close>)+

lemma childParents: "dropChild db child parent = Inr db1 \<Longrightarrow> db_dirties db1 child = Some n0 \<Longrightarrow> parentsLeft db child = Some (unat (cn_parents n0))"
  by (simp add: dropChild_refs(1) [symmetric]) (simp add: parentsLeft_def refs_of_def)

lemma released_kept:
  assumes "dropChild db child parent = Inr db1" "same_shape db db1" "db_dirties db1 child = Some n0"
    "n = (if cn_parents n0 > 0 then n0\<lparr>cn_parents := cn_parents n0 - 1\<rparr> else n0)" "cn_parents n \<noteq> 0"
  shows "released K U parent [child] db (db1\<lparr>db_dirties := (db_dirties db1)(child \<mapsto> n)\<rparr>)" (is "released _ _ _ _ _ ?d")
proof -
  have d: "dom (db_dirties db1) = dom (db_dirties db)" using assms(2) shapeD(1) [of db1 db] by (simp add: same_shape_def)
  then have dd: "dom (db_dirties ?d) = dom (db_dirties db)" using assms(3) by auto
  then have g0: "gone db ?d = {}" by (simp add: gone_def)
  note n = oneLess [OF assms(4)]
  have n2: "1 < unat (cn_parents n0)" using n(1) assms(5) by (metis diff_is_0_eq not_le unat_eq_zero)
  have "fate (parentsOf db h) (taken K [child] db ?d h) (parentsLeft ?d h)" if h: "h \<in> dom (db_dirties db)" for h
  proof -
    obtain q where q: "parentsLeft db h = Some q" using parentsLeft_dom [OF h] by blast
    have "h = child \<Longrightarrow> q = unat (cn_parents n0)" using q childParents [OF assms(1,3)] by simp
    moreover have "parentsLeft ?d h = (if h = child then Some (unat (cn_parents n)) else parentsLeft db h)"
      using dropChild_refs(1) [OF assms(1)] by (simp add: parentsLeft_def refs_change fun_eq_iff)
    ultimately show ?thesis using n(1) n2 parentsLeft_Some [OF q] q by (auto simp: taken_def g0)
  qed
  moreover have "extRefs ?d g c = extRefs db1 g c" for g c
    using n(2) assms(3) by (simp add: extRefs_def refs_change) (simp add: refs_of_def)
  ultimately show ?thesis using dropChild_refs(2) [OF assms(1)] dd by (simp add: released_def)
qed

lemma released_removed:
  assumes "dropChild db child parent = Inr db1" "same_shape db db1" "db_dirties db1 child = Some n0"
    "n = (if cn_parents n0 > 0 then n0\<lparr>cn_parents := cn_parents n0 - 1\<rparr> else n0)" "cn_parents n = 0"
    "relinked (db1\<lparr>db_dirties := (db_dirties db1)(child \<mapsto> n)\<rparr>) db3"
    "released K (insert child U) child (K child) db3 db4" "child \<in> dom (db_dirties db4)" "finite (dom (db_dirties db))"
  shows "released K U parent [child] db (deleteNode db4 child n)" (is "released _ _ _ _ _ ?d")
proof -
  have D: "db_dirties ?d = (db_dirties db4)(child := None)" by (simp add: deleteNode_def Let_def)
  have d1: "dom (db_dirties db1) = dom (db_dirties db)" using assms(2) shapeD(1) [of db1 db] by (simp add: same_shape_def)
  have d3: "dom (db_dirties db3) = dom (db_dirties db)" using relinked_dom [OF assms(6)] d1 assms(3) by auto
  have d4: "dom (db_dirties db4) \<subseteq> dom (db_dirties db)" using assms(7) d3 by (simp add: released_def)
  have g: "gone db ?d = insert child (gone db3 db4)" "child \<notin> gone db3 db4" "finite (gone db3 db4)"
    using assms(8,9) d3 d4 by (auto simp: gone_def D)
  have t: "taken K [child] db ?d h = count_list [child] h + taken K (K child) db3 db4 h" for h
    using g by (simp add: taken_def)
  have p: "unat (cn_parents n0) \<le> 1" "cn_children n = cn_children n0"
    using oneLess [OF assms(4)] assms(5) by simp_all
  have r3: "refs_of db3 = (refs_of db1)(child \<mapsto> (cn_parents n, cn_children n))" using assms(6) by (simp add: relinked_def refs_change)
  have "fate (parentsOf db h) (taken K [child] db ?d h) (parentsLeft ?d h)" if h: "h \<in> dom (db_dirties db) - insert 0 U" for h
  proof (cases "h = child")
    case True
    have "parentsLeft db child = Some (unat (cn_parents n0))"
      by (rule childParents [OF assms(1,3)])
    then show ?thesis using True p(1) parentsLeft_Some dom_refs(2) [of ?d child] unfolding t by (auto simp: D)
  next
    case False
    have "parentsOf db3 h = parentsOf db h" using False r3 dropChild_refs(1) [OF assms(1)]
      by (auto simp: parentsOf_def parentsLeft_def fun_eq_iff dest!: spec [of _ h] split: option.splits)
    moreover have "parentsLeft ?d h = parentsLeft db4 h" using False by (simp add: parentsLeft_def refs_of_def D)
    moreover have "fate (parentsOf db3 h) (taken K (K child) db3 db4 h) (parentsLeft db4 h)"
      using assms(7) h False d3 by (auto simp: released_def)
    ultimately show ?thesis using False unfolding t by simp
  qed
  moreover have "extRefs ?d y c = extRefs db y c - (if y = parent then count_list [child] c else 0)" if y: "y \<in> dom (db_dirties ?d)" for y c
  proof -
    have yc: "y \<noteq> child" "y \<in> dom (db_dirties db4)" using y by (auto simp: D)
    have "extRefs ?d y c = extRefs db4 y c" using yc(1) by (simp add: extRefs_def refs_of_def D)
    also have "\<dots> = extRefs db3 y c" using assms(7) yc by (simp add: released_def)
    also have "\<dots> = extRefs db1 y c" using yc(1) r3 by (simp add: extRefs_def)
    finally show ?thesis using dropChild_refs(2) [OF assms(1)] by simp
  qed
  ultimately show ?thesis using d4 by (auto simp: released_def D)
qed

lemma dereference_ok:
  assumes "\<exists>xs. flush_list U db xs" "ranked G ords r db" "kids G ords K db" "parent \<in> dom (db_dirties db)" "child \<noteq> 0"
    "child \<in> dom (db_dirties db) \<Longrightarrow> \<forall>u \<in> U. r child < r u"
  shows "\<exists>db'. dereference G ords db child parent = okR db' \<and> drops U r (r child) db db' \<and> released K U parent [child] db db'"
  using assms
proof (induction "r child" arbitrary: child parent db U rule: less_induct)
  case less
  obtain xs where xs: "flush_list U db xs" using less.prems(1) by blast
  show ?case
  proof (cases "child \<in> dom (db_dirties db)")
    case False
    then show ?thesis using deref_absent [OF less.prems(4) False] drops_shape [OF xs] by blast
  next
    case True
    have U: "child \<notin> U" using less.prems(6) [OF True] by auto
    then have cx: "child \<in> set xs" using True xs less.prems(5) by (auto simp: flush_list_def)
    obtain db1 where db1: "dropChild db child parent = Inr db1" "same_shape db db1" using dropChild_ok [OF less.prems(4)] by blast
    have "child \<in> dom (db_dirties db1)" using True shapeD(1) [of db1 db] db1(2) by (auto simp: same_shape_def)
    then obtain n0 where n0: "db_dirties db1 child = Some n0" by auto
    define n where "n = (if cn_parents n0 > 0 then n0\<lparr>cn_parents := cn_parents n0 - 1\<rparr> else n0)"
    define db2 where "db2 = db1\<lparr>db_dirties := (db_dirties db1)(child \<mapsto> n)\<rparr>"
    have "same_shape db1 db2" using n0 by (auto simp: same_shape_def shape_def db2_def n_def fun_eq_iff)
    then have s2: "same_shape db db2" using db1(2) same_shape_trans by blast
    show ?thesis
    proof (cases "cn_parents n = 0")
      case False
      then have "dereference G ords db child parent = okR db2"
        using db1(1) n0 by (subst dereference.simps) (simp add: n_def [symmetric] db2_def [symmetric])
      then show ?thesis using drops_shape [OF xs s2] released_kept [OF db1 n0 n_def False] by (auto simp: db2_def)
    next
      case zero: True
      have n2: "db_dirties db2 child = Some n" by (simp add: db2_def)
      obtain db3 xs3 where db3: "unlinkNode db2 child n = Inr db3" "flush_list (insert child U) db3 xs3" "relinked db2 db3"
        using unlinkNode_ok [OF _ cx n2, of U] flush_list_shape [OF s2] xs by blast
      have n3: "nodes_of db3 = nodes_of db" using db3(3) shape_nodes [OF s2] by (simp add: relinked_def)
      have rk: "ranked G ords r db3" "ranked G ords r db2" using less.prems(2) ranked_mono n3 shape_nodes [OF s2] by simp_all
      have kd: "kids G ords K db3" "kids G ords K db2" using less.prems(3) kids_mono n3 shape_nodes [OF s2] by simp_all
      have dom3: "dom (db_dirties db3) = dom (db_dirties db2)" using relinked_dom [OF db3(3)] .
      obtain hs where hs: "forChilds G (ords child) n = Inr hs" "hs = K child" "\<forall>c \<in> set hs. c \<noteq> 0 \<and> (c \<in> dom (db_dirties db3) \<longrightarrow> r c < r child)"
        using rk(2) kd(2) n2 less.prems(5) dom3 unfolding ranked_def kids_def by (metis sum.inject(2))
      have "\<exists>db4. foldR (\<lambda>db h. dereference G ords db h child) db3 hs = okR db4 \<and> drops (insert child U) r (r child) db3 db4
          \<and> released K (insert child U) child hs db3 db4"
      proof (rule deref_children)
        fix c d assume a: "\<exists>xs. flush_list (insert child U) d xs" "ranked G ords r d" "kids G ords K d" "c \<noteq> 0" "c \<in> dom (db_dirties d)" "r c < r child"
        have "child \<in> dom (db_dirties d)" using a(1) by (auto simp: flush_list_def)
        then show "\<exists>db'. dereference G ords d c child = okR db' \<and> drops (insert child U) r (r c) d db' \<and> released K (insert child U) child [c] d db'"
          using a less.prems(6) [OF True] by (intro less.hyps) auto
      qed (use db3 rk kd hs(3) in auto)
      then obtain db4 where db4: "foldR (\<lambda>db h. dereference G ords db h child) db3 hs = okR db4" "drops (insert child U) r (r child) db3 db4"
        "released K (insert child U) child (K child) db3 db4" using hs(2) by blast
      obtain xs4 where xs4: "flush_list (insert child U) db4 xs4" using db4(2) by (auto simp: drops_def)
      have "child \<in> dom (nodes_of db4)" using xs4 by (auto simp: flush_list_def)
      moreover have le: "nodes_of db4 \<subseteq>\<^sub>m nodes_of db3" using db4(2) by (simp add: drops_def)
      moreover have "nodes_of db3 child = Some (cn_node n, cn_size n)" using db3(3) n2 by (simp add: relinked_def nodes_of_def)
      ultimately have "nodes_of db4 child = Some (cn_node n, cn_size n)" by (metis map_le_def)
      note del = deleteNode_ok [OF xs4 U exI, OF this]
      have "dereference G ords db child parent = okR (deleteNode db4 child n)"
        using db1(1) n0 zero db3(1) hs(1) db4(1) by (subst dereference.simps) (simp add: n_def [symmetric] db2_def [symmetric])
      moreover have "drops U r (r child) db (deleteNode db4 child n)"
      proof -
        have "sized db3 = sized db" using db3(3) sized_shape [OF s2] by (simp add: sized_def relinked_def)
        moreover have "cleans db3 = cleans db" using db3(3) s2 by (simp add: same_shape_def relinked_def)
        moreover have "nodes_of (deleteNode db4 child n) \<subseteq>\<^sub>m nodes_of db" using le n3 del(4) by (auto simp: map_le_def)
        moreover have "dom (db_dirties (deleteNode db4 child n)) = dom (db_dirties db4) - {child}"
          using del(4) by (metis dom_nodes dom_fun_upd)
        moreover have "dom (db_dirties db3) = dom (db_dirties db)" using n3 by (metis dom_nodes)
        ultimately show ?thesis using db4(2) del(1-3) unfolding drops_def by auto
      qed
      moreover have "released K U parent [child] db (deleteNode db4 child n)"
        using released_removed [OF db1 n0 n_def zero _ db4(3)] db3(3) xs4 flush_finite [OF xs] by (auto simp: db2_def flush_list_def)
      ultimately show ?thesis by blast
    qed
  qed
qed

end
