(* ===== verification/NodeStore.thy ===== *)
theory NodeStore
  imports NodeStoreInv TrieDurable
begin

text \<open>
  What the node database gives to a trie: \<open>Update\<close> makes the nodes of a commit readable and loses nothing that was
  readable before, so a trie that is committed into the database opens again from it; dereferencing ends and keeps
  the invariant. Blobs are identified by their hashes, so the properties exclude collisions among
  the blobs in question.
\<close>

section \<open>Reading\<close>

definition read :: "geth \<Rightarrow> 'z blockStore_scheme \<Rightarrow> nodeDB \<Rightarrow> u64 \<Rightarrow> hash \<Rightarrow> bytes option" where
  "read G P db codec h = (case fst (Node G P db h codec) of (b, None) \<Rightarrow> Some b | (_, Some _) \<Rightarrow> None)"

definition node_rlp :: "geth \<Rightarrow> node \<Rightarrow> bytes" where
  "node_rlp G n = (case n of rawNode b \<Rightarrow> b | _ \<Rightarrow> nodeToBytes G n)"

lemma rlp_of_node: "cachedNode_rlp G e = node_rlp G (cn_node e)" "memoryNode_rlp G mn = node_rlp G (mn_node mn)"
  by (simp_all add: cachedNode_rlp_def memoryNode_rlp_def node_rlp_def split: node.split)

definition db_reader :: "geth \<Rightarrow> 'z blockStore_scheme \<Rightarrow> nodeDB \<Rightarrow> u64 \<Rightarrow> hash \<Rightarrow> trieReader" where
  "db_reader G P db codec own = \<lparr>rd_owner = own, rd_reader = Some (hashReader_NodeBlob G P db codec), rd_banned = None\<rparr>"

lemma nodeBlob_reader: "nodeBlob (db_reader G P db codec own) p h = Inr b \<longleftrightarrow> read G P db codec h = Some b \<and> b \<noteq> []"
  by (auto simp: nodeBlob_def db_reader_def read_def hashReader_NodeBlob_def split: prod.splits option.splits)

definition disk :: "'z blockStore_scheme \<Rightarrow> u64 \<Rightarrow> hash \<Rightarrow> bytes option" where
  "disk P codec h = (case Keccak256ToCid P codec (hash_bytes h) of Inl _ \<Rightarrow> None
     | Inr c \<Rightarrow> (case diskGet P c of (b, None) \<Rightarrow> if b = [] then None else Some b | (_, Some _) \<Rightarrow> None))"

lemma read_eq:
  "read G P db codec h =
     (if h = 0 then None
      else case Option.bind (cleans db) (\<lambda>c. c h) of
             Some b \<Rightarrow> Some b
           | None \<Rightarrow> (case nodes_of db h of Some (n, _) \<Rightarrow> Some (node_rlp G n) | None \<Rightarrow> disk P codec h))"
  by (simp add: read_def Node_def nodes_of_def disk_def rlp_of_node split: option.split sum.split prod.split)

text \<open>The blobs a database can deliver, and that they are what their hashes say.\<close>

definition db_blobs :: "geth \<Rightarrow> 'z blockStore_scheme \<Rightarrow> nodeDB \<Rightarrow> u64 \<Rightarrow> bytes set" where
  "db_blobs G P db codec = {b. \<exists>h. read G P db codec h = Some b}"

definition honest :: "geth \<Rightarrow> 'z blockStore_scheme \<Rightarrow> nodeDB \<Rightarrow> u64 \<Rightarrow> bool" where
  "honest G P db codec \<longleftrightarrow> (\<forall>h b. read G P db codec h = Some b \<longrightarrow> keccak256 G b = h)"

definition set_blobs :: "geth \<Rightarrow> NodeSet \<Rightarrow> bytes set" where
  "set_blobs G S = {memoryNode_rlp G n |q n. ns_nodes S q = Some n \<and> n \<noteq> deletedNode}"

text \<open>
  Reading fills the clean cache and the cache drops what it likes. When every entry of the cache can be read without it, this
  changes no answer. (A node that was cached under one codec is also served under another, where the block store has nothing.)
\<close>

definition cleans_ok :: "geth \<Rightarrow> 'z blockStore_scheme \<Rightarrow> nodeDB \<Rightarrow> u64 \<Rightarrow> bool" where
  "cleans_ok G P db codec \<longleftrightarrow> (\<forall>cs h b. cleans db = Some cs \<longrightarrow> cs h = Some b \<longrightarrow> read G P (db\<lparr>cleans := None\<rparr>) codec h = Some b)"

lemma nodes_cleans [simp]: "nodes_of (db\<lparr>cleans := c\<rparr>) = nodes_of db"
  by (simp add: nodes_of_def fun_eq_iff)

lemma cleans_read: "cleans_ok G P db codec \<Longrightarrow> read G P db codec h = read G P (db\<lparr>cleans := None\<rparr>) codec h"
proof (cases "Option.bind (cleans db) (\<lambda>c. c h)")
  case None
  then show ?thesis by (simp add: read_eq)
next
  case (Some b)
  assume "cleans_ok G P db codec"
  then have c: "read G P (db\<lparr>cleans := None\<rparr>) codec h = Some b" using Some by (auto simp: cleans_ok_def bind_eq_Some_conv)
  then have "h \<noteq> 0" by (auto simp: read_eq)
  then show ?thesis using c Some by (simp add: read_eq)
qed

lemma Node_snd:
  "snd (Node G P db h codec) = db \<or> (\<exists>cs b K. cleans db = Some cs \<and> read G P db codec h = Some b \<and> cs h = None
     \<and> snd (Node G P db h codec) = db\<lparr>cleans := Some ((cs(h \<mapsto> b)) |` K)\<rparr>)"
proof (cases "snd (Node G P db h codec) = db")
  case False
  then have h: "h \<noteq> 0" "Option.bind (cleans db) (\<lambda>c. c h) = None" "db_dirties db h = None" by (auto simp: Node_def split: option.splits)
  then obtain c where c: "Keccak256ToCid P codec (hash_bytes h) = Inr c" using False by (auto simp: Node_def split: sum.splits)
  then obtain b where b: "diskGet P c = (b, None)" "b \<noteq> []" using False h by (auto simp: Node_def split: prod.splits option.splits if_splits)
  then obtain cs where cs: "cleans db = Some cs" using False h c by (cases "cleans db") (auto simp: Node_def)
  then have "Node G P db h codec = ((b, None), db\<lparr>cleans := Some ((cs(h \<mapsto> b)) |` keepClean P (cs(h \<mapsto> b)))\<rparr>)"
    using h c b by (simp add: Node_def Let_def)
  then show ?thesis using cs h(2) by (auto simp: read_def)
qed simp

lemma Node_clean:
  assumes "cleans_ok G P db codec"
  shows "cleans_ok G P (snd (Node G P db h codec)) codec" "read G P (snd (Node G P db h codec)) codec g = read G P db codec g"
proof -
  let ?d = "snd (Node G P db h codec)"
  have cold: "read G P (?d\<lparr>cleans := None\<rparr>) codec g = read G P (db\<lparr>cleans := None\<rparr>) codec g" for g
    using Node_snd [of G P db h codec] by (elim disjE exE conjE) simp_all
  have "read G P (db\<lparr>cleans := None\<rparr>) codec g = Some b" if "cleans ?d = Some cs" "cs g = Some b" for cs g b
    using Node_snd [of G P db h codec]
  proof (elim disjE exE conjE)
    assume "?d = db" then show ?thesis using that assms by (simp add: cleans_ok_def)
  next
    fix cs0 b0 K assume a: "cleans db = Some cs0" "read G P db codec h = Some b0" "?d = db\<lparr>cleans := Some ((cs0(h \<mapsto> b0)) |` K)\<rparr>"
    then have "cs = (cs0(h \<mapsto> b0)) |` K" using that(1) by simp
    then have "(if g = h then Some b0 else cs0 g) = Some b" using that(2) by (auto simp: restrict_map_def split: if_splits)
    then show ?thesis using a(1,2) assms cleans_read [OF assms, of h] by (simp add: cleans_ok_def split: if_splits)
  qed
  then show ok: "cleans_ok G P ?d codec" unfolding cleans_ok_def cold by blast
  show "read G P ?d codec g = read G P db codec g" using cleans_read [OF assms, of g] cleans_read [OF ok, of g] cold by simp
qed

section \<open>Updating\<close>

lemma mapE_all: "(\<And>x. x \<in> set xs \<Longrightarrow> \<exists>y. f x = Inr y) \<Longrightarrow> \<exists>ys. mapE f xs = Inr ys"
proof (induction xs)
  case (Cons x xs)
  obtain y where "f x = Inr y" using Cons.prems [of x] by auto
  moreover obtain ys where "mapE f xs = Inr ys" using Cons by (meson list.set_intros(2))
  ultimately show ?case by simp
qed simp

lemma collapse_gathers: "wfn G n \<Longrightarrow> \<exists>hs. forGatherChildren G (collapse G n) = Inr hs"
proof (induction n)
  case (fullNode cs f)
  have "\<exists>hs. forGatherChildren G (embed G (collapse G c)) = Inr hs" if "c \<in> set (take 16 cs)" for c
    using fullNode.IH [of c] fullNode.prems that by (auto simp: embed_def hashData_def dest: in_set_takeD)
  then have "\<exists>hss. mapE (forGatherChildren G) (map (\<lambda>c. embed G (collapse G c)) (take 16 cs)) = Inr hss"
    by (intro mapE_all) auto
  then show ?case by (auto simp: take_map)
next
  case (shortNode k v f)
  then show ?case by (auto simp: embed_def hashData_def)
qed auto

text \<open>What the nodes of a committed set look like.\<close>

lemma made_node:
  assumes "made G S" "ns_nodes S q = Some mn" "mn \<noteq> deletedNode" "rlp G"
  shows "keccak256 G (memoryNode_rlp G mn) = mn_hash mn" "memoryNode_rlp G mn \<noteq> []" "\<exists>hs. forGatherChildren G (mn_node mn) = Inr hs"
    "mn_node mn \<noteq> nilNode"
proof -
  obtain n where n: "branch n" "wfn G n" "mn_node mn = collapse G n" "mn_hash mn = keccak256 G (encode G (collapse G n))"
    using assms(1-3) unfolding made_def by blast
  have r: "memoryNode_rlp G mn = encode G (collapse G n)" using n(1,3) by (cases n) (auto simp: memoryNode_rlp_def nodeToBytes_def)
  show "keccak256 G (memoryNode_rlp G mn) = mn_hash mn" using r n(4) by simp
  obtain c where "encode G (collapse G n) = rlpList G c" using n(1) by (cases n) auto
  then have "0 < length (encode G (collapse G n))" using le_less_trans [OF le0 rlp.list_grows [OF assms(4), of c]] by simp
  then show "memoryNode_rlp G mn \<noteq> []" using r by auto
  show "\<exists>hs. forGatherChildren G (mn_node mn) = Inr hs" using collapse_gathers [OF n(2)] n(3) by simp
  show "mn_node mn \<noteq> nilNode" using n(1,3) by (cases n) auto
qed

text \<open>What inserting nodes of a set does.\<close>

definition absorbs :: "geth \<Rightarrow> memoryNode set \<Rightarrow> nodeDB \<Rightarrow> nodeDB \<Rightarrow> bool" where
  "absorbs G N db db' \<longleftrightarrow> (\<exists>xs. flush_list {} db' xs) \<and> cleans db' = cleans db \<and> nodes_of db \<subseteq>\<^sub>m nodes_of db'
     \<and> (\<forall>n \<in> N. mn_hash n \<in> dom (nodes_of db'))
     \<and> (\<forall>h \<in> dom (nodes_of db') - dom (nodes_of db). \<exists>n \<in> N. mn_hash n = h \<and> nodes_of db' h = Some (mn_node n, mn_size n))"

lemma absorbs_insert:
  assumes "flush_list {} db xs" "\<exists>hs. forGatherChildren G (mn_node n) = Inr hs"
  shows "\<exists>db'. insertNode G db (mn_hash n) (uint (mn_size n)) (mn_node n) = Inr db' \<and> absorbs G {n} db db'"
proof (cases "mn_hash n \<in> dom (db_dirties db)")
  case True
  then show ?thesis using assms(1) by (auto simp: insertNode_def absorbs_def)
next
  case False
  obtain db' where db': "insertNode G db (mn_hash n) (uint (mn_size n)) (mn_node n) = Inr db'" "flush_list {} db' (xs @ [mn_hash n])"
    "cleans db' = cleans db" "nodes_of db' = (nodes_of db)(mn_hash n \<mapsto> (mn_node n, word_of_int (uint (mn_size n))))"
    using insertNode_ok [OF assms(1) _ False] assms(2) by blast
  have no: "db_dirties db (mn_hash n) = None" using False by (simp add: domIff)
  then have "nodes_of db (mn_hash n) = None" by (simp add: nodes_of_def)
  then have "nodes_of db \<subseteq>\<^sub>m nodes_of db'" using db'(4) no by (auto simp: map_le_def)
  moreover have "dom (nodes_of db') = insert (mn_hash n) (dom (nodes_of db))" using db'(4) by simp
  ultimately show ?thesis using db' no unfolding absorbs_def by (intro exI [of _ db'] conjI) auto
qed

lemma absorbs_trans:
  assumes "absorbs G N db db1" "absorbs G N' db1 db2" shows "absorbs G (N \<union> N') db db2"
  unfolding absorbs_def
proof (intro conjI ballI)
  have le: "nodes_of db \<subseteq>\<^sub>m nodes_of db1" "nodes_of db1 \<subseteq>\<^sub>m nodes_of db2" using assms by (auto simp: absorbs_def)
  show "nodes_of db \<subseteq>\<^sub>m nodes_of db2" using le by (rule map_le_trans)
  show "mn_hash n \<in> dom (nodes_of db2)" if "n \<in> N \<union> N'" for n
    using that assms map_le_implies_dom_le [OF le(2)] unfolding absorbs_def by blast
  fix h assume h: "h \<in> dom (nodes_of db2) - dom (nodes_of db)"
  show "\<exists>n \<in> N \<union> N'. mn_hash n = h \<and> nodes_of db2 h = Some (mn_node n, mn_size n)"
  proof (cases "h \<in> dom (nodes_of db1)")
    case True
    then have "nodes_of db2 h = nodes_of db1 h" using le(2) by (simp add: map_le_def)
    then show ?thesis using assms(1) h True unfolding absorbs_def by (metis DiffD2 DiffI UnI1)
  next
    case False
    then show ?thesis using assms(2) h unfolding absorbs_def by (metis DiffD1 DiffI UnI2)
  qed
qed (use assms in \<open>auto simp: absorbs_def\<close>)

lemma absorbs_refl: "flush_list {} db xs \<Longrightarrow> absorbs G {} db db"
  by (auto simp: absorbs_def)

lemma insertAll:
  assumes "flush_list {} db xs" "\<And>q n. q \<in> set qs \<Longrightarrow> ns_nodes S q = Some n \<Longrightarrow> \<not> isDeleted n \<Longrightarrow> \<exists>hs. forGatherChildren G (mn_node n) = Inr hs"
  shows "\<exists>db'. foldl (\<lambda>s q. case ns_nodes S q of None \<Rightarrow> s | Some n \<Rightarrow> insertMemoryNode G s q n) (Inr db) qs = Inr db'
    \<and> absorbs G {n. \<exists>q \<in> set qs. ns_nodes S q = Some n \<and> \<not> isDeleted n} db db'"
  using assms
proof (induction qs arbitrary: db xs)
  case Nil
  then show ?case using absorbs_refl by auto
next
  case (Cons q qs)
  let ?N = "{n. ns_nodes S q = Some n \<and> \<not> isDeleted n}" and ?f = "\<lambda>s q. case ns_nodes S q of None \<Rightarrow> s | Some n \<Rightarrow> insertMemoryNode G s q n"
  have "\<exists>db1. ?f (Inr db) q = Inr db1 \<and> absorbs G ?N db db1"
  proof (cases "\<exists>n. ns_nodes S q = Some n \<and> \<not> isDeleted n")
    case True
    then obtain n where n: "ns_nodes S q = Some n" "\<not> isDeleted n" by blast
    then have "?N = {n}" by auto
    then show ?thesis using absorbs_insert [OF Cons.prems(1) Cons.prems(2) [OF _ n]] n by (auto simp: insertMemoryNode_def)
  next
    case False
    then have "?N = {}" "?f (Inr db) q = Inr db" by (auto simp: insertMemoryNode_def split: option.split)
    then show ?thesis using absorbs_refl [OF Cons.prems(1), of G] by metis
  qed
  then obtain db1 where db1: "?f (Inr db) q = Inr db1" "absorbs G ?N db db1" by blast
  obtain xs1 where xs1: "flush_list {} db1 xs1" using db1(2) by (auto simp: absorbs_def)
  obtain db2 where db2: "foldl ?f (Inr db1) qs = Inr db2" "absorbs G {n. \<exists>q \<in> set qs. ns_nodes S q = Some n \<and> \<not> isDeleted n} db1 db2"
    using Cons.IH [OF xs1] Cons.prems(2) by (meson list.set_intros(2))
  have "{n. \<exists>p \<in> set (q # qs). ns_nodes S p = Some n \<and> \<not> isDeleted n} = ?N \<union> {n. \<exists>q \<in> set qs. ns_nodes S q = Some n \<and> \<not> isDeleted n}" by auto
  then show ?case using db1(1) db2(1) absorbs_trans [OF db1(2) db2(2)] by simp
qed

lemma Update_set:
  assumes "flush_list {} db xs" "made G S" "rlp G" "range_of (paths (ns_owner S)) (dom (ns_nodes S))" "owners = [ns_owner S]" "ns_leaves S = []"
  shows "\<exists>db'. Update G C owners paths db (NewWithNodeSet S) = Inr (None, db')
    \<and> absorbs G {n. \<exists>q. ns_nodes S q = Some n \<and> \<not> isDeleted n} db db'"
proof -
  have m: "NewWithNodeSet S = [ns_owner S \<mapsto> S]" by (simp add: NewWithNodeSet_def Merge_def NewMergedNodeSet_def)
  have o: "filter (\<lambda>h. h \<noteq> 0) owners @ (if NewWithNodeSet S 0 \<noteq> None then [0] else []) = [ns_owner S]" using assms(5) m by auto
  have st: "set (rev (sort (paths (ns_owner S)))) = dom (ns_nodes S)" using assms(4) by (simp add: range_of_def)
  have g: "\<exists>hs. forGatherChildren G (mn_node n) = Inr hs" if "ns_nodes S q = Some n" "\<not> isDeleted n" for q n
    using made_node(3) [OF assms(2) that(1) _ assms(3)] that(2) by (cases "n = deletedNode") (auto simp: isDeleted_def deletedNode_def)
  obtain db' where "forEachWithOrder S (paths (ns_owner S)) (insertMemoryNode G) (Inr db) = Inr db'"
    "absorbs G {n. \<exists>q \<in> dom (ns_nodes S). ns_nodes S q = Some n \<and> \<not> isDeleted n} db db'"
    using insertAll [OF assms(1), of "rev (sort (paths (ns_owner S)))" S G] g unfolding forEachWithOrder_def st by blast
  moreover have "{n. \<exists>q \<in> dom (ns_nodes S). ns_nodes S q = Some n \<and> \<not> isDeleted n} = {n. \<exists>q. ns_nodes S q = Some n \<and> \<not> isDeleted n}" by auto
  ultimately show ?thesis using assms(6) m unfolding Update_def Let_def o by (auto simp: insertSet_def)
qed

section \<open>Committing into the database\<close>

text \<open>Every answer of the updated database is a blob of the old one or of the set, and has the hash that was asked for.\<close>

lemma updated_answers:
  assumes h: "honest G P db codec" and S: "made G S" "rlp G" and up: "absorbs G {n. \<exists>q. ns_nodes S q = Some n \<and> \<not> isDeleted n} db db'"
    and b: "read G P db' codec h = Some b"
  shows "b \<in> db_blobs G P db codec \<union> set_blobs G S" "keccak256 G b = h"
proof -
  have c: "cleans db' = cleans db" "nodes_of db \<subseteq>\<^sub>m nodes_of db'" using up by (auto simp: absorbs_def)
  have "read G P db codec h = Some b \<or> (\<exists>q n. ns_nodes S q = Some n \<and> n \<noteq> deletedNode \<and> mn_hash n = h \<and> b = memoryNode_rlp G n)"
  proof (cases "nodes_of db' h = nodes_of db h \<or> Option.bind (cleans db) (\<lambda>c. c h) \<noteq> None")
    case True
    then have "read G P db' codec h = read G P db codec h" unfolding read_eq c(1) by (auto split: option.split)
    then show ?thesis using b by simp
  next
    case False
    have "h \<notin> dom (nodes_of db)" using False c(2) unfolding map_le_def by metis
    moreover have "h \<in> dom (nodes_of db')" using False calculation by (metis domIff)
    ultimately obtain q n where n: "ns_nodes S q = Some n" "\<not> isDeleted n" "mn_hash n = h" "nodes_of db' h = Some (mn_node n, mn_size n)"
      using up unfolding absorbs_def by blast
    have "b = memoryNode_rlp G n" using b False n(4) c(1) by (auto simp: read_eq rlp_of_node split: if_splits)
    moreover have "n \<noteq> deletedNode" using n(2) by (auto simp: isDeleted_def deletedNode_def)
    ultimately show ?thesis using n(1,3) by blast
  qed
  then show "b \<in> db_blobs G P db codec \<union> set_blobs G S" "keccak256 G b = h"
    using h made_node(1) [OF S(1) _ _ S(2)] by (auto simp: honest_def db_blobs_def set_blobs_def)
qed

lemma updated_serves:
  assumes h: "honest G P db codec" and S: "made G S" "rlp G" and up: "absorbs G {n. \<exists>q. ns_nodes S q = Some n \<and> \<not> isDeleted n} db db'"
    and nc: "no_collision G (db_blobs G P db codec \<union> set_blobs G S)" "0 \<notin> keccak256 G ` set_blobs G S"
  shows "serves (db_reader G P db codec own) (db_reader G P db' codec own')" "delivers G (db_reader G P db' codec own') S []"
proof -
  note ans = updated_answers [OF h S up]
  have c: "cleans db' = cleans db" "nodes_of db \<subseteq>\<^sub>m nodes_of db'" using up by (auto simp: absorbs_def)
  have inj: "b = b'" if "read G P db' codec k = Some b" "keccak256 G b' = k" "b' \<in> db_blobs G P db codec \<union> set_blobs G S" for b b' k
    using ans [OF that(1)] that(2,3) nc(1) unfolding no_collision_def by (metis inj_onD)
  show "serves (db_reader G P db codec own) (db_reader G P db' codec own')"
    unfolding serves_def nodeBlob_reader
  proof (intro allI impI)
    fix p k b assume b: "read G P db codec k = Some b \<and> b \<noteq> []"
    then have "k \<noteq> 0" by (auto simp: read_eq)
    have "\<exists>b'. read G P db' codec k = Some b'"
    proof (cases "nodes_of db' k")
      case None
      then have "nodes_of db k = None" using c(2) by (metis domIff map_le_def)
      then have "read G P db' codec k = read G P db codec k" using None c(1) by (simp add: read_eq cong: option.case_cong)
      then show ?thesis using b by simp
    next
      case (Some nz)
      then show ?thesis using \<open>k \<noteq> 0\<close> by (auto simp: read_eq split: option.split prod.split)
    qed
    then obtain b' where b': "read G P db' codec k = Some b'" by blast
    have "b' = b" using inj [OF b', of b] b h by (auto simp: honest_def db_blobs_def)
    then show "read G P db' codec k = Some b \<and> b \<noteq> []" using b b' by simp
  qed
  show "delivers G (db_reader G P db' codec own') S []"
    unfolding delivers_def nodeBlob_reader
  proof (intro allI impI)
    fix q mn assume q: "ns_nodes S q = Some mn" "mn_node mn \<noteq> nilNode"
    then have nd: "mn \<noteq> deletedNode" by (auto simp: deletedNode_def)
    note m = made_node [OF S(1) q(1) nd S(2)]
    have bl: "memoryNode_rlp G mn \<in> set_blobs G S" using q(1) nd by (auto simp: set_blobs_def)
    then have z: "mn_hash mn \<noteq> 0" using nc(2) m(1) by (metis image_eqI)
    then have "mn_hash mn \<in> dom (nodes_of db')" using up q(1) unfolding absorbs_def isDeleted_def by blast
    then have "\<exists>b'. read G P db' codec (mn_hash mn) = Some b'" using z by (auto simp: read_eq simp del: dom_nodes split: option.split prod.split)
    then obtain b' where b': "read G P db' codec (mn_hash mn) = Some b'" by blast
    then show "read G P db' codec (mn_hash mn) = Some (memoryNode_rlp G mn) \<and> memoryNode_rlp G mn \<noteq> []"
      using inj [OF b' m(1)] bl m(2) by auto
  qed
qed

section \<open>A database to start with\<close>

definition emptyDB :: nodeDB where
  "emptyDB = NewDatabase (\<lambda>_ _. None) (\<lambda>_. None)"

definition bareStore :: blockStore where
  "bareStore = \<lparr>multihashEncode = Inr, newCidV1 = (\<lambda>_ b. b), diskGet = (\<lambda>_. ([], Some notFound)), keepClean = (\<lambda>_. {})\<rparr>"

lemma emptyDB_facts:
  "flush_list {} emptyDB []" "sized emptyDB" "read G bareStore emptyDB codec h = None"
  by (simp_all add: emptyDB_def NewDatabase_def NewDatabaseWithConfig_def flush_list_def links_def sized_def read_eq nodes_of_def disk_def
     bareStore_def Keccak256ToCid_def dom_def)

lemma emptyDB_blank:
  assumes "R = db_reader ref_geth P emptyDB codec 0" "\<And>h. read ref_geth P emptyDB codec h = None"
  shows "durable ref_geth (blankTrie\<lparr>reader := R\<rparr>) Map.empty" "lawful ref_geth R"
    "TryUpdate ref_geth (blankTrie\<lparr>reader := R\<rparr>) [1] [v] = Some (Inr (((), None), (leafTrie v)\<lparr>reader := R\<rparr>))"
  using content_empty [of "blankTrie\<lparr>reader := R\<rparr>"] lawful_ref assms
  by (auto simp: durable_def persists_def lawful_def sound_reader_def nodeBlob_reader TryUpdate_def tryUpdate_def Let_def blankTrie_def leafTrie_def
     keybytesToHex_unpack insert_node.simps setRoot_def)

lemma updated_reopens:
  assumes "durable G t m" "lawful G (reader t)" "small_content (foldl write_map m ws)" "reader t = db_reader G P db codec own"
    and "flush_list {} db xs" "honest G P db codec"
  shows "\<exists>t1 S t2. write_all (write_step (TryUpdate G) (TryDelete G)) t ws = Some (Inr (((), None), t1))
    \<and> Trie_Commit G order t1 False = Inr ((rootHash G (root t1), S), t2)
    \<and> (\<forall>N i paths. S = Some N \<longrightarrow> range_of (paths (ns_owner N)) (dom (ns_nodes N)) \<longrightarrow>
         no_collision G (db_blobs G P db codec \<union> set_blobs G N) \<longrightarrow> 0 \<notin> keccak256 G ` set_blobs G N \<longrightarrow>
         id_Root i = rootHash G (root t1) \<longrightarrow> (id_Root i = 0 \<or> id_Root i = EmptyRootHash G \<longrightarrow> root t1 = nilNode) \<longrightarrow>
         (\<exists>db' ys t3. Update G C [ns_owner N] paths db (NewWithNodeSet N) = Inr (None, db') \<and> flush_list {} db' ys
            \<and> New G i (GetReader G P db') codec = Inr (Inr t3) \<and> content G t3 (foldl write_map m ws)))"
proof -
  obtain t1 S t2 where c: "write_all (write_step (TryUpdate G) (TryDelete G)) t ws = Some (Inr (((), None), t1))"
    "Trie_Commit G order t1 False = Inr ((rootHash G (root t1), S), t2)" "committed_set G False (owner t1) S"
    and re: "\<And>i d cd store rd. d (StateRoot i) cd = Some store \<Longrightarrow> id_Root i = rootHash G (root t1) \<Longrightarrow>
         rd = \<lparr>rd_owner = id_Owner i, rd_reader = Some store, rd_banned = None\<rparr> \<Longrightarrow>
         serves (reader t) rd \<Longrightarrow> deliversSet G rd S \<Longrightarrow> (id_Root i = 0 \<or> id_Root i = EmptyRootHash G \<longrightarrow> root t1 = nilNode) \<Longrightarrow>
         (\<exists>t3. New G i d cd = Inr (Inr t3) \<and> content G t3 (foldl write_map m ws))"
    using commit_reopened [OF assms(1-3), of order False] by metis
  show ?thesis
  proof (intro exI conjI, rule c(1), rule c(2), intro allI impI)
    fix N and i :: ID and paths assume a: "S = Some N" "range_of (paths (ns_owner N)) (dom (ns_nodes N))" "no_collision G (db_blobs G P db codec \<union> set_blobs G N)"
      "0 \<notin> keccak256 G ` set_blobs G N" "id_Root i = rootHash G (root t1)" "id_Root i = 0 \<or> id_Root i = EmptyRootHash G \<longrightarrow> root t1 = nilNode"
    have N: "made G N" "ns_leaves N = []" using c(3) a(1) by (auto simp: committed_set_def)
    have r: "rlp G" using assms(2) by (simp add: lawful_def)
    obtain db' where db': "Update G C [ns_owner N] paths db (NewWithNodeSet N) = Inr (None, db')"
      "absorbs G {n. \<exists>q. ns_nodes N q = Some n \<and> \<not> isDeleted n} db db'" using Update_set [OF assms(5) N(1) r _ refl N(2), of paths] a(2) by blast
    note sv = updated_serves [OF assms(6) N(1) r db'(2) a(3,4)]
    have "\<exists>t3. New G i (GetReader G P db') codec = Inr (Inr t3) \<and> content G t3 (foldl write_map m ws)"
    proof (rule re [of _ _ _ "hashReader_NodeBlob G P db' codec" "db_reader G P db' codec (id_Owner i)"])
      show "deliversSet G (db_reader G P db' codec (id_Owner i)) S" using sv(2) a(1) by (simp add: deliversSet_def)
      show "serves (reader t) (db_reader G P db' codec (id_Owner i))" using sv(1) assms(4) by simp
    qed (use a(5,6) in \<open>simp_all add: GetReader_def db_reader_def\<close>)
    then show "\<exists>db' ys t3. Update G C [ns_owner N] paths db (NewWithNodeSet N) = Inr (None, db') \<and> flush_list {} db' ys
            \<and> New G i (GetReader G P db') codec = Inr (Inr t3) \<and> content G t3 (foldl write_map m ws)"
      using db' by (auto simp: absorbs_def)
  qed
qed

section \<open>Properties\<close>

text \<open>C10: A trie that was opened from the node database, written and committed can be opened again from the database: \<open>Update\<close> with the
  node set of the commit succeeds, keeps the flush list intact, and \<open>New\<close> on the root hash then returns a trie with exactly
  the content written. Collisions are excluded among the blobs of the database and of the set, and a root that is zero or, for
  a trie that is not empty, the empty root is one.\<close>

theorem commit_update_reopen:
  assumes "durable G t m" "lawful G (reader t)" "small_content (foldl write_map m ws)" "reader t = db_reader G P db codec own"
    and "flush_list {} db xs" "honest G P db codec"
  shows "\<exists>t1 S t2. write_all (write_step (TryUpdate G) (TryDelete G)) t ws = Some (Inr (((), None), t1))
    \<and> Trie_Commit G order t1 False = Inr ((rootHash G (root t1), S), t2)
    \<and> (\<forall>N i paths. S = Some N \<longrightarrow> range_of (paths (ns_owner N)) (dom (ns_nodes N)) \<longrightarrow>
         no_collision G (db_blobs G P db codec \<union> set_blobs G N) \<longrightarrow> 0 \<notin> keccak256 G ` set_blobs G N \<longrightarrow>
         id_Root i = rootHash G (root t1) \<longrightarrow> (id_Root i = 0 \<or> id_Root i = EmptyRootHash G \<longrightarrow> root t1 = nilNode) \<longrightarrow>
         (\<exists>db' ys t3. Update G C [ns_owner N] paths db (NewWithNodeSet N) = Inr (None, db') \<and> flush_list {} db' ys
            \<and> New G i (GetReader G P db') codec = Inr (Inr t3) \<and> content G t3 (foldl write_map m ws)))"
  by (rule updated_reopens [OF assms])

lemma leafTrie_commits:
  "\<exists>S u. Trie_Commit ref_geth [] ((leafTrie 7)\<lparr>reader := R\<rparr>) False = Inr ((0xc482200107, Some S), u) \<and> ns_owner S = 0
     \<and> ns_nodes S = [[] \<mapsto> \<lparr>mn_hash = 0xc482200107, mn_size = 7, mn_node = rawShortNode [0x20, 1] (valueNode [7])\<rparr>]"
  using common_laws_ref
  by (simp add: leafTrie_def Trie_Commit_def Trie_Hash_def hashRoot_def hasher_hash.simps hashShortNodeChildren.simps blankTrie_def
     hexToCompact_eq compact_of_def path_part_def hasTerm_def shortnodeToHash_def setHash_def hashData_def newFlag_def Let_def
     committer_Commit_def commit.simps store_def markUpdated_def markDeletions_def NewNodeSet_def leaf_encoded leaf_hashed)

theorem commit_update_reopen_witness:
  "\<exists>N db' t3. Update ref_geth sampleCodec [0] (\<lambda>_. [[]]) emptyDB (NewWithNodeSet N) = Inr (None, db')
    \<and> New ref_geth (StateTrieID 0xc482200107) (GetReader ref_geth bareStore db') 0x96 = Inr (Inr t3) \<and> content ref_geth t3 [[1] \<mapsto> [7]]"
proof -
  define R where "R = db_reader ref_geth bareStore emptyDB 0x96 0"
  let ?t = "blankTrie\<lparr>reader := R\<rparr>" and ?i = "StateTrieID 0xc482200107"
  note b = emptyDB_blank [OF R_def emptyDB_facts(3)]
  have b2: "lawful ref_geth (reader ?t)" "reader ?t = db_reader ref_geth bareStore emptyDB 0x96 0" using b(2) by (simp_all add: R_def)
  have sm: "small_content (foldl write_map Map.empty [Put [1] [7]])" by (simp add: small_content_def)
  have ho: "honest ref_geth bareStore emptyDB 0x96" "db_blobs ref_geth bareStore emptyDB 0x96 = {}" by (simp_all add: honest_def db_blobs_def emptyDB_facts)
  obtain t1 S t2 where t1: "write_all (write_step (TryUpdate ref_geth) (TryDelete ref_geth)) ?t [Put [1] [7]] = Some (Inr (((), None), t1))"
    "Trie_Commit ref_geth [] t1 False = Inr ((rootHash ref_geth (root t1), S), t2)"
    and re: "\<And>N paths. S = Some N \<Longrightarrow> range_of (paths (ns_owner N)) (dom (ns_nodes N)) \<Longrightarrow>
         no_collision ref_geth (db_blobs ref_geth bareStore emptyDB 0x96 \<union> set_blobs ref_geth N) \<Longrightarrow> 0 \<notin> keccak256 ref_geth ` set_blobs ref_geth N \<Longrightarrow>
         id_Root ?i = rootHash ref_geth (root t1) \<Longrightarrow> (id_Root ?i = 0 \<or> id_Root ?i = EmptyRootHash ref_geth \<longrightarrow> root t1 = nilNode) \<Longrightarrow>
         \<exists>db' ys t3. Update ref_geth sampleCodec [ns_owner N] paths emptyDB (NewWithNodeSet N) = Inr (None, db')
           \<and> New ref_geth ?i (GetReader ref_geth bareStore db') 0x96 = Inr (Inr t3) \<and> content ref_geth t3 (foldl write_map Map.empty [Put [1] [7]])"
    using commit_update_reopen [OF b(1) b2(1) sm b2(2) emptyDB_facts(1) ho(1), of "[]" sampleCodec] by metis
  have r: "t1 = (leafTrie 7)\<lparr>reader := R\<rparr>" using t1(1) b(3) [of 7] by simp
  obtain N where N: "S = Some N" "ns_owner N = 0" "rootHash ref_geth (root t1) = 0xc482200107"
    "ns_nodes N = [[] \<mapsto> \<lparr>mn_hash = 0xc482200107, mn_size = 7, mn_node = rawShortNode [0x20, 1] (valueNode [7])\<rparr>]"
    using t1(2) leafTrie_commits [of R] r by auto
  have "set_blobs ref_geth N = {[0xc4, 0x82, 0x20, 1, 7]}"
    by (simp add: set_blobs_def N(4) deletedNode_def memoryNode_rlp_def nodeToBytes_def leaf_encoded)
  with re [OF N(1), of "\<lambda>_. [[]]"] N ho(2) show ?thesis
    by (auto simp: no_collision_def leaf_hashed StateTrieID_def range_of_def ref_geth_def [THEN arg_cong, of EmptyRootHash])
qed

section \<open>Collecting nodes\<close>

text \<open>The hashes of the children of \<open>g\<close>, \<open>ords g\<close> being the external ones in the order Go visits them.\<close>

definition childHashes :: "geth \<Rightarrow> (hash \<Rightarrow> hash list) \<Rightarrow> nodeDB \<Rightarrow> hash \<Rightarrow> hash list" where
  "childHashes G ords db g =
     (case db_dirties db g of None \<Rightarrow> [] | Some e \<Rightarrow> (case forChilds G (ords g) e of Inl _ \<Rightarrow> [] | Inr hs \<Rightarrow> hs))"

text \<open>The counters are exact: the parents of a node are the cached nodes that refer to it and the roots that are held.\<close>

definition counted :: "geth \<Rightarrow> (hash \<Rightarrow> hash list) \<Rightarrow> nodeDB \<Rightarrow> bool" where
  "counted G ords db \<longleftrightarrow> (\<forall>c \<in> dom (db_dirties db) - {0}.
     parentsOf db c = extRefs db 0 c + (\<Sum>g \<in> dom (db_dirties db) - {0}. count_list (childHashes G ords db g) c))"

definition referred :: "geth \<Rightarrow> (hash \<Rightarrow> hash list) \<Rightarrow> nodeDB \<Rightarrow> hash \<Rightarrow> bool" where
  "referred G ords db c \<longleftrightarrow> 0 < extRefs db 0 c \<or> (\<exists>g \<in> dom (db_dirties db) - {0}. c \<in> set (childHashes G ords db g))"

lemma ranked_kids: "ranked G ords r db \<Longrightarrow> kids G ords (childHashes G ords db) db"
  by (fastforce simp: ranked_def kids_def childHashes_def)

lemma childHashes_kept:
  assumes "nodes_of db' \<subseteq>\<^sub>m nodes_of db" "g \<in> dom (db_dirties db')" shows "childHashes G ords db' g = childHashes G ords db g"
proof -
  obtain e' where e': "db_dirties db' g = Some e'" using assms(2) by auto
  obtain e where "db_dirties db g = Some e" "cn_node e = cn_node e'" using nodes_le [OF assms(1) e'] by blast
  then show ?thesis using e' forChilds_node [of e e' G "ords g"] by (simp add: childHashes_def)
qed

lemma fate_iff: "fate p d x \<longleftrightarrow> (x = None \<longleftrightarrow> 0 < d \<and> p \<le> d) \<and> (\<forall>q. x = Some q \<longrightarrow> q = p - d)"
  by (cases x) auto

lemma parentsLeft_of: "c \<in> dom (db_dirties db) \<Longrightarrow> parentsLeft db c = Some (parentsOf db c)"
  using parentsLeft_dom parentsLeft_Some by metis

text \<open>With exact counters nothing that is still referred to goes, and the counters stay exact.\<close>

lemma released_counted:
  assumes "released (childHashes G ords db) {} 0 [h] db db'" "nodes_of db' \<subseteq>\<^sub>m nodes_of db" "finite (dom (db_dirties db))"
    and "0 \<in> dom (db_dirties db')" "counted G ords db" "0 < extRefs db 0 h"
  shows "counted G ords db'" "\<And>c. c \<in> dom (db_dirties db) \<Longrightarrow> c \<noteq> 0 \<Longrightarrow> referred G ords db' c \<Longrightarrow> c \<in> dom (db_dirties db')"
proof -
  let ?K = "childHashes G ords db" and ?D = "dom (db_dirties db)" and ?D' = "dom (db_dirties db')"
  have d: "?D' \<subseteq> ?D" using assms(1) by (simp add: released_def)
  have x: "extRefs db' 0 c = extRefs db 0 c - count_list [h] c" for c using assms(1,4) by (simp add: released_def)
  have sum: "(\<Sum>g \<in> ?D - {0}. count_list (?K g) c) = (\<Sum>g \<in> gone db db'. count_list (?K g) c) + (\<Sum>g \<in> ?D' - {0}. count_list (?K g) c)" for c
  proof -
    have "?D - {0} = gone db db' \<union> (?D' - {0})" "gone db db' \<inter> (?D' - {0}) = {}" using d assms(4) by (auto simp: gone_def)
    moreover have "finite (gone db db')" "finite (?D' - {0})" using assms(3) d finite_subset by (auto simp: gone_def)
    ultimately show ?thesis by (simp add: sum.union_disjoint)
  qed
  have s': "(\<Sum>g \<in> ?D' - {0}. count_list (childHashes G ords db' g) c) = (\<Sum>g \<in> ?D' - {0}. count_list (?K g) c)" for c
    by (rule sum.cong) (simp_all add: childHashes_kept [OF assms(2)])
  have p: "parentsOf db c = extRefs db 0 c + (\<Sum>g \<in> gone db db'. count_list (?K g) c) + (\<Sum>g \<in> ?D' - {0}. count_list (?K g) c)"
    if "c \<in> ?D - {0}" for c using assms(5) that sum [of c] by (simp add: counted_def)
  have f: "fate (parentsOf db c) (taken ?K [h] db db' c) (parentsLeft db' c)" if "c \<in> ?D - {0}" for c
    using assms(1) that by (simp add: released_def)
  show "counted G ords db'"
    unfolding counted_def
  proof
    fix c assume c: "c \<in> ?D' - {0}"
    then have "parentsOf db' c = parentsOf db c - taken ?K [h] db db' c" using f [of c] d parentsLeft_of [of c db'] by (auto simp: fate_iff)
    moreover have "c \<in> ?D - {0}" using c d by blast
    note p [OF this]
    ultimately show "parentsOf db' c = extRefs db' 0 c + (\<Sum>g \<in> ?D' - {0}. count_list (childHashes G ords db' g) c)"
      using assms(6) unfolding s' x by (cases "h = c") (auto simp: taken_def)
  qed
  fix c assume c: "c \<in> ?D" "c \<noteq> 0" "referred G ords db' c"
  show "c \<in> ?D'"
  proof (rule ccontr)
    assume n: "c \<notin> ?D'"
    then have "parentsOf db c \<le> taken ?K [h] db db' c" using f [of c] c dom_refs(2) [of db' c] by (simp add: fate_iff)
    then have z: "extRefs db' 0 c = 0" "(\<Sum>g \<in> ?D' - {0}. count_list (?K g) c) = 0"
    proof -
      define S where "S = (\<Sum>g \<in> ?D' - {0}. count_list (?K g) c)"
      have "parentsOf db c = extRefs db 0 c + (\<Sum>g \<in> gone db db'. count_list (?K g) c) + S" using p [of c] c(1,2) by (simp add: S_def)
      then have "extRefs db 0 c + S \<le> count_list [h] c" using \<open>parentsOf db c \<le> _\<close> by (simp add: taken_def)
      then have "extRefs db' 0 c = 0 \<and> S = 0" using assms(6) x [of c] by (cases "h = c") simp_all
      then show "extRefs db' 0 c = 0" "(\<Sum>g \<in> ?D' - {0}. count_list (?K g) c) = 0" by (simp_all only: S_def)
    qed
    have "finite (?D' - {0})" using assms(3) d finite_subset by auto
    then have "c \<notin> set (childHashes G ords db' g)" if "g \<in> ?D' - {0}" for g
      using z(2) that childHashes_kept [OF assms(2), of g G ords] by (simp add: count_list_0_iff)
    then show False using c(3) z(1) by (auto simp: referred_def)
  qed
qed

text \<open>C11: Garbage collection by \<open>Dereference\<close>, provided the references among the cached nodes have no circle. It ends and meets no nil
  pointer; the flush list stays a list and \<open>dirtiesSize\<close> the sum of the sizes. A node goes exactly when a reference to it is
  taken (the one from the root, and one for each child of a node that goes) and these are at least
  as many as its parents; every other node keeps its content, and its parents are fewer by the references taken. External references
  stay, but for the one to the root. With exact counters and a root that is held, the counters stay exact and nothing goes that is still referred to.\<close>

theorem Dereference_collects:
  assumes "flush_list {} db xs" "ranked G ords r db"
  shows "\<exists>db' ys. Dereference G ords db h = okR db' \<and> flush_list {} db' ys \<and> (sized db \<longrightarrow> sized db') \<and> nodes_of db' \<subseteq>\<^sub>m nodes_of db
    \<and> cleans db' = cleans db
    \<and> (\<forall>c \<in> dom (db_dirties db) - {0}. let d = taken (childHashes G ords db) [h] db db' c in
         (c \<notin> dom (db_dirties db') \<longleftrightarrow> 0 < d \<and> parentsOf db c \<le> d) \<and> (c \<in> dom (db_dirties db') \<longrightarrow> parentsOf db' c = parentsOf db c - d))
    \<and> (\<forall>g \<in> dom (db_dirties db'). \<forall>c. extRefs db' g c = extRefs db g c - (if g = 0 \<and> c = h \<and> h \<noteq> 0 then 1 else 0))
    \<and> (counted G ords db \<and> 0 < extRefs db 0 h \<longrightarrow>
         counted G ords db' \<and> (\<forall>c \<in> dom (db_dirties db) - {0}. referred G ords db' c \<longrightarrow> c \<in> dom (db_dirties db')))"
proof (cases "h = 0")
  case True
  then have "taken (childHashes G ords db) [h] db db c = 0" if "c \<noteq> 0" for c using that by (simp add: taken_def gone_def)
  then show ?thesis using True assms(1) by (auto simp: Dereference_def)
next
  case False
  let ?K = "childHashes G ords db"
  have z: "0 \<in> dom (db_dirties db)" "finite (dom (db_dirties db))" using assms(1) by (auto simp: flush_list_def)
  obtain db1 where d: "dereference G ords db h 0 = okR db1" "drops {} r (r h) db db1" "released ?K {} 0 [h] db db1"
    using dereference_ok [of "{}" db G ords r ?K 0 h] assms ranked_kids [OF assms(2)] z(1) False by auto
  obtain ys where ys: "flush_list {} db1 ys" "nodes_of db1 \<subseteq>\<^sub>m nodes_of db" "sized db \<longrightarrow> sized db1" "cleans db1 = cleans db"
    using d(2) by (auto simp: drops_def)
  define db' where "db' = db1\<lparr>gcnodes := gcnodes db1 + word_of_int (int (card (dom (db_dirties db))) - int (card (dom (db_dirties db1)))),
                 gcsize := gcsize db1 + (dirtiesSize db - dirtiesSize db1)\<rparr>"
  have dd: "db_dirties db' = db_dirties db1" by (simp add: db'_def)
  have rf: "refs_of db' = refs_of db1" by (simp add: refs_of_def fun_eq_iff dd)
  have "same_shape db1 db'" by (simp add: same_shape_def shape_def fun_eq_iff db'_def)
  then have e: "flush_list {} db' ys" "sized db' = sized db1" "nodes_of db' = nodes_of db1" "cleans db' = cleans db1"
    using flush_list_shape [of db1 db' "{}" ys] sized_shape [of db1 db'] shape_nodes [of db1 db'] ys by (simp_all add: same_shape_def)
  have rel: "released ?K {} 0 [h] db db'"
    using d(3) by (simp add: released_def dd taken_def gone_def parentsLeft_def extRefs_def rf)
  have fate: "fate (parentsOf db c) (taken ?K [h] db db' c) (parentsLeft db' c)" if "c \<in> dom (db_dirties db) - {0}" for c
    using rel that by (simp add: released_def)
  have "\<forall>c \<in> dom (db_dirties db) - {0}. let d = taken ?K [h] db db' c in
      (c \<notin> dom (db_dirties db') \<longleftrightarrow> 0 < d \<and> parentsOf db c \<le> d) \<and> (c \<in> dom (db_dirties db') \<longrightarrow> parentsOf db' c = parentsOf db c - d)"
    using fate parentsLeft_of [of _ db'] unfolding Let_def fate_iff dom_refs(2) by blast
  moreover have "\<forall>g \<in> dom (db_dirties db'). \<forall>c. extRefs db' g c = extRefs db g c - (if g = 0 \<and> c = h \<and> h \<noteq> 0 then 1 else 0)"
    using rel False by (simp add: released_def)
  moreover have "0 \<in> dom (db_dirties db')" using e(1) by (simp add: flush_list_def)
  note rc = released_counted [OF rel _ z(2) this]
  have "counted G ords db \<and> 0 < extRefs db 0 h \<longrightarrow>
      counted G ords db' \<and> (\<forall>c \<in> dom (db_dirties db) - {0}. referred G ords db' c \<longrightarrow> c \<in> dom (db_dirties db'))"
    using rc ys(2) e(3) by auto
  moreover have "Dereference G ords db h = okR db'" using d(1) False by (simp add: Dereference_def db'_def)
  ultimately show ?thesis using e ys by (intro exI [of _ db'] exI [of _ ys]) simp
qed

text \<open>Two roots, 6 and 7, that share the node 5.\<close>

definition sharingRaw :: "byte \<Rightarrow> node" where
  "sharingRaw b = rawShortNode [0x10 + b] (hashNode (hash_bytes 5))"

definition entry :: "node \<Rightarrow> 16 word \<Rightarrow> 32 word \<Rightarrow> hash \<Rightarrow> hash \<Rightarrow> cachedNode" where
  "entry n sz ps prev next = \<lparr>cn_node = n, cn_size = sz, cn_parents = ps, cn_children = None, flushPrev = prev, flushNext = next\<rparr>"

definition storedDB :: "(hash \<rightharpoonup> cachedNode) \<Rightarrow> hash \<Rightarrow> int \<Rightarrow> int \<Rightarrow> nodeDB" where
  "storedDB m n z c = emptyDB\<lparr>db_dirties := m, oldest := 5, newest := n, dirtiesSize := z, childrenSize := c\<rparr>"

definition sharedDB :: nodeDB where
  "sharedDB = storedDB [0 \<mapsto> metaRoot\<lparr>cn_children := Some [6 \<mapsto> 1, 7 \<mapsto> 1]\<rparr>, 5 \<mapsto> entry (valueNode [9]) 1 2 0 6,
     6 \<mapsto> entry (sharingRaw 1) 35 1 5 7, 7 \<mapsto> entry (sharingRaw 2) 35 1 6 0] 7 167 68"

lemma sharing_gathers: "forGatherChildren ref_geth (sharingRaw b) = Inr [5]"
  using hash_laws_ref by (simp add: sharingRaw_def hash_laws_def)

lemma sharing_forChilds: "cn_node e = sharingRaw b \<Longrightarrow> forChilds ref_geth [] e = Inr [5]"
  using sharing_gathers [of b] by (simp add: forChilds_def) (simp add: sharingRaw_def)

lemma shared_inserted:
  "insertNode ref_geth emptyDB 5 1 (valueNode [9]) = Inr (storedDB [0 \<mapsto> metaRoot, 5 \<mapsto> entry (valueNode [9]) 1 0 0 0] 5 33 0)"
  "insertNode ref_geth (storedDB [0 \<mapsto> metaRoot, 5 \<mapsto> entry (valueNode [9]) 1 0 0 0] 5 33 0) 6 35 (sharingRaw 1)
     = Inr (storedDB [0 \<mapsto> metaRoot, 5 \<mapsto> entry (valueNode [9]) 1 1 0 6, 6 \<mapsto> entry (sharingRaw 1) 35 0 5 0] 6 100 0)"
  "insertNode ref_geth (storedDB [0 \<mapsto> metaRoot, 5 \<mapsto> entry (valueNode [9]) 1 1 0 6, 6 \<mapsto> entry (sharingRaw 1) 35 0 5 0] 6 100 0) 7 35 (sharingRaw 2)
     = Inr (storedDB [0 \<mapsto> metaRoot, 5 \<mapsto> entry (valueNode [9]) 1 2 0 6, 6 \<mapsto> entry (sharingRaw 1) 35 0 5 7, 7 \<mapsto> entry (sharingRaw 2) 35 0 6 0] 7 167 0)"
proof -
  note d = insertNode_def storedDB_def entry_def emptyDB_def NewDatabase_def NewDatabaseWithConfig_def changeNode_def addParent_def Let_def
  show "insertNode ref_geth emptyDB 5 1 (valueNode [9]) = Inr (storedDB [0 \<mapsto> metaRoot, 5 \<mapsto> entry (valueNode [9]) 1 0 0 0] 5 33 0)"
    by (simp add: d forChilds_def)
  show "insertNode ref_geth (storedDB [0 \<mapsto> metaRoot, 5 \<mapsto> entry (valueNode [9]) 1 0 0 0] 5 33 0) 6 35 (sharingRaw 1)
     = Inr (storedDB [0 \<mapsto> metaRoot, 5 \<mapsto> entry (valueNode [9]) 1 1 0 6, 6 \<mapsto> entry (sharingRaw 1) 35 0 5 0] 6 100 0)"
    by (simp add: d sharing_forChilds) (auto simp: fun_eq_iff)
  show "insertNode ref_geth (storedDB [0 \<mapsto> metaRoot, 5 \<mapsto> entry (valueNode [9]) 1 1 0 6, 6 \<mapsto> entry (sharingRaw 1) 35 0 5 0] 6 100 0) 7 35 (sharingRaw 2)
     = Inr (storedDB [0 \<mapsto> metaRoot, 5 \<mapsto> entry (valueNode [9]) 1 2 0 6, 6 \<mapsto> entry (sharingRaw 1) 35 0 5 7, 7 \<mapsto> entry (sharingRaw 2) 35 0 6 0] 7 167 0)"
    by (simp add: d sharing_forChilds) (auto simp: fun_eq_iff)
qed

lemma shared_referenced:
  "\<exists>d. Reference (storedDB [0 \<mapsto> metaRoot, 5 \<mapsto> entry (valueNode [9]) 1 2 0 6, 6 \<mapsto> entry (sharingRaw 1) 35 0 5 7, 7 \<mapsto> entry (sharingRaw 2) 35 0 6 0] 7 167 0) 6 0
     = Inr d \<and> Reference d 7 0 = Inr sharedDB"
  by (simp add: Reference_def reference_def openChildren_def countUp_def sharedDB_def storedDB_def entry_def changeNode_def addParent_def Let_def metaRoot_def)
    (auto simp: fun_eq_iff)

lemma shared_kids: "childHashes ref_geth (\<lambda>_. []) sharedDB g = (if g = 6 \<or> g = 7 then [5] else [])"
  by (auto simp: childHashes_def sharedDB_def storedDB_def entry_def sharing_forChilds) (simp_all add: forChilds_def metaRoot_def)

lemma shared_dom: "dom (db_dirties sharedDB) = {0, 5, 6, 7}"
  by (auto simp: sharedDB_def storedDB_def)

lemma shared_counts:
  "parentsOf sharedDB 6 = 1" "extRefs sharedDB 0 6 = 1" "extRefs sharedDB 0 7 = 1" "extRefs sharedDB 0 5 = 0" "parentsOf sharedDB 7 = 1" "parentsOf sharedDB 5 = 2"
  by (simp_all add: parentsOf_def extRefs_def refs_of_def sharedDB_def storedDB_def entry_def)

lemma shared_facts:
  "flush_list {} sharedDB [5, 6, 7]" "ranked ref_geth (\<lambda>_. []) (\<lambda>h. if h = 5 then 0 else 1) sharedDB"
  "counted ref_geth (\<lambda>_. []) sharedDB" "sized sharedDB" "dom (db_dirties sharedDB) = {0, 5, 6, 7}"
proof -
  show d: "dom (db_dirties sharedDB) = {0, 5, 6, 7}" by (rule shared_dom)
  show "flush_list {} sharedDB [5, 6, 7]"
    unfolding flush_list_def d by (simp add: links_def nxt_def prv_def) (simp add: sharedDB_def storedDB_def entry_def insert_commute)
  show "ranked ref_geth (\<lambda>_. []) (\<lambda>h. if h = 5 then 0 else 1) sharedDB"
    unfolding ranked_def d by (auto simp: sharedDB_def storedDB_def entry_def sharing_forChilds split: if_splits) (simp add: forChilds_def)
  have "dom (db_dirties sharedDB) - {0} = {5, 6, 7}" using d by auto
  then show "counted ref_geth (\<lambda>_. []) sharedDB" by (simp add: counted_def shared_kids shared_counts)
  have "dom (nodes_of sharedDB) - {0} = {5, 6, 7}" unfolding dom_nodes d by auto
  then show "sized sharedDB" by (simp add: sized_def nodes_of_def) (simp add: sharedDB_def storedDB_def entry_def)
qed

theorem Dereference_collects_witness:
  "\<exists>db' ys. Dereference ref_geth (\<lambda>_. []) sharedDB 6 = okR db' \<and> flush_list {} db' ys \<and> sized db'
    \<and> dom (db_dirties db') = {0, 5, 7} \<and> parentsOf db' 5 = 1 \<and> counted ref_geth (\<lambda>_. []) db'"
proof -
  let ?ords = "\<lambda>_. [] :: hash list" and ?d = sharedDB
  note f = shared_facts
  obtain db' ys where c: "Dereference ref_geth ?ords ?d 6 = okR db'" "flush_list {} db' ys" "sized db'" "nodes_of db' \<subseteq>\<^sub>m nodes_of ?d"
    "\<And>c. c \<in> dom (db_dirties ?d) - {0} \<Longrightarrow> (c \<notin> dom (db_dirties db') \<longleftrightarrow> 0 < taken (childHashes ref_geth ?ords ?d) [6] ?d db' c
        \<and> parentsOf ?d c \<le> taken (childHashes ref_geth ?ords ?d) [6] ?d db' c)"
    "\<And>g c. g \<in> dom (db_dirties db') \<Longrightarrow> extRefs db' g c = extRefs ?d g c - (if g = 0 \<and> c = 6 then 1 else 0)"
    "counted ref_geth ?ords db'" "\<And>c. c \<in> dom (db_dirties ?d) - {0} \<Longrightarrow> referred ref_geth ?ords db' c \<Longrightarrow> c \<in> dom (db_dirties db')"
    using Dereference_collects [OF f(1,2), of 6] f(3,4) shared_counts(2) unfolding Let_def by auto
  have z: "0 \<in> dom (db_dirties db')" using c(2) by (simp add: flush_list_def)
  have e: "extRefs db' 0 7 = 1" "extRefs db' 0 5 = 0" using c(6) [OF z] shared_counts by simp_all
  then have 7: "7 \<in> dom (db_dirties db')" using c(8) [of 7] f(5) by (simp add: referred_def)
  have k: "childHashes ref_geth ?ords db' 7 = [5]" using childHashes_kept [OF c(4) 7] shared_kids by simp
  have "referred ref_geth ?ords db' 5" unfolding referred_def using 7 k by (intro disjI2 bexI [of _ 7]) simp_all
  then have 5: "5 \<in> dom (db_dirties db')" using c(8) [of 5] f(5) by simp
  have 6: "6 \<notin> dom (db_dirties db')" using c(5) [of 6] f(5) shared_counts(1) by (simp add: taken_def)
  have sub: "dom (db_dirties db') \<subseteq> {0, 5, 6, 7}" using map_le_implies_dom_le [OF c(4)] f(5) by simp
  then have d: "dom (db_dirties db') = {0, 5, 7}" using z 5 6 7 by auto
  have "dom (db_dirties db') - {0} = {5, 7}" using d by auto
  then have "parentsOf db' 5 = count_list (childHashes ref_geth ?ords db' 5) 5 + 1"
    using c(7) 5 e(2) k by (simp add: counted_def)
  then have "parentsOf db' 5 = 1" using childHashes_kept [OF c(4) 5] shared_kids by simp
  then show ?thesis using c(1-3,7) d by blast
qed

text \<open>C38: The accounting of memory: inserting a new node adds its size and the length of its hash to \<open>dirtiesSize\<close> only while the size is
  below 65504; from there on the sum, which is formed in sixteen bits, wraps and is 65536 short.\<close>

theorem insert_size_bound:
  assumes "flush_list {} db xs" "sized db" "forGatherChildren G n = Inr hs" "h \<notin> dom (db_dirties db)" "0 \<le> sz" "sz < 65536"
  shows "\<exists>db'. insertNode G db h sz n = Inr db' \<and> flush_list {} db' (xs @ [h])
    \<and> dirtiesSize db' = (\<Sum>g \<in> dom (nodes_of db') - {0}. 32 + uint (snd (the (nodes_of db' g)))) - (if sz < 65504 then 0 else 65536)"
proof -
  obtain db' where d: "insertNode G db h sz n = Inr db'" "flush_list {} db' (xs @ [h])"
    "nodes_of db' = (nodes_of db)(h \<mapsto> (n, word_of_int sz))" "dirtiesSize db' = dirtiesSize db + uint (32 + (word_of_int sz :: 16 word))"
    using insertNode_ok [OF assms(1,3,4)] by blast
  have z: "0 \<in> dom (db_dirties db)" "finite (dom (nodes_of db))" using assms(1) by (auto simp: flush_list_def)
  have h: "h \<notin> dom (nodes_of db) - {0}" "h \<noteq> 0" using assms(4) z(1) by auto
  have "dom (nodes_of db') - {0} = insert h (dom (nodes_of db) - {0})" using d(3) h(2) by (auto simp del: dom_nodes)
  then have "(\<Sum>g \<in> dom (nodes_of db') - {0}. 32 + uint (snd (the (nodes_of db' g)))) =
      32 + uint (word_of_int sz :: 16 word) + (\<Sum>g \<in> dom (nodes_of db) - {0}. 32 + uint (snd (the (nodes_of db' g))))"
    using z(2) h(1) d(3) by (simp del: dom_nodes add: sum.insert)
  moreover have "(\<Sum>g \<in> dom (nodes_of db) - {0}. 32 + uint (snd (the (nodes_of db' g)))) = dirtiesSize db"
    unfolding assms(2) [unfolded sized_def] by (rule sum.cong) (use h(1) d(3) in auto)
  moreover have "uint (word_of_int sz :: 16 word) = sz" using assms(5,6) by (simp add: uint_word_of_int)
  moreover have "uint (32 + (word_of_int sz :: 16 word)) = (32 + sz) mod 65536" by (simp add: uint_word_arith_bintrs uint_word_of_int mod_simps take_bit_eq_mod)
  moreover have "(32 + sz) mod 65536 = (if sz < 65504 then 32 + sz else 32 + sz - 65536)"
    using assms(5,6) by (cases "sz < 65504") (simp_all add: mod_pos_geq)
  ultimately show ?thesis using d(1,2,4) by (auto split: if_splits)
qed

theorem insert_size_bound_witness:
  "\<exists>db'. insertNode ref_geth emptyDB 5 65510 (valueNode [9]) = Inr db' \<and> dirtiesSize db' = (\<Sum>g \<in> dom (nodes_of db') - {0}. 32 + uint (snd (the (nodes_of db' g)))) - 65536"
  using insert_size_bound [OF emptyDB_facts(1,2), of ref_geth "valueNode [9]" "[]" 5 65510]
  by (auto simp: emptyDB_def NewDatabase_def NewDatabaseWithConfig_def)

end
