(* ===== verification/CachingDB.thy ===== *)
theory CachingDB
  imports NodeStore CodeCache CidStorage
begin

text \<open>
  The state database of \<open>trie_by_cid/state/database.go\<close>: tries over the node database, and contract code from the block
  store through two caches. It implements the \<open>Database\<close> interface the \<open>StateDB\<close> uses. \<open>DiskDB\<close> and \<open>TrieDB\<close> are the
  field selectors. The eviction policies of the caches are parameters, as is the block store.
\<close>

section \<open>The implementation\<close>

record codeStore = blockStore +
  keepCode :: "(hash \<rightharpoonup> bytes) \<Rightarrow> hash set"
  keepSize :: "(hash \<rightharpoonup> int) \<Rightarrow> hash set"

record cachingDB =
  codeSizeCache :: "hash \<rightharpoonup> int"
  codeCache :: "hash \<rightharpoonup> bytes"
  triedb :: nodeDB

definition NewDatabaseWithNodeDB :: "nodeDB \<Rightarrow> cachingDB" where
  "NewDatabaseWithNodeDB tdb = \<lparr>codeSizeCache = Map.empty, codeCache = Map.empty, triedb = tdb\<rparr>"

definition NewCachingDBWithConfig ::
    "(string \<Rightarrow> hash \<rightharpoonup> bytes) \<Rightarrow> (hash \<Rightarrow> bytes option) \<Rightarrow> Config option \<Rightarrow> cachingDB" where
  "NewCachingDBWithConfig loadFile preimageDisk config =
     \<lparr>codeSizeCache = Map.empty, codeCache = Map.empty, triedb = NewDatabaseWithConfig loadFile preimageDisk config\<rparr>"

definition NewCachingDB :: "(string \<Rightarrow> hash \<rightharpoonup> bytes) \<Rightarrow> (hash \<Rightarrow> bytes option) \<Rightarrow> cachingDB" where
  "NewCachingDB loadFile preimageDisk = NewCachingDBWithConfig loadFile preimageDisk None"

text \<open>The multicodec numbers of \<open>eth-state-trie\<close> and \<open>eth-storage-trie\<close>.\<close>

definition StateTrieCodec :: u64 where
  "StateTrieCodec = 0x96"

definition StorageTrieCodec :: u64 where
  "StorageTrieCodec = 0x98"

definition caching_OpenTrie :: "geth \<Rightarrow> 'z blockStore_scheme \<Rightarrow> cachingDB \<Rightarrow> hash \<Rightarrow> panic + trieError + StateTrie" where
  "caching_OpenTrie G P db rt =
     NewStateTrie G (StateTrieID rt) (GetReader G P (triedb db)) (db_preimages (triedb db) \<noteq> None) StateTrieCodec"

definition caching_OpenStorageTrie ::
    "geth \<Rightarrow> 'z blockStore_scheme \<Rightarrow> cachingDB \<Rightarrow> hash \<Rightarrow> hash \<Rightarrow> hash \<Rightarrow> panic + trieError + StateTrie" where
  "caching_OpenStorageTrie G P db stateRoot addrHsh rt =
     NewStateTrie G (StorageTrieID stateRoot addrHsh rt) (GetReader G P (triedb db)) (db_preimages (triedb db) \<noteq> None) StorageTrieCodec"

text \<open>Every trie of the model is a \<open>StateTrie\<close>, so the panic on other types has no counterpart.\<close>

definition caching_CopyTrie :: "StateTrie \<Rightarrow> StateTrie" where
  "caching_CopyTrie t = StateTrie_Copy t"

definition caching_ContractCode :: "codeStore \<Rightarrow> cachingDB \<Rightarrow> hash \<Rightarrow> (bytes option \<times> goerr option) \<times> cachingDB" where
  "caching_ContractCode P db codeHash =
     (let hit = (case codeCache db codeHash of None \<Rightarrow> [] | Some c \<Rightarrow> c)
      in if length hit > 0 then ((Some hit, None), db)
         else
           (case Keccak256ToCid P ipld_RawBinary (hash_bytes codeHash) of
              Inl e \<Rightarrow> ((None, Some e), db)
            | Inr c \<Rightarrow>
                (case diskGet P c of
                   (_, Some e) \<Rightarrow> ((None, Some e), db)
                 | (cde, None) \<Rightarrow>
                     (if length cde > 0
                      then let cc = (codeCache db)(codeHash \<mapsto> cde);
                               sc = (codeSizeCache db)(codeHash \<mapsto> int (length cde))
                           in ((Some cde, None), db\<lparr>codeCache := cc |` keepCode P cc, codeSizeCache := sc |` keepSize P sc\<rparr>)
                      else ((None, Some notFound), db)))))"

definition caching_ContractCodeSize :: "codeStore \<Rightarrow> cachingDB \<Rightarrow> hash \<Rightarrow> (int \<times> goerr option) \<times> cachingDB" where
  "caching_ContractCodeSize P db codeHash =
     (case codeSizeCache db codeHash of
        Some hit \<Rightarrow> ((hit, None), db)
      | None \<Rightarrow>
          (let ((cde, err), db1) = caching_ContractCode P db codeHash
           in ((case cde of None \<Rightarrow> 0 | Some c \<Rightarrow> int (length c), err), db1)))"

text \<open>The interface. Calls change the caches only, which change no answer.\<close>

definition as_Database :: "geth \<Rightarrow> codeStore \<Rightarrow> cachingDB \<Rightarrow> Database" where
  "as_Database G P db =
     \<lparr>OpenTrie = caching_OpenTrie G P db, OpenStorageTrie = caching_OpenStorageTrie G P db, CopyTrie = caching_CopyTrie,
      db_ContractCode = (\<lambda>h. fst (caching_ContractCode P db h)), db_ContractCodeSize = (\<lambda>h. fst (caching_ContractCodeSize P db h))\<rparr>"

section \<open>The code caches\<close>

definition storedCode :: "codeStore \<Rightarrow> hash \<Rightarrow> bytes option \<times> goerr option" where
  "storedCode P h =
     (case Keccak256ToCid P ipld_RawBinary (hash_bytes h) of
        Inl e \<Rightarrow> (None, Some e)
      | Inr c \<Rightarrow> (case diskGet P c of (_, Some e) \<Rightarrow> (None, Some e) | (b, None) \<Rightarrow> if b = [] then (None, Some notFound) else (Some b, None)))"

interpretation cid_code: code_caches "storedCode P" "caching_ContractCode P" "caching_ContractCodeSize P" codeCache codeSizeCache for P
  by unfold_locales (auto simp: caching_ContractCode_def caching_ContractCodeSize_def sizeAnswer_def storedCode_def Let_def restrict_map_def split_def
      split: sum.splits if_splits option.splits)

text \<open>So the answers for contract code are those of the block store, whatever was asked before.\<close>

lemma as_Database_code:
  assumes "cid_code.sound P db"
  shows "db_ContractCode (as_Database G P db) = storedCode P" "db_ContractCodeSize (as_Database G P db) h = sizeAnswer (storedCode P h)"
  using cid_code.code_answer [OF assms] cid_code.size_answer [OF assms] by (simp_all add: as_Database_def fun_eq_iff)

lemma sound_new: "cid_code.sound P (NewDatabaseWithNodeDB tdb)"
  by (simp add: cid_code.sound_def NewDatabaseWithNodeDB_def)

section \<open>Committed accounts\<close>

definition storedObject :: "geth \<Rightarrow> accountCodec \<Rightarrow> (bytes \<rightharpoonup> bytes) \<Rightarrow> address \<Rightarrow> cidObject option" where
  "storedObject G C mm a =
     (case mm (hashKey G (address_bytes a)) of
        None \<Rightarrow> None
      | Some blob \<Rightarrow> (case decodeAccount C blob of (acc, None) \<Rightarrow> Some (newObject G a (accountOf acc)) | (_, Some _) \<Rightarrow> None))"

lemma opened_accounts:
  assumes "New E h None = Inr (Inr s)" "content G (trie (db_trie s)) mm"
  shows "\<exists>s'. getStateObject G E s a = okR (storedObject G (codec E) mm a, s')"
proof -
  have s: "stateObjects s a = None" "snapLookup G s a = None"
    using assms(1) by (auto simp: New_def snapLookup_def Let_def split: sum.splits)
  obtain t' where "TryGet G (trie (db_trie s)) (hashKey G (address_bytes a)) = okR ((mm (hashKey G (address_bytes a)), None), t')"
    using content_get [OF assms(2)] by blast
  then show ?thesis
    using s by (simp add: getStateObject_def getDeletedStateObject_def TryGetAccount_def decodeResult_def storedObject_def newObject_def Let_def split_def
        split: option.split)
qed

lemma opened_trie:
  assumes "TrieOps.New G (StateTrieID h) (GetReader G P tdb) StateTrieCodec = Inr (Inr t)"
  shows "\<exists>s. New (E\<lparr>sdb := as_Database G P (db\<lparr>triedb := tdb\<rparr>)\<rparr>) h None = Inr (Inr s) \<and> trie (db_trie s) = t"
  using assms by (simp add: New_def as_Database_def caching_OpenTrie_def NewStateTrie_def Let_def)

lemma StateTrie_Commit_trie:
  assumes "Trie_Commit G order (trie t) cl = Inr (r, t2)"
  shows "\<exists>st' t'. StateTrie_Commit G keys order st t cl = Inr (r, st', t')"
proof -
  have "trie (getSecKeyCache t) = trie t" by (simp add: getSecKeyCache_def)
  then show ?thesis using assms by (cases "secKeyCache (getSecKeyCache t) = Map.empty") (simp_all add: StateTrie_Commit_def Let_def)
qed

text \<open>C12: Committed accounts are read back. Take an account trie over the node database, with whatever was written to it: \<open>Commit\<close> returns the root
  of its content and a node set; once the node database has taken the set in by \<open>Update\<close>, \<open>New\<close> opens a \<open>StateDB\<close> at that root, and the
  object it finds at every address is the one whose account was written there. Excluded are collisions of the hash function.\<close>

theorem accounts_persist:
  assumes "secured G t mm" "reader (trie t) = db_reader G P (triedb db) StateTrieCodec own" "small_content mm"
    and "flush_list {} (triedb db) xs" "honest G P (triedb db) StateTrieCodec"
  shows "\<exists>h S st' t'. StateTrie_Commit G keys order st t False = Inr ((h, S), st', t') \<and> is_root G mm h
    \<and> (\<forall>N paths. S = Some N \<longrightarrow> range_of (paths (ns_owner N)) (dom (ns_nodes N)) \<longrightarrow>
         no_collision G (db_blobs G P (triedb db) StateTrieCodec \<union> set_blobs G N) \<longrightarrow> 0 \<notin> keccak256 G ` set_blobs G N \<longrightarrow>
         (h = 0 \<or> h = EmptyRootHash G \<longrightarrow> mm = Map.empty) \<longrightarrow>
         (\<exists>tdb' s. Update G (codec E) [ns_owner N] paths (triedb db) (NewWithNodeSet N) = Inr (None, tdb')
            \<and> New (E\<lparr>sdb := as_Database G P (db\<lparr>triedb := tdb'\<rparr>)\<rparr>) h None = Inr (Inr s)
            \<and> (\<forall>a. \<exists>s'. getStateObject G (E\<lparr>sdb := as_Database G P (db\<lparr>triedb := tdb'\<rparr>)\<rparr>) s a = okR (storedObject G (codec E) mm a, s'))))"
proof -
  let ?h = "rootHash G (root (trie t))"
  have du: "durable G (trie t) mm" "lawful G (reader (trie t))" "small_content (foldl write_map mm [])"
    using assms(1,3) by (simp_all add: secured_def)
  obtain S t2 where c: "Trie_Commit G order (trie t) False = Inr ((?h, S), t2)"
    and re: "\<And>N i paths. S = Some N \<Longrightarrow> range_of (paths (ns_owner N)) (dom (ns_nodes N)) \<Longrightarrow>
         no_collision G (db_blobs G P (triedb db) StateTrieCodec \<union> set_blobs G N) \<Longrightarrow> 0 \<notin> keccak256 G ` set_blobs G N \<Longrightarrow>
         id_Root i = ?h \<Longrightarrow> (id_Root i = 0 \<or> id_Root i = EmptyRootHash G \<longrightarrow> root (trie t) = nilNode) \<Longrightarrow>
         (\<exists>db' t3. Update G (codec E) [ns_owner N] paths (triedb db) (NewWithNodeSet N) = Inr (None, db')
            \<and> TrieOps.New G i (GetReader G P db') StateTrieCodec = Inr (Inr t3) \<and> content G t3 mm)"
    using updated_reopens [OF du assms(2,4,5), of order "codec E"] by simp metis
  have e: "mm = Map.empty \<longleftrightarrow> root (trie t) = nilNode" using content_empty_iff du(1) by (auto simp: durable_def)
  obtain st' t' where "StateTrie_Commit G keys order st t False = Inr ((?h, S), st', t')"
    using StateTrie_Commit_trie [OF c] by blast
  moreover have "is_root G mm ?h" using assms(1) by (auto simp: is_root_def)
  moreover have "\<exists>tdb' s. Update G (codec E) [ns_owner N] paths (triedb db) (NewWithNodeSet N) = Inr (None, tdb')
      \<and> New (E\<lparr>sdb := as_Database G P (db\<lparr>triedb := tdb'\<rparr>)\<rparr>) ?h None = Inr (Inr s)
      \<and> (\<forall>a. \<exists>s'. getStateObject G (E\<lparr>sdb := as_Database G P (db\<lparr>triedb := tdb'\<rparr>)\<rparr>) s a = okR (storedObject G (codec E) mm a, s'))"
    if a: "S = Some N" "range_of (paths (ns_owner N)) (dom (ns_nodes N))" "no_collision G (db_blobs G P (triedb db) StateTrieCodec \<union> set_blobs G N)"
      "0 \<notin> keccak256 G ` set_blobs G N" "?h = 0 \<or> ?h = EmptyRootHash G \<longrightarrow> mm = Map.empty" for N paths
  proof -
    obtain tdb' t3 where u: "Update G (codec E) [ns_owner N] paths (triedb db) (NewWithNodeSet N) = Inr (None, tdb')"
      "TrieOps.New G (StateTrieID ?h) (GetReader G P tdb') StateTrieCodec = Inr (Inr t3)" "content G t3 mm"
      using re [of N paths "StateTrieID ?h"] a e by (auto simp: StateTrieID_def)
    obtain s where s: "New (E\<lparr>sdb := as_Database G P (db\<lparr>triedb := tdb'\<rparr>)\<rparr>) ?h None = Inr (Inr s)" "trie (db_trie s) = t3"
      using opened_trie [OF u(2)] by blast
    then show ?thesis using u opened_accounts [OF s(1), of G mm] by auto
  qed
  ultimately show ?thesis by blast
qed

definition bareCodeStore :: codeStore where
  "bareCodeStore = \<lparr>multihashEncode = Inr, newCidV1 = (\<lambda>_ b. b), diskGet = (\<lambda>_. ([], Some notFound)), keepClean = (\<lambda>_. {}),
     keepCode = (\<lambda>_. {}), keepSize = (\<lambda>_. {})\<rparr>"

definition bareDB :: cachingDB where
  "bareDB = NewCachingDB (\<lambda>_ _. None) (\<lambda>_. None)"

lemma bareDB_facts: "triedb bareDB = emptyDB" "read G bareCodeStore emptyDB c h = None"
  by (simp_all add: bareDB_def NewCachingDB_def NewCachingDBWithConfig_def emptyDB_def NewDatabase_def NewDatabaseWithConfig_def read_eq nodes_of_def
      disk_def bareCodeStore_def Keccak256ToCid_def)

theorem accounts_persist_witness:
  "\<exists>t N tdb' s. secured ref_geth t [[1] \<mapsto> [7]] \<and> StateTrieCodec = 0x96
     \<and> Update ref_geth sampleCodec [0] (\<lambda>_. [[]]) (triedb bareDB) (NewWithNodeSet N) = Inr (None, tdb')
     \<and> New (emptyEnv\<lparr>sdb := as_Database ref_geth bareCodeStore (bareDB\<lparr>triedb := tdb'\<rparr>)\<rparr>) 0xc482200107 None = Inr (Inr s)"
proof -
  define R where "R = db_reader ref_geth bareCodeStore emptyDB StateTrieCodec 0"
  define t where "t = \<lparr>trie = (leafTrie 7)\<lparr>reader := R\<rparr>, st_preimages = False, secKeyCache = Map.empty, ownsCache = False\<rparr>"
  note b = emptyDB_blank [OF R_def bareDB_facts(2)]
  have t: "secured ref_geth t [[1] \<mapsto> [7]]" "reader (trie t) = db_reader ref_geth bareCodeStore (triedb bareDB) StateTrieCodec 0"
    using durable_step [OF b(1), of "Put [1] [7]"] b(2,3) by (auto simp: secured_def t_def R_def bareDB_facts)
  have db: "flush_list {} (triedb bareDB) []" "honest ref_geth bareCodeStore (triedb bareDB) StateTrieCodec" "db_blobs ref_geth bareCodeStore (triedb bareDB) StateTrieCodec = {}"
    by (simp_all add: emptyDB_facts honest_def db_blobs_def bareDB_facts)
  have sm: "small_content [[1 :: byte] \<mapsto> [7 :: byte]]" by (simp add: small_content_def)
  obtain h S st' t' where c: "StateTrie_Commit ref_geth [] [] (newPreimageStore (\<lambda>_. None)) t False = Inr ((h, S), st', t')"
    and re: "\<And>N paths. S = Some N \<Longrightarrow> range_of (paths (ns_owner N)) (dom (ns_nodes N)) \<Longrightarrow> no_collision ref_geth (set_blobs ref_geth N) \<Longrightarrow>
       0 \<notin> keccak256 ref_geth ` set_blobs ref_geth N \<Longrightarrow> (h = 0 \<or> h = EmptyRootHash ref_geth \<longrightarrow> [[1 :: byte] \<mapsto> [7 :: byte]] = Map.empty) \<Longrightarrow>
       \<exists>tdb' s. Update ref_geth (codec emptyEnv) [ns_owner N] paths (triedb bareDB) (NewWithNodeSet N) = Inr (None, tdb')
         \<and> New (emptyEnv\<lparr>sdb := as_Database ref_geth bareCodeStore (bareDB\<lparr>triedb := tdb'\<rparr>)\<rparr>) h None = Inr (Inr s)"
    using accounts_persist [OF t sm db(1,2), of "[]" "[]" "newPreimageStore (\<lambda>_. None)" emptyEnv] unfolding db(3) Un_empty_left
    by (elim exE conjE) (rule that, assumption, blast)
  obtain N u where "Trie_Commit ref_geth [] (trie t) False = Inr ((0xc482200107, Some N), u)" "ns_owner N = 0"
    "ns_nodes N = [[] \<mapsto> \<lparr>mn_hash = 0xc482200107, mn_size = 7, mn_node = rawShortNode [0x20, 1] (valueNode [7])\<rparr>]"
    using leafTrie_commits [of R] by (auto simp: t_def)
  then have N: "h = 0xc482200107" "S = Some N" "ns_owner N = 0" "dom (ns_nodes N) = {[]}" "set_blobs ref_geth N = {[0xc4, 0x82, 0x20, 1, 7]}"
    using StateTrie_Commit_trie [of ref_geth "[]" t False _ u "[]" "newPreimageStore (\<lambda>_. None)"] c
    by (auto simp: set_blobs_def deletedNode_def memoryNode_rlp_def nodeToBytes_def leaf_encoded)
  from re [OF N(2), of "\<lambda>_. [[]]"] t(1) show ?thesis
    by (auto simp: N no_collision_def leaf_hashed range_of_def emptyEnv_def StateTrieCodec_def ref_geth_def [THEN arg_cong, of EmptyRootHash])
qed

end
