(* ===== verification/TrieProof.thy ===== *)
theory TrieProof
  imports TrieDurable
begin

text \<open>
  Merkle proofs, \<open>trie_by_cid/trie/proof.go\<close>, with \<open>trieReader.node\<close> of \<open>trie_reader.go\<close>. A proof is the sequence of the pairs that
  are put into the proof database. Its verification (\<open>VerifyProof\<close>, of go-ethereum) is a lookup in a trie
  whose only nodes are those of the proof; what is shown here is that such a lookup, from the root hash alone, answers
  as the trie itself.
\<close>

section \<open>Reading nodes\<close>

fun decodeErrOf :: "decErr \<Rightarrow> goerr" where
  "decodeErrOf (RlpError e) = e"
| "decodeErrOf (SplitListError e) = Wrap ''decode error'' [] e"
| "decodeErrOf (InvalidValueNode e) = Wrap ''invalid value node'' [] e"
| "decodeErrOf (DecodeError e path) = Wrap ''decode path'' [] (decodeErrOf e)"
| "decodeErrOf _ = Err ''invalid node''"

text \<open>The only \<open>Reader\<close> is \<open>hashReader\<close>, whose \<open>Node\<close> decodes what its \<open>NodeBlob\<close> returns.\<close>

definition trieReader_node :: "geth \<Rightarrow> trieReader \<Rightarrow> bytes \<Rightarrow> hash \<Rightarrow> trieError + node" where
  "trieReader_node G r path h =
     (if (case rd_banned r of None \<Rightarrow> False | Some b \<Rightarrow> path \<in> b)
      then Inl (MissingNodeError (rd_owner r) h path None)
      else case rd_reader r of
             None \<Rightarrow> Inl (MissingNodeError (rd_owner r) h path None)
           | Some rdr \<Rightarrow>
               (case rdr (rd_owner r) path h of
                  (_, Some e) \<Rightarrow> Inl (MissingNodeError (rd_owner r) h path (Some e))
                | (blob, None) \<Rightarrow>
                    (case decodeNode G (Some (hash_bytes h)) blob of
                       Inl e \<Rightarrow> Inl (MissingNodeError (rd_owner r) h path (Some (decodeErrOf e)))
                     | Inr n \<Rightarrow> if n = nilNode then Inl (MissingNodeError (rd_owner r) h path None) else Inr n)))"

section \<open>Prove\<close>

text \<open>The first loop of \<open>Prove\<close>: the nodes on the path to the key.\<close>

partial_function (option) proveWalk ::
    "geth \<Rightarrow> trieReader \<Rightarrow> bytes \<Rightarrow> bytes \<Rightarrow> node \<Rightarrow> node list \<Rightarrow> (trieError + node list) res" where
  "proveWalk G R prf key tn nodes =
     (if key = [] \<or> tn = nilNode then okR (Inr nodes)
      else case tn of
        shortNode nk nv nf \<Rightarrow>
          (if length key < length nk \<or> nk \<noteq> take (length nk) key then proveWalk G R prf key nilNode (nodes @ [tn])
           else proveWalk G R (prf @ nk) (drop (length nk) key) nv (nodes @ [tn]))
      | fullNode cs nf \<Rightarrow>
          (if unat (hd key) \<ge> length cs then Some (Inl IndexOutOfRange)
           else proveWalk G R (prf @ [hd key]) (tl key) (cs ! unat (hd key)) (nodes @ [tn]))
      | hashNode h \<Rightarrow>
          (case trieReader_node G R prf (BytesToHash G h) of
             Inl e \<Rightarrow> okR (Inl e)
           | Inr n \<Rightarrow> proveWalk G R prf key n nodes)
      | _ \<Rightarrow> Some (Inl invalidNode))"

text \<open>The second loop: what is put into the proof database. \<open>i\<close> counts the nodes.\<close>

fun provePuts :: "geth \<Rightarrow> nat \<Rightarrow> u64 \<Rightarrow> node list \<Rightarrow> panic + (bytes \<times> bytes) list" where
  "provePuts G i fromLevel [] = Inr []"
| "provePuts G i fromLevel (n # ns) =
     (if fromLevel > 0 then provePuts G (i + 1) (fromLevel - 1) ns
      else case proofHash G n of
        Inl p \<Rightarrow> Inl p
      | Inr (n', hn) \<Rightarrow>
          (let enc = nodeToBytes G n';
               ok = (case hn of hashNode _ \<Rightarrow> True | _ \<Rightarrow> False);
               h = (case (if ok then hn else hashData G enc) of hashNode b \<Rightarrow> b | _ \<Rightarrow> [])
           in case provePuts G (i + 1) 0 ns of
                Inl p \<Rightarrow> Inl p
              | Inr ps \<Rightarrow> Inr (if ok \<or> i = 0 then (h, enc) # ps else ps)))"

definition Trie_Prove :: "geth \<Rightarrow> Trie \<Rightarrow> bytes \<Rightarrow> u64 \<Rightarrow> (trieError + (bytes \<times> bytes) list) res" where
  "Trie_Prove G t key fromLevel =
     bindR (proveWalk G (reader t) [] (keybytesToHex key) (root t) []) (\<lambda>r.
       case r of Inl e \<Rightarrow> okR (Inl e) | Inr nodes \<Rightarrow> Some (map_sum id Inr (provePuts G 0 fromLevel nodes)))"

definition StateTrie_Prove :: "geth \<Rightarrow> StateTrie \<Rightarrow> bytes \<Rightarrow> u64 \<Rightarrow> (trieError + (bytes \<times> bytes) list) res" where
  "StateTrie_Prove G t key fromLevel = Trie_Prove G (trie t) key fromLevel"

section \<open>The proof elements\<close>

text \<open>The nodes \<open>Prove\<close> collects: short and full nodes with sound caches.\<close>

definition provable :: "geth \<Rightarrow> node \<Rightarrow> bool" where
  "provable G x \<longleftrightarrow> branch x \<and> live x \<and> (\<exists>force. sealed G force x)"

definition element :: "geth \<Rightarrow> node \<Rightarrow> bytes \<times> bytes" where
  "element G x = (storedHash G x, encode G (collapse G x))"

lemma proofHash_element:
  assumes "rlp G" "provable G x"
  shows "\<exists>n hn. proofHash G x = Inr (n, hn) \<and> nodeToBytes G n = encode G (collapse G x)
    \<and> (if stored G x then hn = hashNode (storedHash G x) else hn = n \<and> (\<forall>b. hn \<noteq> hashNode b))"
proof (cases x)
  case (shortNode k v f)
  then have v: "live v" "sealed G False v" using assms(2) by (auto simp: provable_def filled_sealed)
  then obtain h c where h: "hashShortNodeChildren G k v f = Inr (shortNode (compactKey k) h f, shortNode k c f)"
    "encode G h = encode G (embed G (collapse G v))"
    using rlp.short_step [OF assms(1) rlp.hasher_correct [OF assms(1)], of k v f] unfolding rlp.short_goal_def [OF assms(1)] by blast
  then have "encode G (shortNode (compactKey k) h f) = encode G (collapse G x)" using shortNode by simp
  then show ?thesis using h(1) shortNode
    by (auto simp: proofHash_def nodeToBytes_def shortnodeToHash_def hashData_def stored_def storedHash_def Let_def simp del: encode.simps collapse.simps)
next
  case (fullNode cs f)
  have "\<forall>c \<in> set cs. live c \<and> sealed G False c" using fullNode assms(2) by (auto simp: provable_def filled_sealed)
  moreover have "\<forall>j < length cs. 16 \<le> 0 + j \<longrightarrow> \<not> branch (cs ! j)"
  proof (intro allI impI)
    fix j assume "j < length cs" "16 \<le> 0 + j"
    then have "j = 16" using assms(2) fullNode by (simp add: provable_def)
    then show "\<not> branch (cs ! j)" using assms(2) fullNode by (simp add: provable_def)
  qed
  ultimately obtain hs cc where h: "hashFullNodeChildren G 0 cs = Inr (hs, cc)" "map (encode G) hs = map (\<lambda>c. encode G (embed G (collapse G c))) cs"
    using rlp.full_all [OF assms(1) rlp.hasher_correct [OF assms(1)], of 0 cs] unfolding rlp.full_goal_def [OF assms(1)] by blast
  then have "encode G (fullNode hs f) = encode G (collapse G x)" using fullNode by (simp add: comp_def)
  then show ?thesis using h(1) fullNode
    by (auto simp: proofHash_def nodeToBytes_def fullnodeToHash_def hashData_def stored_def storedHash_def Let_def simp del: encode.simps collapse.simps)
qed (use assms(2) in \<open>auto simp: provable_def\<close>)

lemma provePuts_elements:
  assumes "rlp G" "\<forall>x \<in> set ns. provable G x"
  shows "provePuts G (Suc i) 0 ns = Inr (map (element G) (filter (stored G) ns))"
  using assms(2)
proof (induction ns arbitrary: i)
  case (Cons x ns)
  obtain n hn where "proofHash G x = Inr (n, hn)" "nodeToBytes G n = encode G (collapse G x)"
    "if stored G x then hn = hashNode (storedHash G x) else hn = n \<and> (\<forall>b. hn \<noteq> hashNode b)"
    using proofHash_element [OF assms(1)] Cons.prems by (meson list.set_intros(1))
  then show ?case using Cons.IH [of "Suc i"] Cons.prems
    by (auto simp: element_def Let_def split: if_splits node.splits)
qed simp

lemma provePuts_all:
  assumes "rlp G" "\<forall>x \<in> set (x # ns). provable G x"
  shows "provePuts G 0 0 (x # ns) = Inr (element G x # map (element G) (filter (stored G) ns))"
proof -
  obtain n hn where "proofHash G x = Inr (n, hn)" "nodeToBytes G n = encode G (collapse G x)"
    "if stored G x then hn = hashNode (storedHash G x) else hn = n \<and> (\<forall>b. hn \<noteq> hashNode b)"
    using proofHash_element [OF assms(1)] assms(2) by (meson list.set_intros(1))
  then show ?thesis using provePuts_elements [OF assms(1), of ns 0] assms(2)
    by (auto simp: element_def Let_def hashData_def storedHash_def split: if_splits node.splits)
qed

section \<open>Lookups over the proof\<close>

definition ref :: "geth \<Rightarrow> node \<Rightarrow> node" where
  "ref G n = (if stored G n then hashNode (storedHash G n) else reload G None n)"

definition has :: "geth \<Rightarrow> trieReader \<Rightarrow> node \<Rightarrow> bool" where
  "has G R x \<longleftrightarrow> (\<forall>q. onDisk G R q x)"

definition looks :: "geth \<Rightarrow> trieReader \<Rightarrow> node \<Rightarrow> bytes \<Rightarrow> bytes \<Rightarrow> bytes option \<Rightarrow> bool" where
  "looks G R n p s v \<longleftrightarrow> (\<forall>tr. \<exists>tr' n' d. tryGet G R tr n (p @ s) (length p) = Some (Returns tr' (v, n', d)))"

text \<open>\<open>ns\<close> are enough to look \<open>s\<close> up below \<open>n\<close>: in the node as it is stored, and from a reference to it.\<close>

definition suffices :: "geth \<Rightarrow> bytes \<Rightarrow> bytes \<Rightarrow> node \<Rightarrow> bytes option \<Rightarrow> node list \<Rightarrow> bool" where
  "suffices G p s n v ns \<longleftrightarrow>
     (\<forall>R'. (\<forall>x \<in> set ns. stored G x \<or> p = [] \<and> x = hd ns \<longrightarrow> has G R' x) \<longrightarrow>
        (branch n \<longrightarrow> (\<forall>h. looks G R' (reload G h n) p s v)) \<and> (p \<noteq> [] \<or> \<not> branch n \<longrightarrow> looks G R' (ref G n) p s v))"

definition walks :: "geth \<Rightarrow> trieReader \<Rightarrow> bytes \<Rightarrow> bytes \<Rightarrow> node \<Rightarrow> bytes option \<Rightarrow> node list \<Rightarrow> bool" where
  "walks G R p s n v ns \<longleftrightarrow> (\<forall>acc. proveWalk G R p s n acc = okR (Inr (acc @ ns))) \<and> (\<forall>x \<in> set ns. provable G x)
     \<and> (branch n \<longrightarrow> ns \<noteq> [] \<and> hd ns = n) \<and> suffices G p s n v ns"

lemma looks_stored:
  assumes "rlp G" "hash_laws G" "wfn G n" "branch n" "has G R n" "\<And>h. looks G R (reload G h n) p s v"
  shows "looks G R (hashNode (storedHash G n)) p s v"
  unfolding looks_def
proof
  fix tr
  have b: "nodeBlob R p (BytesToHash G (storedHash G n)) = Inr (encode G (collapse G n))"
    using assms(2,5) by (simp add: storedHash_def hash_laws_def has_def onDisk_def)
  let ?tr = "onRead tr p (encode G (collapse G n))"
  have r: "resolveAndTrack G R tr (storedHash G n) p = Returns ?tr (reload G (Some (storedHash G n)) n)"
    using b rlp.decode_stored [OF assms(1,3,4)] by (simp add: resolveAndTrack_def)
  obtain tr' n' d where "tryGet G R ?tr (reload G (Some (storedHash G n)) n) (p @ s) (length p) = Some (Returns tr' (v, n', d))"
    using assms(6) unfolding looks_def by blast
  then show "\<exists>tr' n' d. tryGet G R tr (hashNode (storedHash G n)) (p @ s) (length p) = Some (Returns tr' (v, n', d))"
    using r by (subst tryGet.simps) auto
qed

lemma looks_ref:
  assumes "rlp G" "hash_laws G" "wfn G n" "branch n" "stored G n \<Longrightarrow> has G R n" "\<And>h. looks G R (reload G h n) p s v"
  shows "looks G R (ref G n) p s v"
  using looks_stored [OF assms(1-4)] assms(5,6) by (simp add: ref_def)

lemma looks_short:
  assumes "prefix k s \<Longrightarrow> looks G R c (p @ k) (drop (length k) s) (m (drop (length k) s))"
  shows "looks G R (shortNode k c f) p s (prefixed k m s)"
  unfolding looks_def
proof
  fix tr
  show "\<exists>tr' n' d. tryGet G R tr (shortNode k c f) (p @ s) (length p) = Some (Returns tr' (prefixed k m s, n', d))"
  proof (cases "prefix k s")
    case False
    then show ?thesis by (subst tryGet.simps) (auto simp: prefix_take_drop prefixed_def)
  next
    case True
    then obtain s' where s: "s = k @ s'" by (auto simp: prefix_def)
    then obtain tr' n' d where "tryGet G R tr c ((p @ k) @ s') (length (p @ k)) = Some (Returns tr' (m s', n', d))"
      using assms [OF True] unfolding looks_def by (simp add: s) metis
    then show ?thesis by (subst tryGet.simps) (auto simp: s prefixed_def)
  qed
qed

lemma looks_full:
  assumes "looks G R (cs ! unat x) (p @ [x]) s (ms (unat x) s)" "unat x < length cs" "length cs = 17"
  shows "looks G R (fullNode cs f) p (x # s) (branching ms (x # s))"
  unfolding looks_def
proof
  fix tr
  obtain tr' n' d where "tryGet G R tr (cs ! unat x) ((p @ [x]) @ s) (length (p @ [x])) = Some (Returns tr' (ms (unat x) s, n', d))"
    using assms(1) unfolding looks_def by blast
  then show "\<exists>tr' n' d. tryGet G R tr (fullNode cs f) (p @ x # s) (length p) = Some (Returns tr' (branching ms (x # s), n', d))"
    using assms(2,3) by (subst tryGet.simps) (auto simp: nth_append branching_def)
qed

lemma suffices_branch:
  assumes "rlp G" "hash_laws G" "wfn G n" "branch n" "ns \<noteq> []" "hd ns = n"
    and "\<And>R' h. \<forall>x \<in> set (tl ns). stored G x \<longrightarrow> has G R' x \<Longrightarrow> looks G R' (reload G h n) p s v"
  shows "suffices G p s n v ns"
  unfolding suffices_def
proof (intro allI impI)
  fix R' assume h: "\<forall>x \<in> set ns. stored G x \<or> p = [] \<and> x = hd ns \<longrightarrow> has G R' x"
  then have l: "looks G R' (reload G h n) p s v" for h using assms(7) by (meson list.set_sel(2) assms(5))
  have "stored G n \<Longrightarrow> has G R' n" using h assms(5,6) by (metis hd_in_set)
  then show "(branch n \<longrightarrow> (\<forall>h. looks G R' (reload G h n) p s v)) \<and> (p \<noteq> [] \<or> \<not> branch n \<longrightarrow> looks G R' (ref G n) p s v)"
    using l looks_ref [OF assms(1-4)] assms(4) by auto
qed

lemma walks_short:
  assumes "rlp G" "hash_laws G" "wfn G (shortNode k c f)" "provable G (shortNode k c f)" "hex_key s" "k \<noteq> []"
    and "\<And>s'. s = k @ s' \<Longrightarrow> \<exists>ns. walks G R (p @ k) s' c (m s') ns"
  shows "\<exists>ns. walks G R p s (shortNode k c f) (prefixed k m s) ns"
proof (cases "prefix k s")
  case True
  then obtain s' where s: "s = k @ s'" by (auto simp: prefix_def)
  then obtain ns where ns: "walks G R (p @ k) s' c (m s') ns" using assms(7) by blast
  have "suffices G p s (shortNode k c f) (prefixed k m s) (shortNode k c f # ns)"
  proof (rule suffices_branch [OF assms(1-3)])
    fix R' h assume "\<forall>x \<in> set (tl (shortNode k c f # ns)). stored G x \<longrightarrow> has G R' x"
    then have "looks G R' (ref G c) (p @ k) s' (m s')" using ns assms(6) by (auto simp: walks_def suffices_def)
    then show "looks G R' (reload G h (shortNode k c f)) p s (prefixed k m s)"
      using looks_short [of k s G R' "ref G c" p m] s by (simp add: ref_def)
  qed auto
  moreover have "proveWalk G R p s (shortNode k c f) acc = okR (Inr (acc @ shortNode k c f # ns))" for acc
    using ns assms(5) s by (subst proveWalk.simps) (auto simp: walks_def)
  ultimately show ?thesis using ns assms(4) by (intro exI [of _ "shortNode k c f # ns"]) (auto simp: walks_def)
next
  case False
  have "suffices G p s (shortNode k c f) (prefixed k m s) [shortNode k c f]"
  proof (rule suffices_branch [OF assms(1-3)])
    show "looks G R' (reload G h (shortNode k c f)) p s (prefixed k m s)" for R' h
      using looks_short [of k s G R' "ref G c" p m] False by (simp add: ref_def)
  qed auto
  moreover have "proveWalk G R p s (shortNode k c f) acc = okR (Inr (acc @ [shortNode k c f]))" for acc
    using False assms(5) by (subst proveWalk.simps) (auto simp: prefix_take_drop proveWalk.simps [of _ _ _ _ nilNode])
  ultimately show ?thesis using assms(4) by (intro exI [of _ "[shortNode k c f]"]) (auto simp: walks_def)
qed

lemma walks_full:
  assumes "rlp G" "hash_laws G" "wfn G (fullNode cs f)" "provable G (fullNode cs f)" "length cs = 17" "unat x < 17"
    and "walks G R (p @ [x]) s (cs ! unat x) (ms (unat x) s) ns"
  shows "walks G R p (x # s) (fullNode cs f) (branching ms (x # s)) (fullNode cs f # ns)"
proof -
  have "suffices G p (x # s) (fullNode cs f) (branching ms (x # s)) (fullNode cs f # ns)"
  proof (rule suffices_branch [OF assms(1-3)])
    fix R' h assume "\<forall>y \<in> set (tl (fullNode cs f # ns)). stored G y \<longrightarrow> has G R' y"
    then have "looks G R' (ref G (cs ! unat x)) (p @ [x]) s (ms (unat x) s)" using assms(7) by (auto simp: walks_def suffices_def)
    then have "looks G R' (map (ref G) cs ! unat x) (p @ [x]) s (ms (unat x) s)" using assms(5,6) by simp
    then show "looks G R' (reload G h (fullNode cs f)) p (x # s) (branching ms (x # s))"
      using looks_full [of G R' "map (ref G) cs" x p s ms] assms(5,6) by (simp add: ref_def [abs_def])
  qed auto
  moreover have "proveWalk G R p (x # s) (fullNode cs f) acc = okR (Inr (acc @ fullNode cs f # ns))" for acc
    using assms(5-7) by (subst proveWalk.simps) (auto simp: walks_def)
  ultimately show ?thesis using assms(4,7) by (auto simp: walks_def)
qed

lemma walks_leaf:
  assumes "\<not> branch n" "s = [] \<or> n = nilNode" "\<And>R. looks G R n p s v" shows "walks G R p s n v []"
  using assms by (auto simp: walks_def suffices_def ref_def reload_leaf not_branch_stored proveWalk.simps)

lemma walks_hash:
  assumes "rlp G" "hash_laws G" "sound_reader G R" "resolves G R p h blob n" "length h = 32" "hex_key s" "wfn G n"
    and "walks G R p s n v ns"
  shows "walks G R p s (hashNode h) v ns"
proof -
  obtain n0 where n0: "branch n0" "wfn G n0" "n = reload G (Some h) n0" "storedHash G n0 = h" "p \<noteq> [] \<longrightarrow> stored G n0"
    using sound_resolves [OF assms(1,3,2,4,5)] by blast
  have c: "collapse G n = collapse G n0" "branch n" using collapse_reload [OF wfn_live [OF n0(2)] n0(1)] n0(1,3) by simp_all
  then have st: "storedHash G n = h" "p \<noteq> [] \<longrightarrow> stored G n" using n0 by (simp_all add: storedHash_def stored_def)
  have hd: "ns \<noteq> []" "hd ns = n" using assms(8) c(2) by (auto simp: walks_def)
  have "suffices G p s (hashNode h) v ns"
    unfolding suffices_def
  proof (intro allI impI conjI)
    fix R' assume d: "\<forall>x \<in> set ns. stored G x \<or> p = [] \<and> x = hd ns \<longrightarrow> has G R' x"
    then have "looks G R' (reload G g n) p s v" for g using assms(8) c(2) by (simp add: walks_def suffices_def)
    moreover have "has G R' n" using d hd st(2) by (metis hd_in_set)
    ultimately have "looks G R' (hashNode h) p s v" using looks_stored [OF assms(1,2,7) c(2)] st(1) by metis
    then show "looks G R' (ref G (hashNode h)) p s v" by (simp add: ref_def not_branch_stored)
  qed simp
  moreover have "trieReader_node G R p (BytesToHash G h) = Inr n"
  proof -
    have b: "nodeBlob R p (BytesToHash G h) = Inr blob" "mustDecodeNode G (Some h) blob = Inr n" using assms(4) by (auto simp: resolves_def)
    have "n \<noteq> nilNode" using c(2) by auto
    moreover have "hash_bytes (BytesToHash G h) = h" using assms(2,5) by (simp add: hash_laws_def)
    ultimately show ?thesis using b by (auto simp: nodeBlob_def trieReader_node_def mustDecodeNode_def split: option.splits prod.splits sum.splits if_splits)
  qed
  moreover have "s \<noteq> []" using assms(6) by auto
  ultimately show ?thesis using assms(8) by (auto simp: walks_def proveWalk.simps [of _ _ _ _ "hashNode h"])
qed

lemma tnode_walks:
  assumes "tnode G R p n kd m" "suffix_ok kd s" "rlp G" "hash_laws G" "sound_reader G R" "hash32 n" "sealed G (p = []) n" "small_map m"
  shows "\<exists>ns. walks G R p s n (m s) ns"
  using assms(1,2,6-8)
proof (induction arbitrary: s rule: tnode.induct)
  case (t_nil p)
  show ?case by (rule exI, rule walks_leaf) (auto simp: looks_def tryGet.simps)
next
  case (t_val v p)
  then show ?case by (intro exI [of _ "[]"] walks_leaf) (auto simp: looks_def tryGet.simps)
next
  case (t_short p k c kd m f)
  have tn: "tnode G R p (shortNode k c f) KShort (prefixed k m)" using t_short.hyps by (rule tnode.t_short)
  have w: "wfn G (shortNode k c f)" using rlp.tnode_wfn [OF assms(3) tn] t_short.prems by blast
  have pr: "provable G (shortNode k c f)" using tnode_live [OF tn] t_short.prems(3) by (auto simp: provable_def)
  have ne: "m \<noteq> Map.empty" using tnode_nonempty t_short.hyps by blast
  have sm: "small_map m" using small_prefixed [OF t_short.prems(4) ne] by blast
  have k: "k \<noteq> []" "hash32 c" "sealed G False c" using t_short.prems(2) sealed_sub(1) [OF t_short.prems(3)] by auto
  show ?case
  proof (rule walks_short [OF assms(3,4) w pr _ k(1)])
    show "hex_key s" using t_short.prems(1) by simp
    show "\<exists>ns. walks G R (p @ k) s' c (m s') ns" if "s = k @ s'" for s'
      using t_short.IH [of s'] suffix_ok_short [OF t_short.hyps(2)] t_short.prems(1) that k sm by simp
  qed
next
  case (t_full cs p ks ms f)
  have tn: "tnode G R p (fullNode cs f) KFull (branching ms)" using t_full.hyps by (intro tnode.t_full) auto
  have w: "wfn G (fullNode cs f)" using rlp.tnode_wfn [OF assms(3) tn] t_full.prems by blast
  have pr: "provable G (fullNode cs f)" using tnode_live [OF tn] t_full.prems(3) by (auto simp: provable_def)
  obtain x s' where s: "s = x # s'" "unat x < 17" using t_full.prems(1) byte_le16 by (cases s) auto
  have ok: "suffix_ok (ks (unat x)) s'" using t_full.prems(1) t_full.hyps s(1) by (intro suffix_ok_full) auto
  have c: "hash32 (cs ! unat x)" "sealed G False (cs ! unat x)" using t_full.prems(2) sealed_sub(2) [OF t_full.prems(3)] t_full.hyps(1) s(2) by auto
  obtain ns where "walks G R (p @ [x]) s' (cs ! unat x) (ms (unat x) s') ns"
    using t_full.IH [OF s(2) ok c(1)] c(2) small_branching [OF t_full.prems(4) s(2)] unfolding word_of_unat by auto
  then show ?case using walks_full [OF assms(3,4) w pr t_full.hyps(1) s(2)] s(1) by blast
next
  case (t_hash p h blob n kd m)
  have h: "length h = 32" using t_hash.prems by simp
  have "persists G R p (hashNode h)" using h by (simp add: persists_def)
  then have n: "hash32 n" "sealed G (p = []) n"
    using persists_resolved [OF assms(3,5,4) _ t_hash.hyps(1)] by (simp_all add: persists_def)
  obtain ns where "walks G R p s n (m s) ns" using t_hash.IH [OF t_hash.prems(1) n t_hash.prems(4)] by blast
  moreover have "wfn G n" using rlp.tnode_wfn [OF assms(3) t_hash.hyps(2) n(1) t_hash.prems(4)] .
  moreover have "hex_key s" using t_hash.prems(1) t_hash.hyps(3) by auto
  ultimately show ?case using walks_hash [OF assms(3,4,5) t_hash.hyps(1) h] by blast
qed

lemma root_walks:
  assumes "tnode G R [] n kd m" "suffix_ok kd s" "rlp G" "hash_laws G" "sound_reader G R" "hash32 n" "sealed G True n" "small_map m"
    and "n \<noteq> nilNode" "kd \<noteq> KVal"
  shows "\<exists>x ns. proveWalk G R [] s n [] = okR (Inr (x # ns)) \<and> (\<forall>y \<in> set (x # ns). provable G y) \<and> storedHash G x = hash_bytes (rootHash G n)
    \<and> (\<forall>R'. has G R' x \<longrightarrow> (\<forall>y \<in> set ns. stored G y \<longrightarrow> has G R' y) \<longrightarrow> looks G R' (hashNode (hash_bytes (rootHash G n))) [] s (m s))"
proof -
  obtain ns where ns: "walks G R [] s n (m s) ns" using tnode_walks [OF assms(1-6)] assms(7,8) by auto
  from tnode_root [OF assms(1,10)] assms(9) consider (branch) "branch n" | (hash) h where "n = hashNode h" by blast
  then show ?thesis
  proof cases
    case branch
    have w: "wfn G n" using rlp.tnode_wfn [OF assms(3,1,6,8)] .
    have r: "storedHash G n = hash_bytes (rootHash G n)" using rootHash_branch [OF branch] by (simp add: storedHash_def)
    obtain ns' where ns': "ns = n # ns'" using ns branch by (cases ns) (auto simp: walks_def)
    have "looks G R' (hashNode (hash_bytes (rootHash G n))) [] s (m s)" if "has G R' n" "\<forall>y \<in> set ns'. stored G y \<longrightarrow> has G R' y" for R'
      unfolding r [symmetric]
    proof (rule looks_stored [OF assms(3,4) w branch that(1)])
      show "looks G R' (reload G h n) [] s (m s)" for h using ns that branch by (simp add: walks_def suffices_def ns')
    qed
    then show ?thesis using ns r by (intro exI [of _ n] exI [of _ ns']) (simp add: walks_def ns')
  next
    case hash
    have h: "length h = 32" "hash_bytes (rootHash G n) = h" using assms(4,6) hash by (simp_all add: rootHash_def hash_laws_def)
    obtain blob n1 where n1: "resolves G R [] h blob n1" "tnode G R [] n1 kd m" using assms(1) hash by (auto elim!: tnode_hashE)
    have "persists G R [] (hashNode h)" using h by (simp add: persists_def)
    then have p1: "hash32 n1" "sealed G True n1" using persists_resolved [OF assms(3,5,4) _ n1(1)] by (simp_all add: persists_def)
    obtain n0 where n0: "branch n0" "wfn G n0" "n1 = reload G (Some h) n0" "storedHash G n0 = h"
      using sound_resolves [OF assms(3,5,4) n1(1) h(1)] by blast
    then have x: "branch n1" "storedHash G n1 = h" using collapse_reload [OF wfn_live [OF n0(2)] n0(1)] by (simp_all add: storedHash_def)
    obtain ns1 where ns1: "walks G R [] s n1 (m s) ns1" using tnode_walks [OF n1(2) assms(2-5) p1(1)] p1(2) assms(8) by auto
    obtain ns' where ns': "ns1 = n1 # ns'" using ns1 x(1) by (cases ns1) (auto simp: walks_def)
    have "hex_key s" using assms(2) tnode_branch_kind [OF n1(2) x(1)] by auto
    then have w: "walks G R [] s n (m s) ns1"
      using walks_hash [OF assms(3,4,5) n1(1) h(1) _ _ ns1] rlp.tnode_wfn [OF assms(3) n1(2) p1(1) assms(8)] hash by simp
    have "looks G R' (hashNode h) [] s (m s)" if "has G R' n1" "\<forall>y \<in> set ns'. stored G y \<longrightarrow> has G R' y" for R'
      using w that by (simp add: walks_def suffices_def ns' hash ref_def not_branch_stored)
    then show ?thesis using w x(2) h(2) by (intro exI [of _ n1] exI [of _ ns']) (simp add: walks_def ns')
  qed
qed

lemma Prove_answers:
  assumes "durable G t m" "lawful G (reader t)" "small_content m" "m \<noteq> Map.empty"
  shows "\<exists>puts. Trie_Prove G t key 0 = okR (Inr puts) \<and> (\<forall>(h, blob) \<in> set puts. h = hash_bytes (keccak256 G blob))
    \<and> puts \<noteq> [] \<and> fst (hd puts) = hash_bytes (rootHash G (root t))
    \<and> (\<forall>R tr. (\<forall>(h, blob) \<in> set puts. \<forall>path. nodeBlob R path (BytesToHash G h) = Inr blob) \<longrightarrow>
         (\<exists>tr' n d. tryGet G R tr (hashNode (hash_bytes (rootHash G (root t)))) (keybytesToHex key) 0 = Some (Returns tr' (m key, n, d))))"
proof -
  have l: "rlp G" "hash_laws G" "sound_reader G (reader t)" using assms(2) by (simp_all add: lawful_def)
  obtain kd mm where c: "tnode G (reader t) [] (root t) kd mm" "kd \<noteq> KVal" "dom mm \<subseteq> range keybytesToHex" "m = (\<lambda>k. mm (keybytesToHex k))"
    using assms(1) by (auto simp: durable_def content_def)
  have p: "hash32 (root t)" "sealed G True (root t)" using assms(1) by (simp_all add: durable_def persists_def)
  have sm: "small_map mm" using small_content_map assms(3) c(3,4) by blast
  let ?s = "keybytesToHex key"
  have sx: "suffix_ok kd ?s" using suffix_ok_root [OF c(2)] .
  have "root t \<noteq> nilNode" using content_empty_iff assms(1,4) by (auto simp: durable_def)
  then obtain x ns where w: "proveWalk G (reader t) [] ?s (root t) [] = okR (Inr (x # ns))" "\<forall>y \<in> set (x # ns). provable G y"
    "storedHash G x = hash_bytes (rootHash G (root t))"
    and re: "\<And>R'. has G R' x \<Longrightarrow> (\<forall>y \<in> set ns. stored G y \<longrightarrow> has G R' y) \<Longrightarrow> looks G R' (hashNode (hash_bytes (rootHash G (root t)))) [] ?s (mm ?s)"
    using root_walks [OF c(1) sx l p sm _ c(2)] by blast
  let ?puts = "element G x # map (element G) (filter (stored G) ns)"
  have pr: "Trie_Prove G t key 0 = okR (Inr ?puts)" using w(1) provePuts_all [OF l(1) w(2)] by (simp add: Trie_Prove_def)
  have own: "\<forall>(h, blob) \<in> set ?puts. h = hash_bytes (keccak256 G blob)" by (auto simp: element_def storedHash_def)
  have "\<exists>tr' n d. tryGet G R tr (hashNode (hash_bytes (rootHash G (root t)))) ?s 0 = Some (Returns tr' (m key, n, d))"
    if d: "\<forall>(h, blob) \<in> set ?puts. \<forall>path. nodeBlob R path (BytesToHash G h) = Inr blob" for R tr
  proof -
    have "has G R y" if "element G y \<in> set ?puts" for y
      using d that l(2) by (auto simp: has_def onDisk_def element_def storedHash_def hash_laws_def)
    then have "looks G R (hashNode (hash_bytes (rootHash G (root t)))) [] ?s (mm ?s)" by (intro re) auto
    then show ?thesis using c(4) by (simp add: looks_def)
  qed
  then show ?thesis using pr own w(3) by (intro exI [of _ ?puts] conjI) (auto simp: element_def)
qed

section \<open>Properties\<close>


definition leafProofStore :: nodeStore where
  "leafProofStore own p h = (if h = 0xc482200107 then [0xc4, 0x82, 0x20, 1, 7] else [], None)"

lemma leaf_proof: "Trie_Prove ref_geth (leafTrie 7) [2] 0 = okR (Inr [(hash_bytes 0xc482200107, [0xc4, 0x82, 0x20, 1, 7])])"
  by (simp add: Trie_Prove_def leafTrie_def proveWalk.simps keybytesToHex_unpack proofHash_def hashShortNodeChildren.simps hexToCompact_eq compact_of_def
     path_part_def hasTerm_def shortnodeToHash_def hashData_def Let_def nodeToBytes_def leaf_encoded leaf_hashed)


end
