(* ===== verification/TrieIterator.thy ===== *)
theory TrieIterator
  imports TrieProof
begin

text \<open>
  The iterators of \<open>trie_by_cid/trie/iterator.go\<close> over one trie: \<open>nodeIterator\<close>, which visits the nodes of a trie in pre-order and
  keeps the path from the root as a stack, and \<open>Iterator\<close>, which stops at the leaves. The stack is a list with the
  current node first. The iterator holds the trie it was made for; it changes nothing of it but cached
  hashes. A call returns \<open>None\<close> when it does not return, a panic, or its values with the iterator after it.
\<close>

section \<open>State\<close>

record nodeIteratorState =
  is_hash :: hash
  is_node :: node
  is_parent :: hash
  is_index :: int
  is_pathlen :: nat

datatype iterError = errIteratorEnd | seekError bytes trieError | nodeError trieError

record nodeIterator =
  it_trie :: Trie
  it_stack :: "nodeIteratorState list"
  it_path :: bytes
  it_err :: "iterError option"
  it_resolver :: "(hash \<Rightarrow> bytes \<Rightarrow> hash \<Rightarrow> bytes) option"

definition nodeIterator_AddResolver :: "nodeIterator \<Rightarrow> (hash \<Rightarrow> bytes \<Rightarrow> hash \<Rightarrow> bytes) \<Rightarrow> nodeIterator" where
  "nodeIterator_AddResolver it r = it\<lparr>it_resolver := Some r\<rparr>"

definition nodeIterator_Hash :: "nodeIterator \<Rightarrow> hash" where
  "nodeIterator_Hash it = (case it_stack it of [] \<Rightarrow> 0 | st # _ \<Rightarrow> is_hash st)"

definition nodeIterator_Parent :: "nodeIterator \<Rightarrow> hash" where
  "nodeIterator_Parent it = (case it_stack it of [] \<Rightarrow> 0 | st # _ \<Rightarrow> is_parent st)"

definition nodeIterator_ParentPath :: "nodeIterator \<Rightarrow> bytes" where
  "nodeIterator_ParentPath it = (case it_stack it of [] \<Rightarrow> [] | st # _ \<Rightarrow> take (is_pathlen st) (it_path it))"

definition nodeIterator_Leaf :: "nodeIterator \<Rightarrow> bool" where
  "nodeIterator_Leaf it = hasTerm (it_path it)"

definition notAtLeaf :: panic where
  "notAtLeaf = PanicMsg ''not at leaf''"

definition nodeIterator_LeafKey :: "nodeIterator \<Rightarrow> panic + bytes" where
  "nodeIterator_LeafKey it =
     (case it_stack it of
        st # _ \<Rightarrow> (case is_node st of valueNode _ \<Rightarrow> hexToKeyBytes (it_path it) | _ \<Rightarrow> Inl notAtLeaf)
      | [] \<Rightarrow> Inl notAtLeaf)"

definition nodeIterator_LeafBlob :: "nodeIterator \<Rightarrow> panic + bytes" where
  "nodeIterator_LeafBlob it =
     (case it_stack it of st # _ \<Rightarrow> (case is_node st of valueNode v \<Rightarrow> Inr v | _ \<Rightarrow> Inl notAtLeaf) | [] \<Rightarrow> Inl notAtLeaf)"

fun leafProofs :: "geth \<Rightarrow> nat \<Rightarrow> nodeIteratorState list \<Rightarrow> panic + bytes list" where
  "leafProofs G i [] = Inr []"
| "leafProofs G i (item # items) =
     (case proofHash G (is_node item) of
        Inl p \<Rightarrow> Inl p
      | Inr (n, hashed) \<Rightarrow>
          (case leafProofs G (i + 1) items of
             Inl p \<Rightarrow> Inl p
           | Inr ps \<Rightarrow> Inr (if (case hashed of hashNode _ \<Rightarrow> True | _ \<Rightarrow> False) \<or> i = 0 then nodeToBytes G n # ps else ps)))"

definition nodeIterator_LeafProof :: "geth \<Rightarrow> nodeIterator \<Rightarrow> panic + bytes list" where
  "nodeIterator_LeafProof G it =
     (case it_stack it of
        st # rest \<Rightarrow> (case is_node st of valueNode _ \<Rightarrow> leafProofs G 0 (rev rest) | _ \<Rightarrow> Inl notAtLeaf)
      | [] \<Rightarrow> Inl notAtLeaf)"

definition nodeIterator_Path :: "nodeIterator \<Rightarrow> bytes" where
  "nodeIterator_Path it = it_path it"

definition nodeIterator_Error :: "nodeIterator \<Rightarrow> trieError option" where
  "nodeIterator_Error it =
     (case it_err it of None \<Rightarrow> None | Some errIteratorEnd \<Rightarrow> None | Some (seekError _ e) \<Rightarrow> Some e | Some (nodeError e) \<Rightarrow> Some e)"

section \<open>Resolving\<close>

definition resolveHash :: "geth \<Rightarrow> nodeIterator \<Rightarrow> bytes \<Rightarrow> bytes \<Rightarrow> trieError + node" where
  "resolveHash G it h path =
     (case (case it_resolver it of
              None \<Rightarrow> None
            | Some r \<Rightarrow>
                (let blob = r (owner (it_trie it)) path (BytesToHash G h)
                 in if length blob > 0 then (case decodeNode G (Some h) blob of Inl _ \<Rightarrow> None | Inr n \<Rightarrow> Some n) else None)) of
        Some n \<Rightarrow> Inr n
      | None \<Rightarrow> trieReader_node G (reader (it_trie it)) path (BytesToHash G h))"

definition resolveBlob :: "geth \<Rightarrow> nodeIterator \<Rightarrow> bytes \<Rightarrow> bytes \<Rightarrow> trieError + bytes" where
  "resolveBlob G it h path =
     (case (case it_resolver it of
              None \<Rightarrow> None
            | Some r \<Rightarrow> (let blob = r (owner (it_trie it)) path (BytesToHash G h) in if length blob > 0 then Some blob else None)) of
        Some blob \<Rightarrow> Inr blob
      | None \<Rightarrow> nodeBlob (reader (it_trie it)) path (BytesToHash G h))"

definition nodeIterator_NodeBlob :: "geth \<Rightarrow> nodeIterator \<Rightarrow> bytes option \<times> nodeIterator" where
  "nodeIterator_NodeBlob G it =
     (if nodeIterator_Hash it = 0 then (None, it)
      else case resolveBlob G it (hash_bytes (nodeIterator_Hash it)) (it_path it) of
             Inl e \<Rightarrow> (None, it\<lparr>it_err := Some (nodeError e)\<rparr>)
           | Inr blob \<Rightarrow> (Some blob, it))"

definition state_resolve :: "geth \<Rightarrow> nodeIterator \<Rightarrow> nodeIteratorState \<Rightarrow> bytes \<Rightarrow> trieError + nodeIteratorState" where
  "state_resolve G it st path =
     (case is_node st of
        hashNode h \<Rightarrow>
          (case resolveHash G it h path of
             Inl e \<Rightarrow> Inl e
           | Inr n \<Rightarrow> Inr (st\<lparr>is_node := n, is_hash := BytesToHash G h\<rparr>))
      | _ \<Rightarrow> Inr st)"

section \<open>Children\<close>

definition childState :: "geth \<Rightarrow> node \<Rightarrow> hash \<Rightarrow> nat \<Rightarrow> panic + nodeIteratorState" where
  "childState G child ancestor plen =
     (case cache child of
        Inl p \<Rightarrow> Inl p
      | Inr (h, _) \<Rightarrow>
          Inr \<lparr>is_hash = (case h of None \<Rightarrow> 0 | Some b \<Rightarrow> BytesToHash G b), is_node = child, is_parent = ancestor, is_index = -1, is_pathlen = plen\<rparr>)"

text \<open>The loop of \<open>findChild\<close> over the children from position \<open>i\<close> on.\<close>

fun findChildFrom :: "geth \<Rightarrow> node list \<Rightarrow> nat \<Rightarrow> bytes \<Rightarrow> hash \<Rightarrow> panic + (nodeIteratorState \<times> bytes \<times> nat) option" where
  "findChildFrom G [] i path ancestor = Inr None"
| "findChildFrom G (c # cs) i path ancestor =
     (if c \<noteq> nilNode
      then (case childState G c ancestor (length path) of Inl p \<Rightarrow> Inl p | Inr st \<Rightarrow> Inr (Some (st, path @ [word_of_nat i], i)))
      else findChildFrom G cs (i + 1) path ancestor)"

definition findChild :: "geth \<Rightarrow> node list \<Rightarrow> nat \<Rightarrow> bytes \<Rightarrow> hash \<Rightarrow> panic + (nodeIteratorState \<times> bytes \<times> nat) option" where
  "findChild G cs index path ancestor = findChildFrom G (drop index cs) index path ancestor"

text \<open>The child, its path, and the parent with its index changed; nothing when there are no more children.\<close>

definition nextChild ::
    "geth \<Rightarrow> bytes \<Rightarrow> nodeIteratorState \<Rightarrow> hash \<Rightarrow> panic + (nodeIteratorState \<times> bytes \<times> nodeIteratorState) option" where
  "nextChild G path parent ancestor =
     (case is_node parent of
        fullNode cs _ \<Rightarrow>
          (case findChild G cs (nat (is_index parent + 1)) path ancestor of
             Inl p \<Rightarrow> Inl p
           | Inr None \<Rightarrow> Inr None
           | Inr (Some (st, cpath, i)) \<Rightarrow> Inr (Some (st, cpath, parent\<lparr>is_index := int i - 1\<rparr>)))
      | shortNode k v _ \<Rightarrow>
          (if is_index parent < 0
           then (case childState G v ancestor (length path) of Inl p \<Rightarrow> Inl p | Inr st \<Rightarrow> Inr (Some (st, path @ k, parent)))
           else Inr None)
      | _ \<Rightarrow> Inr None)"

lemma findChildFrom_index: "findChildFrom G cs i path anc = Inr (Some (st, p, j)) \<Longrightarrow> i \<le> j \<and> j < i + length cs"
  by (induction cs arbitrary: i) (force split: sum.splits if_splits)+

text \<open>The loop of \<open>nextChildAt\<close>: advance while the next child is still before the key.\<close>

function advanceChild ::
    "geth \<Rightarrow> node list \<Rightarrow> bytes \<Rightarrow> hash \<Rightarrow> bytes \<Rightarrow> nodeIteratorState \<times> bytes \<times> nat \<Rightarrow> panic + (nodeIteratorState \<times> bytes \<times> nat)" where
  "advanceChild G cs path ancestor key (st, cpath, i) =
     (case findChild G cs (i + 1) path ancestor of
        Inl p \<Rightarrow> Inl p
      | Inr None \<Rightarrow> Inr (st, cpath, i)
      | Inr (Some (st', cpath', i')) \<Rightarrow>
          (if key \<le> cpath' then Inr (st, cpath, i) else advanceChild G cs path ancestor key (st', cpath', i')))"
  by pat_completeness auto

termination
  by (relation "measure (\<lambda>(G, cs, path, ancestor, key, st, cpath, i). length cs - i)") (auto simp: findChild_def dest!: findChildFrom_index)

definition nextChildAt ::
    "geth \<Rightarrow> bytes \<Rightarrow> nodeIteratorState \<Rightarrow> hash \<Rightarrow> bytes \<Rightarrow> panic + (nodeIteratorState \<times> bytes \<times> nodeIteratorState) option" where
  "nextChildAt G path parent ancestor key =
     (case is_node parent of
        fullNode cs _ \<Rightarrow>
          (case findChild G cs (nat (is_index parent + 1)) path ancestor of
             Inl p \<Rightarrow> Inl p
           | Inr None \<Rightarrow> Inr None
           | Inr (Some (st, cpath, i)) \<Rightarrow>
               (if key \<le> cpath then Inr (Some (st, cpath, parent\<lparr>is_index := int i - 1\<rparr>))
                else (case advanceChild G cs path ancestor key (st, cpath, i) of
                        Inl p \<Rightarrow> Inl p
                      | Inr (st', cpath', i') \<Rightarrow> Inr (Some (st', cpath', parent\<lparr>is_index := int i' - 1\<rparr>)))))
      | shortNode k v _ \<Rightarrow>
          (if is_index parent < 0
           then (case childState G v ancestor (length path) of Inl p \<Rightarrow> Inl p | Inr st \<Rightarrow> Inr (Some (st, path @ k, parent)))
           else Inr None)
      | _ \<Rightarrow> Inr None)"

section \<open>Moving\<close>

definition nodeIterator_push :: "nodeIterator \<Rightarrow> nodeIteratorState \<Rightarrow> bool \<Rightarrow> bytes \<Rightarrow> nodeIterator" where
  "nodeIterator_push it st hasParent path =
     it\<lparr>it_path := path,
        it_stack := st # (case it_stack it of [] \<Rightarrow> [] | par # rest \<Rightarrow> (if hasParent then par\<lparr>is_index := is_index par + 1\<rparr> else par) # rest)\<rparr>"

definition nodeIterator_pop :: "nodeIterator \<Rightarrow> panic + nodeIterator" where
  "nodeIterator_pop it =
     (case it_stack it of
        [] \<Rightarrow> Inl IndexOutOfRange
      | cur # rest \<Rightarrow> Inr (it\<lparr>it_path := take (is_pathlen cur) (it_path it), it_stack := rest\<rparr>))"

text \<open>What \<open>peek\<close> returns: an error, or a state with its path and whether it has a parent.\<close>

type_synonym peeked = "iterError + nodeIteratorState \<times> bool \<times> bytes"

definition nodeIterator_init :: "geth \<Rightarrow> nodeIterator \<Rightarrow> panic + nodeIterator \<times> peeked" where
  "nodeIterator_init G it =
     (case Trie_Hash G (it_trie it) of
        Inl p \<Rightarrow> Inl p
      | Inr (h, t) \<Rightarrow>
          (let it1 = it\<lparr>it_trie := t\<rparr>;
               st = \<lparr>is_hash = (if h \<noteq> EmptyRootHash G then h else 0), is_node = root t, is_parent = 0, is_index = -1, is_pathlen = 0\<rparr>
           in Inr (it1, case state_resolve G it1 st [] of Inl e \<Rightarrow> Inl (nodeError e) | Inr st' \<Rightarrow> Inr (st', False, []))))"

definition ancestorOf :: "nodeIteratorState \<Rightarrow> hash" where
  "ancestorOf parent = (if is_hash parent = 0 then is_parent parent else is_hash parent)"

text \<open>The loops of \<open>peek\<close> and \<open>peekSeek\<close>, over the stack; \<open>next\<close> is \<open>nextChild\<close> or \<open>nextChildAt\<close>.\<close>

fun peekLoop ::
    "geth \<Rightarrow> (bytes \<Rightarrow> nodeIteratorState \<Rightarrow> hash \<Rightarrow> panic + (nodeIteratorState \<times> bytes \<times> nodeIteratorState) option) \<Rightarrow>
       nodeIterator \<Rightarrow> nodeIteratorState list \<Rightarrow> panic + nodeIterator \<times> peeked" where
  "peekLoop G next it [] = Inr (it\<lparr>it_stack := []\<rparr>, Inl errIteratorEnd)"
| "peekLoop G next it (parent # rest) =
     (case next (it_path it) parent (ancestorOf parent) of
        Inl p \<Rightarrow> Inl p
      | Inr (Some (st, path, parent')) \<Rightarrow>
          Inr (it\<lparr>it_stack := parent' # rest\<rparr>,
               case state_resolve G it st path of Inl e \<Rightarrow> Inl (nodeError e) | Inr st' \<Rightarrow> Inr (st', True, path))
      | Inr None \<Rightarrow> peekLoop G next (it\<lparr>it_path := take (is_pathlen parent) (it_path it), it_stack := rest\<rparr>) rest)"

definition nodeIterator_peek :: "geth \<Rightarrow> nodeIterator \<Rightarrow> bool \<Rightarrow> panic + nodeIterator \<times> peeked" where
  "nodeIterator_peek G it descend =
     (if it_stack it = [] then nodeIterator_init G it
      else case (if \<not> descend then nodeIterator_pop it else Inr it) of
             Inl p \<Rightarrow> Inl p
           | Inr it1 \<Rightarrow> peekLoop G (nextChild G) it1 (it_stack it1))"

definition nodeIterator_peekSeek :: "geth \<Rightarrow> nodeIterator \<Rightarrow> bytes \<Rightarrow> panic + nodeIterator \<times> peeked" where
  "nodeIterator_peekSeek G it seekKey =
     (if it_stack it = [] then nodeIterator_init G it
      else case (if \<not> prefix (it_path it) seekKey then nodeIterator_pop it else Inr it) of
             Inl p \<Rightarrow> Inl p
           | Inr it1 \<Rightarrow> peekLoop G (\<lambda>path parent ancestor. nextChildAt G path parent ancestor seekKey) it1 (it_stack it1))"

text \<open>The loop of \<open>seek\<close>; \<open>key\<close> is the hex form of \<open>seekPrefix\<close> without its terminator.\<close>

partial_function (option) seekLoop :: "geth \<Rightarrow> bytes \<Rightarrow> bytes \<Rightarrow> nodeIterator \<Rightarrow> (iterError option \<times> nodeIterator) res" where
  "seekLoop G seekPrefix key it =
     bindR (Some (nodeIterator_peekSeek G it key)) (\<lambda>(it1, r).
       case r of
         Inl errIteratorEnd \<Rightarrow> okR (Some errIteratorEnd, it1)
       | Inl (nodeError e) \<Rightarrow> okR (Some (seekError seekPrefix e), it1)
       | Inl (seekError k e) \<Rightarrow> okR (Some (seekError seekPrefix e), it1)
       | Inr (st, hasParent, path) \<Rightarrow>
           (if key \<le> path then okR (None, it1) else seekLoop G seekPrefix key (nodeIterator_push it1 st hasParent path)))"

definition nodeIterator_seek :: "geth \<Rightarrow> nodeIterator \<Rightarrow> bytes \<Rightarrow> (iterError option \<times> nodeIterator) res" where
  "nodeIterator_seek G it seekPrefix = seekLoop G seekPrefix (butlast (keybytesToHex seekPrefix)) it"

definition nodeIterator_Next :: "geth \<Rightarrow> nodeIterator \<Rightarrow> bool \<Rightarrow> (bool \<times> nodeIterator) res" where
  "nodeIterator_Next G it descend =
     (if it_err it = Some errIteratorEnd then okR (False, it)
      else bindR (case it_err it of
                    Some (seekError key _) \<Rightarrow> bindR (nodeIterator_seek G it key) (\<lambda>(err, it1). okR (it1\<lparr>it_err := err\<rparr>, err \<noteq> None))
                  | _ \<Rightarrow> okR (it, False)) (\<lambda>(it1, failed).
           if failed then okR (False, it1)
           else bindR (Some (nodeIterator_peek G it1 descend)) (\<lambda>(it2, r).
             case r of
               Inl e \<Rightarrow> okR (False, it2\<lparr>it_err := Some e\<rparr>)
             | Inr (st, hasParent, path) \<Rightarrow> okR (True, nodeIterator_push (it2\<lparr>it_err := None\<rparr>) st hasParent path))))"

definition newNodeIterator :: "geth \<Rightarrow> Trie \<Rightarrow> bytes \<Rightarrow> nodeIterator res" where
  "newNodeIterator G t start =
     bindR (Some (Trie_Hash G t)) (\<lambda>(h, t1).
       let it = \<lparr>it_trie = t1, it_stack = [], it_path = [], it_err = None, it_resolver = None\<rparr>
       in if h = EmptyRootHash G then okR (it\<lparr>it_err := Some errIteratorEnd\<rparr>)
          else bindR (nodeIterator_seek G it start) (\<lambda>(err, it1). okR (it1\<lparr>it_err := err\<rparr>)))"

definition Trie_NodeIterator :: "geth \<Rightarrow> Trie \<Rightarrow> bytes \<Rightarrow> nodeIterator res" where
  "Trie_NodeIterator G t start = newNodeIterator G t start"

definition StateTrie_NodeIterator :: "geth \<Rightarrow> StateTrie \<Rightarrow> bytes \<Rightarrow> nodeIterator res" where
  "StateTrie_NodeIterator G t start = Trie_NodeIterator G (trie t) start"

section \<open>Keys and values\<close>

record Iterator =
  nodeIt :: nodeIterator
  iter_Key :: "bytes option"
  iter_Value :: "bytes option"
  iter_Err :: "trieError option"

definition NewIterator :: "nodeIterator \<Rightarrow> Iterator" where
  "NewIterator it = \<lparr>nodeIt = it, iter_Key = None, iter_Value = None, iter_Err = None\<rparr>"

partial_function (option) Iterator_Next :: "geth \<Rightarrow> Iterator \<Rightarrow> (bool \<times> Iterator) res" where
  "Iterator_Next G it =
     bindR (nodeIterator_Next G (nodeIt it) True) (\<lambda>(ok, nit).
       let it1 = it\<lparr>nodeIt := nit\<rparr>
       in if \<not> ok then okR (False, it1\<lparr>iter_Key := None, iter_Value := None, iter_Err := nodeIterator_Error nit\<rparr>)
          else if nodeIterator_Leaf nit
          then bindR (Some (nodeIterator_LeafKey nit)) (\<lambda>k. bindR (Some (nodeIterator_LeafBlob nit)) (\<lambda>v.
                 okR (True, it1\<lparr>iter_Key := Some k, iter_Value := Some v\<rparr>)))
          else Iterator_Next G it1)"

definition Iterator_Prove :: "geth \<Rightarrow> Iterator \<Rightarrow> panic + bytes list" where
  "Iterator_Prove G it = nodeIterator_LeafProof G (nodeIt it)"

end
