(* ===== verification/IteratorProps.thy ===== *)
theory IteratorProps
  imports TrieIterator
begin

text \<open>
  What an iteration returns. \<open>steps\<close> is a run of \<open>nodeIterator.Next\<close> with the leaves it stops at; \<open>stands\<close> says what the iterator still has
  to do, which lets the induction on the meaning of a node (\<open>tnode\<close>) ignore that the iterator leaves a
  finished subtree only at its next call. The entries of a subtree are the map it denotes, in the order of their paths.
\<close>


section \<open>Steps of an iteration\<close>

inductive steps :: "geth \<Rightarrow> nodeIterator \<Rightarrow> (bytes \<times> bytes) list \<Rightarrow> nodeIterator \<Rightarrow> bool" for G :: geth where
  steps_refl: "steps G it [] it"
| steps_node: "nodeIterator_Next G it True = okR (True, it1) \<Longrightarrow> \<not> nodeIterator_Leaf it1 \<Longrightarrow> steps G it1 es it2 \<Longrightarrow> steps G it es it2"
| steps_leaf: "nodeIterator_Next G it True = okR (True, it1) \<Longrightarrow> nodeIterator_Leaf it1 \<Longrightarrow> nodeIterator_LeafKey it1 = Inr k \<Longrightarrow>
    nodeIterator_LeafBlob it1 = Inr v \<Longrightarrow> steps G it1 es it2 \<Longrightarrow> steps G it ((k, v) # es) it2"

lemma steps_trans: "steps G it es it1 \<Longrightarrow> steps G it1 es' it2 \<Longrightarrow> steps G it (es @ es') it2"
  by (induction rule: steps.induct) (auto intro: steps.intros)

definition fresh :: "Trie \<Rightarrow> nodeIteratorState list \<Rightarrow> bytes \<Rightarrow> nodeIterator" where
  "fresh t s p = \<lparr>it_trie = t, it_stack = s, it_path = p, it_err = None, it_resolver = None\<rparr>"

text \<open>The iterator goes on as if the rest of its work were the stack \<open>s\<close> at the path \<open>p\<close>.\<close>

definition stands :: "geth \<Rightarrow> Trie \<Rightarrow> nodeIterator \<Rightarrow> nodeIteratorState list \<Rightarrow> bytes \<Rightarrow> bool" where
  "stands G t it s p \<longleftrightarrow> it_stack it \<noteq> [] \<and> it_err it = None
     \<and> peekLoop G (nextChild G) it (it_stack it) = peekLoop G (nextChild G) (fresh t s p) s"

lemma stands_fresh: "s \<noteq> [] \<Longrightarrow> stands G t (fresh t s p) s p"
  by (simp add: stands_def fresh_def)

lemma stands_pop:
  assumes "stands G t it (st # s) p" "nextChild G p st (ancestorOf st) = Inr None"
  shows "stands G t it s (take (is_pathlen st) p)"
  using assms by (simp add: stands_def fresh_def)

lemma Next_stands:
  assumes "stands G t it s p"
  shows "nodeIterator_Next G it True = bindR (Some (peekLoop G (nextChild G) (fresh t s p) s)) (\<lambda>(it2, r).
     case r of Inl e \<Rightarrow> okR (False, it2\<lparr>it_err := Some e\<rparr>)
     | Inr (st, hasParent, path) \<Rightarrow> okR (True, nodeIterator_push (it2\<lparr>it_err := None\<rparr>) st hasParent path))"
  using assms by (simp add: stands_def nodeIterator_Next_def nodeIterator_peek_def)

text \<open>The iterator is about to push the child \<open>c\<close> at the path \<open>p\<close> on the stack \<open>s\<close>; \<open>q\<close> is the length of the path before.\<close>

definition enters :: "geth \<Rightarrow> Trie \<Rightarrow> nodeIterator \<Rightarrow> node \<Rightarrow> bytes \<Rightarrow> nat \<Rightarrow> nodeIteratorState list \<Rightarrow> bool" where
  "enters G t it c p q s \<longleftrightarrow> (\<exists>st. is_node st = c \<and> is_index st = -1 \<and> is_pathlen st = q
     \<and> (\<forall>st'. state_resolve G (fresh t s p) st p = Inr st' \<longrightarrow> nodeIterator_Next G it True = okR (True, fresh t (st' # s) p)))"

lemma enters_child:
  assumes "stands G t it (st # s) p" "nextChild G p st (ancestorOf st) = Inr (Some (cst, cp, st'))" "is_index cst = -1"
  shows "enters G t it (is_node cst) cp (is_pathlen cst) (st'\<lparr>is_index := is_index st' + 1\<rparr> # s)"
proof -
  have r: "state_resolve G (fresh t x y) cst cp = state_resolve G (fresh t x' y') cst cp" for x y x' y'
    by (simp add: state_resolve_def resolveHash_def fresh_def split: node.split)
  have "nodeIterator_Next G it True = okR (True, fresh t (cst' # st'\<lparr>is_index := is_index st' + 1\<rparr> # s) cp)"
    if "state_resolve G (fresh t (st'\<lparr>is_index := is_index st' + 1\<rparr> # s) cp) cst cp = Inr cst'" for cst'
    using that assms(2) r [of "st # s" p "st'\<lparr>is_index := is_index st' + 1\<rparr> # s" cp]
    by (simp add: Next_stands [OF assms(1)]) (simp add: fresh_def nodeIterator_push_def)
  then show ?thesis using assms(3) unfolding enters_def by blast
qed


text \<open>The keys as paths.\<close>

definition hexes :: "(bytes \<times> bytes) list \<Rightarrow> (bytes \<times> bytes) list" where
  "hexes es = map (apfst keybytesToHex) es"

definition below :: "bytes \<Rightarrow> (bytes \<times> bytes) list \<Rightarrow> (bytes \<times> bytes) list" where
  "below p kvs = map (apfst ((@) p)) kvs"

lemma hexes_simps [simp]: "hexes [] = []" "hexes ((k, v) # es) = (keybytesToHex k, v) # hexes es" "hexes (es @ es') = hexes es @ hexes es'"
  by (simp_all add: hexes_def)

lemma below_simps [simp]: "below p [] = []" "below p ((s, v) # kvs) = (p @ s, v) # below p kvs" "below p (kvs @ kvs') = below p kvs @ below p kvs'"
  "below p (below k kvs) = below (p @ k) kvs" "below [] kvs = kvs"
  by (simp_all add: below_def comp_def apfst_def map_prod_def split_def)

text \<open>From the point where \<open>c\<close> is pushed, the iterator visits \<open>kvs\<close> and goes on with the stack below.\<close>

definition visits :: "geth \<Rightarrow> Trie \<Rightarrow> bytes \<Rightarrow> node \<Rightarrow> (bytes \<times> bytes) list \<Rightarrow> bool" where
  "visits G t p c kvs \<longleftrightarrow> (\<forall>it q s. enters G t it c p q s \<longrightarrow>
     (\<exists>es it'. steps G it es it' \<and> stands G t it' s (take q p) \<and> hexes es = below p kvs))"

lemma resolve_none: "(\<forall>h. is_node st \<noteq> hashNode h) \<Longrightarrow> state_resolve G it st p = Inr st"
  by (cases "is_node st") (simp_all add: state_resolve_def)

lemma keybytes_back: "hexToKeyBytes (keybytesToHex k) = Inr k"
  by (simp add: keybytesToHex_unpack hexToKeyBytes_even)

lemma visits_val:
  assumes "hasTerm p" "p = keybytesToHex k" shows "visits G t p (valueNode v) [([], v)]"
  unfolding visits_def
proof (intro allI impI)
  fix it q s assume "enters G t it (valueNode v) p q s"
  then obtain st where st: "is_node st = valueNode v" "is_pathlen st = q" "nodeIterator_Next G it True = okR (True, fresh t (st # s) p)"
    unfolding enters_def using resolve_none by (metis node.distinct)
  have "nodeIterator_LeafKey (fresh t (st # s) p) = Inr k"
    using st(1) assms(2) keybytes_back [of k] by (simp add: nodeIterator_LeafKey_def fresh_def)
  then have "steps G it [(k, v)] (fresh t (st # s) p)"
    using st assms(1) by (intro steps_leaf [OF st(3)] steps_refl) (auto simp: nodeIterator_Leaf_def nodeIterator_LeafBlob_def fresh_def)
  moreover have "stands G t (fresh t (st # s) p) s (take q p)"
    using stands_pop [OF stands_fresh, of st s G p t] st(1,2) by (simp add: nextChild_def)
  ultimately show "\<exists>es it'. steps G it es it' \<and> stands G t it' s (take q p) \<and> hexes es = below p [([], v)]"
    using assms(2) by (intro exI [of _ "[(k, v)]"]) auto
qed


lemma childState_ok:
  assumes "live c" "c \<noteq> nilNode"
  shows "\<exists>st. childState G c anc q = Inr st \<and> is_node st = c \<and> is_index st = -1 \<and> is_pathlen st = q"
  using assms by (cases c) (auto simp: childState_def)

text \<open>Entering a short or a full node: the iterator stands at it.\<close>

lemma enters_branch:
  assumes "enters G t it n p q s" "branch n" "\<not> hasTerm p"
  shows "\<exists>st. is_node st = n \<and> is_index st = -1 \<and> is_pathlen st = q \<and> (\<forall>es it'. steps G (fresh t (st # s) p) es it' \<longrightarrow> steps G it es it')"
proof -
  obtain st where st: "is_node st = n" "is_index st = -1" "is_pathlen st = q" "nodeIterator_Next G it True = okR (True, fresh t (st # s) p)"
    using assms(1,2) resolve_none unfolding enters_def by (metis branch.simps(4))
  then have "steps G it es it'" if "steps G (fresh t (st # s) p) es it'" for es it'
    using that assms(3) by (intro steps_node [OF st(4)]) (auto simp: nodeIterator_Leaf_def fresh_def)
  then show ?thesis using st(1-3) by blast
qed

lemma visits_short:
  assumes "visits G t (p @ k) c kvs" "live c" "c \<noteq> nilNode" "\<not> hasTerm p"
  shows "visits G t p (shortNode k c f) (below k kvs)"
  unfolding visits_def
proof (intro allI impI)
  fix it q s assume "enters G t it (shortNode k c f) p q s"
  then obtain st where st: "is_node st = shortNode k c f" "is_index st = -1" "is_pathlen st = q"
    "\<And>es it'. steps G (fresh t (st # s) p) es it' \<Longrightarrow> steps G it es it'" using enters_branch [of G t it "shortNode k c f" p q s] assms(4) by auto
  obtain cst where cst: "childState G c (ancestorOf st) (length p) = Inr cst" "is_node cst = c" "is_index cst = -1" "is_pathlen cst = length p"
    using childState_ok [OF assms(2,3)] by blast
  let ?st = "st\<lparr>is_index := is_index st + 1\<rparr>"
  have "enters G t (fresh t (st # s) p) c (p @ k) (length p) (?st # s)"
    using enters_child [OF stands_fresh, of st s G p cst "p @ k" st t] st(1,2) cst by (simp add: nextChild_def)
  then obtain es it' where e: "steps G (fresh t (st # s) p) es it'" "stands G t it' (?st # s) p" "hexes es = below (p @ k) kvs"
    using assms(1) unfolding visits_def by fastforce
  have "stands G t it' s (take q p)" using stands_pop [OF e(2)] st(1-3) by (simp add: nextChild_def)
  then show "\<exists>es it'. steps G it es it' \<and> stands G t it' s (take q p) \<and> hexes es = below p (below k kvs)"
    using e st(4) by auto
qed

lemma findChild_nil: "i < length cs \<Longrightarrow> cs ! i = nilNode \<Longrightarrow> findChild G cs i p anc = findChild G cs (Suc i) p anc"
  by (simp add: findChild_def Cons_nth_drop_Suc [symmetric])

lemma findChild_found: "i < length cs \<Longrightarrow> cs ! i \<noteq> nilNode \<Longrightarrow> childState G (cs ! i) anc (length p) = Inr st \<Longrightarrow>
    findChild G cs i p anc = Inr (Some (st, p @ [word_of_nat i], i))"
  by (simp add: findChild_def Cons_nth_drop_Suc [symmetric])

lemma findChild_end: "length cs \<le> i \<Longrightarrow> findChild G cs i p anc = Inr None"
  by (simp add: findChild_def)

text \<open>The children of a full node from \<open>i\<close> on.\<close>

definition childEntries :: "(nat \<Rightarrow> (bytes \<times> bytes) list) \<Rightarrow> nat \<Rightarrow> nat \<Rightarrow> (bytes \<times> bytes) list" where
  "childEntries K i j = concat (map (\<lambda>c. below [word_of_nat c] (K c)) [i..<j])"

lemma visits_children:
  assumes "length cs = 17" "\<forall>j < 17. if cs ! j = nilNode then K j = [] else live (cs ! j) \<and> visits G t (p @ [word_of_nat j]) (cs ! j) (K j)"
    and "is_node st = fullNode cs f" "i \<le> 17" "stands G t it (st\<lparr>is_index := int i - 1\<rparr> # s) p"
  shows "\<exists>es it'. steps G it es it' \<and> stands G t it' s (take (is_pathlen st) p) \<and> hexes es = below p (childEntries K i 17)"
  using assms(4,5)
proof (induction "17 - i" arbitrary: i it)
  case 0
  then have "i = 17" by simp
  then have "stands G t it s (take (is_pathlen st) p)"
    using stands_pop [OF 0(3)] assms(1,3) by (simp add: nextChild_def findChild_end)
  then show ?case using \<open>i = 17\<close> steps_refl by (fastforce simp: childEntries_def)
next
  case (Suc d)
  have i: "i < 17" and d: "d = 17 - Suc i" using Suc.hyps(2) by simp_all
  then have ce: "childEntries K i 17 = below [word_of_nat i] (K i) @ childEntries K (Suc i) 17"
    by (simp add: childEntries_def upt_conv_Cons)
  let ?st = "st\<lparr>is_index := int i - 1\<rparr>" and ?st1 = "st\<lparr>is_index := int (Suc i) - 1\<rparr>"
  have an: "ancestorOf ?st1 = ancestorOf ?st" by (simp add: ancestorOf_def)
  show ?case
  proof (cases "cs ! i = nilNode")
    case True
    have "nextChild G p ?st1 (ancestorOf ?st1) = nextChild G p ?st (ancestorOf ?st)"
      using findChild_nil [of i cs G p "ancestorOf ?st"] True i assms(1,3) unfolding an by (simp add: nextChild_def nat_add_distrib split: sum.split option.split)
    then have "peekLoop G (nextChild G) (fresh t (?st1 # s) p) (?st1 # s) = peekLoop G (nextChild G) (fresh t (?st # s) p) (?st # s)"
      by (simp add: fresh_def state_resolve_def resolveHash_def split: sum.split option.split prod.split node.split)
    then have "stands G t it (?st1 # s) p" using Suc.prems(2) unfolding stands_def by simp
    then show ?thesis using Suc.hyps(1) [OF d, of it] i ce assms(2) True by simp
  next
    case False
    then have kid: "live (cs ! i)" "visits G t (p @ [word_of_nat i]) (cs ! i) (K i)" using assms(2) i by auto
    with False obtain cst where cst: "childState G (cs ! i) (ancestorOf ?st) (length p) = Inr cst" "is_node cst = cs ! i" "is_index cst = -1" "is_pathlen cst = length p"
      using childState_ok kid by blast
    have "nextChild G p ?st (ancestorOf ?st) = Inr (Some (cst, p @ [word_of_nat i], ?st))"
      using findChild_found [OF _ False cst(1)] i assms(1,3) by (simp add: nextChild_def)
    then have "enters G t it (cs ! i) (p @ [word_of_nat i]) (length p) (?st1 # s)"
      using enters_child [OF Suc.prems(2)] cst by fastforce
    then obtain es it1 where e: "steps G it es it1" "stands G t it1 (?st1 # s) p" "hexes es = below (p @ [word_of_nat i]) (K i)"
      using kid unfolding visits_def by fastforce
    obtain es' it' where e': "steps G it1 es' it'" "stands G t it' s (take (is_pathlen st) p)" "hexes es' = below p (childEntries K (Suc i) 17)"
      using Suc.hyps(1) [OF d, of it1] i e(2) by auto
    then show ?thesis using steps_trans [OF e(1) e'(1)] e(3) ce by (intro exI [of _ "es @ es'"] exI [of _ it']) simp
  qed
qed

lemma visits_full:
  assumes "length cs = 17" "\<forall>j < 17. if cs ! j = nilNode then K j = [] else live (cs ! j) \<and> visits G t (p @ [word_of_nat j]) (cs ! j) (K j)" "\<not> hasTerm p"
  shows "visits G t p (fullNode cs f) (childEntries K 0 17)"
  unfolding visits_def
proof (intro allI impI)
  fix it q s assume "enters G t it (fullNode cs f) p q s"
  then obtain st where st: "is_node st = fullNode cs f" "is_index st = -1" "is_pathlen st = q"
    "\<And>es it'. steps G (fresh t (st # s) p) es it' \<Longrightarrow> steps G it es it'" using enters_branch [of G t it "fullNode cs f" p q s] assms(3) by auto
  have "st\<lparr>is_index := int 0 - 1\<rparr> = st" using st(2) by simp
  then have "stands G t (fresh t (st # s) p) (st\<lparr>is_index := int 0 - 1\<rparr> # s) p" using stands_fresh [of "st # s"] by simp
  then have "\<exists>es it'. steps G (fresh t (st # s) p) es it' \<and> stands G t it' s (take (is_pathlen st) p) \<and> hexes es = below p (childEntries K 0 17)"
    by (intro visits_children [OF assms(1,2) st(1)]) simp_all
  then show "\<exists>es it'. steps G it es it' \<and> stands G t it' s (take q p) \<and> hexes es = below p (childEntries K 0 17)"
    using st(3,4) by blast
qed

lemma visits_hash:
  assumes "visits G t p n kvs" "\<forall>h'. n \<noteq> hashNode h'" "trieReader_node G (reader t) p (BytesToHash G h) = Inr n"
  shows "visits G t p (hashNode h) kvs"
  unfolding visits_def
proof (intro allI impI)
  fix it q s assume "enters G t it (hashNode h) p q s"
  then obtain st where st: "is_node st = hashNode h" "is_index st = -1" "is_pathlen st = q"
    "\<And>st'. state_resolve G (fresh t s p) st p = Inr st' \<Longrightarrow> nodeIterator_Next G it True = okR (True, fresh t (st' # s) p)"
    unfolding enters_def by blast
  let ?st = "st\<lparr>is_node := n, is_hash := BytesToHash G h\<rparr>"
  have "state_resolve G (fresh t s p) st p = Inr ?st" using st(1) assms(3) by (simp add: state_resolve_def resolveHash_def fresh_def)
  moreover have "state_resolve G (fresh t s p) ?st p = Inr ?st" using assms(2) by (intro resolve_none) simp
  ultimately have "enters G t it n p q s" unfolding enters_def using st by (intro exI [of _ ?st]) auto
  then show "\<exists>es it'. steps G it es it' \<and> stands G t it' s (take q p) \<and> hexes es = below p kvs" using assms(1) by (simp add: visits_def)
qed


lemma map_of_below: "map_of (below k kvs) = prefixed k (map_of kvs)"
proof (rule ext)
  show "map_of (below k kvs) s = prefixed k (map_of kvs) s" for s
    by (induction kvs) (auto simp: prefixed_def prefix_def)
qed

lemma set_below: "set (map fst (below p kvs)) = (@) p ` set (map fst kvs)"
  by (auto simp: below_def)

lemma append_less: "(p @ s < p @ s') = (s < (s' :: bytes))"
  by (induction p) auto

lemma sorted_below: "sorted_wrt (<) (map fst (below p kvs)) = sorted_wrt (<) (map fst kvs)"
  by (simp add: below_def sorted_wrt_map append_less)

lemma childEntries_Suc: "i \<le> j \<Longrightarrow> childEntries K i (Suc j) = childEntries K i j @ below [word_of_nat j] (K j)"
  by (simp add: childEntries_def)

lemma childEntries_keys: "j \<le> 17 \<Longrightarrow> x \<in> set (map fst (childEntries K i j)) \<Longrightarrow> \<exists>c s. x = word_of_nat c # s \<and> i \<le> c \<and> c < j"
  by (auto simp: childEntries_def below_def)

lemma nat_byte_less: "i < 256 \<Longrightarrow> j < 256 \<Longrightarrow> (word_of_nat i :: byte) < word_of_nat j \<longleftrightarrow> i < j"
  by (simp add: word_less_nat_alt unat_of_nat)

lemma sorted_childEntries:
  "j \<le> 17 \<Longrightarrow> \<forall>c < j. sorted_wrt (<) (map fst (K c)) \<Longrightarrow> sorted_wrt (<) (map fst (childEntries K 0 j))"
proof (induction j)
  case (Suc j)
  have "x < y" if "x \<in> set (map fst (childEntries K 0 j))" "y \<in> set (map fst (below [word_of_nat j] (K j)))" for x y
  proof -
    note xy = that
    obtain c s where "x = word_of_nat c # s" "c < j" using childEntries_keys [OF _ xy(1)] Suc.prems(1) by auto
    moreover obtain s' where "y = word_of_nat j # s'" using xy(2) by (auto simp: below_def)
    ultimately show ?thesis using Suc.prems(1) nat_byte_less [of c j] by simp
  qed
  then show ?case using Suc by (auto simp: childEntries_Suc sorted_wrt_append sorted_below)
qed (simp add: childEntries_def)

lemma map_of_childEntries:
  "j \<le> 17 \<Longrightarrow> map_of (childEntries K 0 j) s = (case s of [] \<Rightarrow> None | x # s' \<Rightarrow> if unat x < j then map_of (K (unat x)) s' else None)"
proof (induction j)
  case (Suc j)
  then have j: "unat (word_of_nat j :: byte) = j" by (simp add: unat_of_nat)
  show ?case
  proof (cases s)
    case Nil
    then show ?thesis using Suc by (simp add: childEntries_Suc map_add_def map_of_below prefixed_def)
  next
    case (Cons x s')
    have x: "unat x = j \<longleftrightarrow> x = word_of_nat j" using j by (simp add: word_unat_eq_iff)
    show ?thesis using Suc j x Cons
      by (auto simp: childEntries_Suc map_add_def map_of_below prefixed_def less_Suc_eq split: option.split)
  qed
qed (simp add: childEntries_def split: list.split)


lemma resolves_node:
  assumes "resolves G R p h blob n" "n \<noteq> nilNode" "length h = 32" "hash_laws G"
  shows "trieReader_node G R p (BytesToHash G h) = Inr n"
proof -
  have b: "nodeBlob R p (BytesToHash G h) = Inr blob" "mustDecodeNode G (Some h) blob = Inr n" using assms(1) by (auto simp: resolves_def)
  moreover have "hash_bytes (BytesToHash G h) = h" using assms(3,4) by (simp add: hash_laws_def)
  ultimately show ?thesis using assms(2)
    by (auto simp: nodeBlob_def trieReader_node_def mustDecodeNode_def split: option.splits prod.splits sum.splits if_splits)
qed

fun kind_path :: "kind \<Rightarrow> bytes \<Rightarrow> bool" where
  "kind_path KNil p = True"
| "kind_path KVal p = hasTerm p"
| "kind_path kd p = nibbles p"

text \<open>What is found below a node.\<close>

definition enumerated :: "geth \<Rightarrow> Trie \<Rightarrow> bytes \<Rightarrow> node \<Rightarrow> (bytes \<rightharpoonup> bytes) \<Rightarrow> (bytes \<times> bytes) list \<Rightarrow> bool" where
  "enumerated G t p n m kvs \<longleftrightarrow> map_of kvs = m \<and> sorted_wrt (<) (map fst kvs) \<and> (if n = nilNode then kvs = [] else visits G t p n kvs)"

lemma tnode_enumerated:
  assumes "tnode G R p n kd m" "R = reader t" "rlp G" "hash_laws G" "sound_reader G R" "hash32 n"
    and "kind_path kd p" "\<forall>s \<in> dom m. p @ s \<in> range keybytesToHex"
  shows "\<exists>kvs. enumerated G t p n m kvs"
  using assms(1,6-8)
proof (induction rule: tnode.induct)
  case (t_nil p)
  show ?case by (intro exI [of _ "[]"]) (simp add: enumerated_def)
next
  case (t_val v p)
  have "p @ [] \<in> range keybytesToHex" using t_val.prems(3) by (rule bspec) (simp add: domIff)
  then obtain k where "p = keybytesToHex k" by auto
  then show ?case using visits_val t_val.prems(2) by (intro exI [of _ "[([], v)]"]) (simp add: enumerated_def fun_eq_iff)
next
  case (t_short p k c kd m f)
  have np: "nibbles p" using t_short.prems(2) by simp
  have c: "live c" "c \<noteq> nilNode" using tnode_live [OF t_short.hyps(1)] tnode_nil_iff [OF t_short.hyps(1)] t_short.hyps(2) by auto
  have "kind_path kd (p @ k)"
    using t_short.hyps(2) np by (auto simp: hex_key_def hasTerm_last)
  moreover have "\<forall>s \<in> dom m. (p @ k) @ s \<in> range keybytesToHex"
  proof
    fix s assume "s \<in> dom m"
    then have "k @ s \<in> dom (prefixed k m)" by (auto simp: domIff)
    then show "(p @ k) @ s \<in> range keybytesToHex" using t_short.prems(3) by simp
  qed
  ultimately obtain kvs where kvs: "enumerated G t (p @ k) c m kvs" using t_short.IH t_short.prems(1) by auto
  then show ?case using c visits_short [of G t p k c kvs f] nibbles_not_hasTerm [OF np]
    by (intro exI [of _ "below k kvs"]) (simp add: enumerated_def map_of_below sorted_below)
next
  case (t_full cs p ks ms f)
  have np: "nibbles p" using t_full.prems(2) by simp
  have "\<exists>kvs. enumerated G t (p @ [word_of_nat i]) (cs ! i) (ms i) kvs" if i: "i < 17" for i
  proof (rule t_full.IH [OF i])
    show "hash32 (cs ! i)" using t_full.prems(1) t_full.hyps(1) i by simp
    have "i = 16 \<or> (word_of_nat i :: byte) < 16" using nat_byte_less [of i 16] i by auto
    moreover have "i = 16" if "ks i = KVal" using t_full.hyps(3) [of i] i that by (cases "i < 16") auto
    ultimately show "kind_path (ks i) (p @ [word_of_nat i])" using np t_full.hyps(4) by (cases "ks i") (auto simp: hasTerm_last)
    show "\<forall>s \<in> dom (ms i). (p @ [word_of_nat i]) @ s \<in> range keybytesToHex"
    proof
      fix s assume "s \<in> dom (ms i)"
      then have "word_of_nat i # s \<in> dom (branching ms)" using i by (auto simp: branching_def unat_of_nat)
      then show "(p @ [word_of_nat i]) @ s \<in> range keybytesToHex" using t_full.prems(3) by fastforce
    qed
  qed
  then obtain K where K: "\<forall>i < 17. enumerated G t (p @ [word_of_nat i]) (cs ! i) (ms i) (K i)" by metis
  have "live (cs ! j)" if "j < 17" for j using tnode_live [OF t_full.hyps(2) [OF that]] .
  then have "visits G t p (fullNode cs f) (childEntries K 0 17)"
    using K t_full.hyps(1) nibbles_not_hasTerm [OF np] by (intro visits_full) (auto simp: enumerated_def split: if_splits)
  moreover have "map_of (childEntries K 0 17) = branching ms"
    using K by (auto simp: map_of_childEntries branching_def enumerated_def fun_eq_iff split: list.split)
  ultimately show ?case using K sorted_childEntries [of 17 K]
    by (intro exI [of _ "childEntries K 0 17"]) (simp add: enumerated_def)
next
  case (t_hash p h blob n kd m)
  have h: "length h = 32" using t_hash.prems by simp
  have "persists G R p (hashNode h)" using h by (simp add: persists_def)
  then have "hash32 n" using persists_resolved [OF assms(3,5,4) _ t_hash.hyps(1)] by (simp add: persists_def)
  then obtain kvs where kvs: "enumerated G t p n m kvs" using t_hash.IH t_hash.prems by blast
  have n: "n \<noteq> nilNode" using tnode_nil_iff [OF t_hash.hyps(2)] t_hash.hyps(3) by auto
  have "visits G t p (hashNode h) kvs"
    using visits_hash [of G t p n kvs h] kvs n t_hash.hyps(4) resolves_node [OF t_hash.hyps(1) n h assms(4)] assms(2) by (simp add: enumerated_def)
  then show ?case using kvs n by (intro exI [of _ kvs]) (simp add: enumerated_def)
qed


section \<open>The key-value iterator\<close>

text \<open>The loop \<open>for it.Next() { ... }\<close>: the keys and values it sees.\<close>

partial_function (option) collect :: "geth \<Rightarrow> Iterator \<Rightarrow> ((bytes option \<times> bytes option) list \<times> Iterator) res" where
  "collect G it =
     bindR (Iterator_Next G it) (\<lambda>(ok, it1).
       if \<not> ok then okR ([], it1)
       else bindR (collect G it1) (\<lambda>(es, it2). okR ((iter_Key it1, iter_Value it1) # es, it2)))"

lemma collect_steps:
  assumes "steps G nit es nit'" "nodeIterator_Next G nit' True = okR (False, nitE)" "nodeIt it = nit"
  shows "\<exists>it'. collect G it = okR (map (map_prod Some Some) es, it') \<and> nodeIt it' = nitE \<and> iter_Err it' = nodeIterator_Error nitE"
  using assms
proof (induction arbitrary: it rule: steps.induct)
  case (steps_refl nit)
  then have "Iterator_Next G it = okR (False, it\<lparr>nodeIt := nitE, iter_Key := None, iter_Value := None, iter_Err := nodeIterator_Error nitE\<rparr>)"
    by (simp add: Iterator_Next.simps)
  then show ?case by (simp add: collect.simps)
next
  case (steps_node nit nit1 es nit2)
  have "Iterator_Next G it = Iterator_Next G (it\<lparr>nodeIt := nit1\<rparr>)"
    using steps_node.hyps(1,2) steps_node.prems by (subst Iterator_Next.simps) (simp add: Let_def)
  then have "collect G it = collect G (it\<lparr>nodeIt := nit1\<rparr>)" by (simp add: collect.simps [of G it] collect.simps [of G "it\<lparr>nodeIt := nit1\<rparr>"])
  then show ?case using steps_node.IH [of "it\<lparr>nodeIt := nit1\<rparr>"] steps_node.prems by simp
next
  case (steps_leaf nit nit1 k v es nit2)
  let ?it = "it\<lparr>nodeIt := nit1, iter_Key := Some k, iter_Value := Some v\<rparr>"
  have "Iterator_Next G it = okR (True, ?it)"
    using steps_leaf.hyps(1-4) steps_leaf.prems by (subst Iterator_Next.simps) (simp add: Let_def)
  moreover obtain it' where "collect G ?it = okR (map (map_prod Some Some) es, it')" "nodeIt it' = nitE" "iter_Err it' = nodeIterator_Error nitE"
    using steps_leaf.IH [of ?it] steps_leaf.prems(1) by auto
  ultimately show ?case by (subst collect.simps) simp
qed

text \<open>The first step, from an iterator without a start key.\<close>

lemma root_resolved:
  assumes "durable G t m" "lawful G (reader t)" "is_node st = root t" "it_trie it = t" "it_resolver it = None"
  shows "\<exists>st'. state_resolve G it st [] = Inr st'"
proof (cases "\<exists>h. root t = hashNode h")
  case True
  then obtain h where h: "root t = hashNode h" by blast
  then have l: "length h = 32" using assms(1) by (simp add: durable_def persists_def)
  obtain kd mm where "tnode G (reader t) [] (hashNode h) kd mm" using assms(1) h by (auto simp: durable_def content_def)
  then obtain blob n where n: "resolves G (reader t) [] h blob n" "tnode G (reader t) [] n kd mm" "kd = KShort \<or> kd = KFull"
    by (auto elim: tnode_hashE)
  then have "n \<noteq> nilNode" using tnode_nil_iff [OF n(2)] by auto
  from resolves_node [OF n(1) this l] show ?thesis
    using assms h by (simp add: state_resolve_def resolveHash_def lawful_def)
next
  case False
  then show ?thesis using resolve_none [of st G it "[]"] assms(3) by auto
qed

lemma init_ok:
  assumes "durable G t m" "lawful G (reader t)" "it_trie it = t" "it_resolver it = None"
  shows "\<exists>t' st. nodeIterator_init G it = Inr (it\<lparr>it_trie := t'\<rparr>, Inr (st, False, [])) \<and> durable G t' m \<and> reader t' = reader t
    \<and> (\<exists>st0. is_node st0 = root t' \<and> is_index st0 = -1 \<and> is_pathlen st0 = 0 \<and> state_resolve G (it\<lparr>it_trie := t'\<rparr>) st0 [] = Inr st)"
proof -
  obtain t' where t': "Trie_Hash G t = Inr (rootHash G (root t), t')" "durable G t' m" "reader t' = reader t"
    using durable_hash [OF assms(1,2)] by blast
  let ?st = "\<lparr>is_hash = (if rootHash G (root t) \<noteq> EmptyRootHash G then rootHash G (root t) else 0), is_node = root t', is_parent = 0, is_index = -1,
     is_pathlen = 0\<rparr>"
  obtain st where "state_resolve G (it\<lparr>it_trie := t'\<rparr>) ?st [] = Inr st"
    using root_resolved [OF t'(2), of ?st "it\<lparr>it_trie := t'\<rparr>"] t'(3) assms(2,4) by auto
  then show ?thesis using t' assms(3) by (intro exI [of _ t'] exI [of _ st]) (simp add: nodeIterator_init_def Let_def, rule exI [of _ ?st], simp)
qed

lemma iterator_starts:
  assumes "durable G t m" "lawful G (reader t)" "rootHash G (root t) \<noteq> EmptyRootHash G"
  shows "\<exists>nit t'. newNodeIterator G t [] = okR nit \<and> durable G t' m \<and> reader t' = reader t \<and> enters G t' nit (root t') [] 0 []"
proof -
  obtain t1 where t1: "Trie_Hash G t = Inr (rootHash G (root t), t1)" "durable G t1 m" "reader t1 = reader t"
    using durable_hash [OF assms(1,2)] by blast
  have l1: "lawful G (reader t1)" using assms(2) t1(3) by simp
  let ?it = "\<lambda>t. \<lparr>it_trie = t, it_stack = [], it_path = [], it_err = None, it_resolver = None\<rparr>"
  obtain t2 st where t2: "nodeIterator_init G (?it t1) = Inr (?it t2, Inr (st, False, []))" "durable G t2 m" "reader t2 = reader t1"
    using init_ok [OF t1(2) l1, of "?it t1"] by auto
  have l2: "lawful G (reader t2)" using l1 t2(3) by simp
  have "nodeIterator_seek G (?it t1) [] = okR (None, ?it t2)"
    using t2(1) by (simp add: nodeIterator_seek_def keybytesToHex_unpack seekLoop.simps nodeIterator_peekSeek_def)
  then have n: "newNodeIterator G t [] = okR (?it t2)" using t1(1) assms(3) by (simp add: newNodeIterator_def Let_def)
  obtain t3 st3 st0 where t3: "nodeIterator_init G (?it t2) = Inr (?it t3, Inr (st3, False, []))" "durable G t3 m" "reader t3 = reader t2"
    "is_node st0 = root t3" "is_index st0 = -1" "is_pathlen st0 = 0" "state_resolve G (?it t3) st0 [] = Inr st3"
    using init_ok [OF t2(2) l2, of "?it t2"] by auto
  have "nodeIterator_Next G (?it t2) True = okR (True, fresh t3 [st3] [])"
    using t3(1) by (simp add: nodeIterator_Next_def nodeIterator_peek_def nodeIterator_push_def fresh_def)
  then have "enters G t3 (?it t2) (root t3) [] 0 []"
    using t3(4-7) unfolding enters_def by (intro exI [of _ st0]) (simp add: fresh_def)
  then show ?thesis using n t3(2,3) t2(3) t1(3) by auto
qed

lemma iterator_ends:
  assumes "stands G t it [] p"
  shows "\<exists>it'. nodeIterator_Next G it True = okR (False, it') \<and> nodeIterator_Error it' = None"
  using Next_stands [OF assms] by (simp add: nodeIterator_Error_def)

lemma hexes_content:
  assumes "map_of (hexes es) = mm" "m = (\<lambda>k. mm (keybytesToHex k))"
  shows "map_of es = m"
proof (rule ext)
  have "map_of (hexes es) (keybytesToHex k) = map_of es k" for k
    by (induction es) (auto simp: hexes_def)
  then show "map_of es k = m k" for k using assms by simp
qed

text \<open>C14: Iterating over a trie visits every key exactly once and ends. The loop \<open>for it.Next()\<close> over an iterator without a start key, on a trie over a
  sound store, loaded or not, returns the keys and values of the trie, each key once, in the order of their hex paths, and then stops without an error.\<close>

theorem iteration_complete:
  assumes "durable G t m" "lawful G (reader t)" "rootHash G (root t) = EmptyRootHash G \<longrightarrow> m = Map.empty"
  shows "\<exists>nit es it'. Trie_NodeIterator G t [] = okR nit \<and> collect G (NewIterator nit) = okR (map (map_prod Some Some) es, it')
    \<and> map_of es = m \<and> sorted_wrt (\<lambda>j k. keybytesToHex j < keybytesToHex k) (map fst es) \<and> distinct (map fst es) \<and> iter_Err it' = None"
proof (cases "rootHash G (root t) = EmptyRootHash G")
  case True
  obtain t1 where t1: "Trie_Hash G t = Inr (rootHash G (root t), t1)" using durable_hash [OF assms(1,2)] by blast
  let ?it = "\<lparr>it_trie = t1, it_stack = [], it_path = [], it_err = Some errIteratorEnd, it_resolver = None\<rparr>"
  have "Trie_NodeIterator G t [] = okR ?it" using t1 True by (simp add: Trie_NodeIterator_def newNodeIterator_def Let_def)
  moreover have "nodeIterator_Next G ?it True = okR (False, ?it)" by (simp add: nodeIterator_Next_def)
  then obtain it' where "collect G (NewIterator ?it) = okR ([], it')" "iter_Err it' = None"
    using collect_steps [OF steps_refl, of G ?it ?it "NewIterator ?it"] by (auto simp: NewIterator_def nodeIterator_Error_def)
  ultimately show ?thesis using True assms(3) by (intro exI [of _ ?it] exI [of _ "[]"] exI [of _ it']) simp
next
  case False
  obtain nit t' where n: "newNodeIterator G t [] = okR nit" "durable G t' m" "reader t' = reader t" "enters G t' nit (root t') [] 0 []"
    using iterator_starts [OF assms(1,2) False] by blast
  have l: "rlp G" "hash_laws G" "sound_reader G (reader t')" "lawful G (reader t')" using assms(2) n(3) by (simp_all add: lawful_def)
  obtain kd mm where c: "tnode G (reader t') [] (root t') kd mm" "kd \<noteq> KVal" "dom mm \<subseteq> range keybytesToHex" "m = (\<lambda>k. mm (keybytesToHex k))"
    using n(2) by (auto simp: durable_def content_def)
  have "hash32 (root t')" "kind_path kd []" using n(2) c(2) by (simp add: durable_def persists_def, cases kd) auto
  then obtain kvs where kvs: "enumerated G t' [] (root t') mm kvs" using tnode_enumerated [OF c(1) refl l(1-3)] c(3) by auto
  have "root t' \<noteq> nilNode" using False durable_rootHash [OF assms(1,2) n(2) l(4)] by (auto simp: rootHash_def)
  then obtain es it' where e: "steps G nit es it'" "stands G t' it' [] []" "hexes es = kvs"
    using kvs n(4) unfolding enumerated_def visits_def by fastforce
  obtain nitE where "nodeIterator_Next G it' True = okR (False, nitE)" "nodeIterator_Error nitE = None" using iterator_ends [OF e(2)] by blast
  then obtain it2 where it2: "collect G (NewIterator nit) = okR (map (map_prod Some Some) es, it2)" "iter_Err it2 = None"
    using collect_steps [OF e(1), of nitE "NewIterator nit"] by (auto simp: NewIterator_def)
  have s: "sorted_wrt (\<lambda>j k. keybytesToHex j < keybytesToHex k) (map fst es)"
    using kvs e(3) by (auto simp: enumerated_def hexes_def sorted_wrt_map)
  then have "distinct (map fst es)" by (auto simp: distinct_conv_nth sorted_wrt_iff_nth_less) (metis less_irrefl linorder_neqE_nat)
  then show ?thesis using n(1) it2 s hexes_content [of es mm m] kvs e(3) c(4)
    by (intro exI [of _ nit] exI [of _ es] exI [of _ it2]) (simp add: Trie_NodeIterator_def enumerated_def)
qed

theorem iteration_complete_witness:
  "\<exists>nit es it'. Trie_NodeIterator ref_geth (leafTrie 7) [] = okR nit \<and> collect ref_geth (NewIterator nit) = okR (map (map_prod Some Some) es, it')
    \<and> map_of es = [[1] \<mapsto> [7]] \<and> iter_Err it' = None"
proof -
  have "rootHash ref_geth (root (leafTrie 7)) = 0xc482200107"
    by (simp add: leafTrie_def rootHash_def compactKey_def compact_of_def path_part_def hasTerm_def embed_def leaf_encoded leaf_hashed)
  moreover have "EmptyRootHash ref_geth \<noteq> 0xc482200107" by (simp add: ref_geth_def)
  ultimately show ?thesis using iteration_complete [OF leafTrie_durable, of 7] by auto
qed

end
