(* ===== verification/CidQueries.thy ===== *)
theory CidQueries
  imports CidStorage IteratorProps
begin

text \<open>
  The queries of the trie-backed \<open>StateDB\<close> that go to the tries directly: Merkle proofs of accounts and slots, and the walk over the
  storage of an account (\<open>GetProof\<close>, \<open>GetProofByHash\<close>, \<open>GetStorageProof\<close>, \<open>ForEachStorage\<close> of \<open>trie_by_cid/state/statedb.go\<close>).
  \<open>proofList\<close> is the list of the values put. The callback of \<open>ForEachStorage\<close> has a state of its own.
\<close>

section \<open>Proofs\<close>

definition proofList_Put :: "bytes list \<Rightarrow> bytes \<times> bytes \<Rightarrow> bytes list" where
  "proofList_Put n kv = n @ [snd kv]"

definition GetProofByHash :: "geth \<Rightarrow> cidDB \<Rightarrow> hash \<Rightarrow> (bytes list \<times> goerr option) res" where
  "GetProofByHash G s addrHsh =
     bindR (StateTrie_Prove G (db_trie s) (hash_bytes addrHsh) 0) (\<lambda>r.
       case r of Inl e \<Rightarrow> okR ([], Some (trieErr e)) | Inr puts \<Rightarrow> okR (foldl proofList_Put [] puts, None))"

definition GetProof :: "geth \<Rightarrow> cidDB \<Rightarrow> address \<Rightarrow> (bytes list \<times> goerr option) res" where
  "GetProof G s a = GetProofByHash G s (keccak256 G (address_bytes a))"

definition GetStorageProof ::
    "geth \<Rightarrow> stateEnv \<Rightarrow> hash list \<Rightarrow> cidDB \<Rightarrow> address \<Rightarrow> hash \<Rightarrow> ((bytes list \<times> goerr option) \<times> cidDB) res" where
  "GetStorageProof G E order s a key =
     bindR (StorageTrie G E order s a) (\<lambda>(r, s1).
       case r of
         Inl e \<Rightarrow> okR (([], Some e), s1)
       | Inr None \<Rightarrow> okR (([], Some (Err ''storage trie for requested address does not exist'')), s1)
       | Inr (Some tr) \<Rightarrow>
           bindR (StateTrie_Prove G tr (hash_bytes (keccak256 G (hash_bytes key))) 0) (\<lambda>p.
             case p of Inl e \<Rightarrow> okR (([], Some (trieErr e)), s1) | Inr puts \<Rightarrow> okR ((foldl proofList_Put [] puts, None), s1)))"

section \<open>Walking the storage\<close>

text \<open>The loop; \<open>acct\<close> is the account trie, whose \<open>GetKey\<close> turns hashed keys back.\<close>

partial_function (option) forEachLoop ::
    "geth \<Rightarrow> preimageStore \<Rightarrow> ('c \<Rightarrow> hash \<Rightarrow> hash \<Rightarrow> bool \<times> 'c) \<Rightarrow> (hash \<rightharpoonup> hash) \<Rightarrow> StateTrie \<Rightarrow> Iterator \<Rightarrow> 'c
       \<Rightarrow> (goerr option \<times> StateTrie \<times> Iterator \<times> 'c) res" where
  "forEachLoop G st cb ds acct it c =
     bindR (Iterator_Next G it) (\<lambda>(ok, it1).
       if \<not> ok then okR (None, acct, it1, c)
       else let raw = GetKey G st acct (case iter_Key it1 of None \<Rightarrow> [] | Some k \<Rightarrow> k);
                acct1 = snd raw;
                key = BytesToHash G (case fst raw of None \<Rightarrow> [] | Some k \<Rightarrow> k);
                val = (case iter_Value it1 of None \<Rightarrow> [] | Some v \<Rightarrow> v)
            in case ds key of
                 Some v \<Rightarrow>
                   (if fst (cb c key v) then forEachLoop G st cb ds acct1 it1 (snd (cb c key v)) else okR (None, acct1, it1, snd (cb c key v)))
               | None \<Rightarrow>
                   (if length val > 0
                    then (case rlpSplit G val of
                            (_, _, _, Some e) \<Rightarrow> okR (Some e, acct1, it1, c)
                          | (_, cont, _, None) \<Rightarrow>
                              (if fst (cb c key (BytesToHash G cont)) then forEachLoop G st cb ds acct1 it1 (snd (cb c key (BytesToHash G cont)))
                               else okR (None, acct1, it1, snd (cb c key (BytesToHash G cont)))))
                    else forEachLoop G st cb ds acct1 it1 c))"

text \<open>The iterator works on the trie of the object, so the object keeps the hashes it caches.\<close>

definition ForEachStorage ::
    "geth \<Rightarrow> stateEnv \<Rightarrow> preimageStore \<Rightarrow> cidDB \<Rightarrow> address \<Rightarrow> ('c \<Rightarrow> hash \<Rightarrow> hash \<Rightarrow> bool \<times> 'c) \<Rightarrow> 'c \<Rightarrow> (goerr option \<times> cidDB \<times> 'c) res" where
  "ForEachStorage G E st s a cb c =
     bindR (getStateObject G E s a) (\<lambda>(obj, s1).
       case obj of
         None \<Rightarrow> okR (None, s1, c)
       | Some so \<Rightarrow>
           bindR (getTrie E s1 so) (\<lambda>(r, so1).
             case r of
               Inl e \<Rightarrow> okR (Some e, s1, c)
             | Inr tr \<Rightarrow>
                 bindR (StateTrie_NodeIterator G tr []) (\<lambda>nit.
                 bindR (forEachLoop G st cb (dirtyStorage so1) (db_trie s1) (NewIterator nit) c) (\<lambda>(err, acct, it, c1).
                   okR (err, setStateObject (s1\<lparr>db_trie := acct\<rparr>) (so1\<lparr>obj_trie := Some (tr\<lparr>trie := it_trie (nodeIt it)\<rparr>)\<rparr>), c1)))))"

section \<open>The proof of an account\<close>

lemma proofList_all: "foldl proofList_Put acc puts = acc @ map snd puts"
  by (induction puts arbitrary: acc) (simp_all add: proofList_Put_def)

text \<open>\<open>GetProof\<close> returns the elements of a proof that answers for the account as the account trie does.\<close>

lemma GetProof_answers:
  assumes "secured G (db_trie s) A" "small_content A" "A \<noteq> Map.empty"
  shows "\<exists>puts. GetProof G s a = okR (map snd puts, None) \<and> puts \<noteq> [] \<and> fst (hd puts) = hash_bytes (rootHash G (root (trie (db_trie s))))
    \<and> (\<forall>R tr. (\<forall>(h, blob) \<in> set puts. \<forall>path. nodeBlob R path (BytesToHash G h) = Inr blob) \<longrightarrow>
         (\<exists>tr' n d. tryGet G R tr (hashNode (hash_bytes (rootHash G (root (trie (db_trie s)))))) (keybytesToHex (hashKey G (address_bytes a))) 0
            = Some (Returns tr' (A (hashKey G (address_bytes a)), n, d))))"
  using Prove_answers [of G "trie (db_trie s)" A "hashKey G (address_bytes a)"] assms
  by (auto simp: secured_def GetProof_def GetProofByHash_def StateTrie_Prove_def proofList_all hashKey_def)

end
