(* ===== verification/Prefetcher.thy ===== *)
theory Prefetcher
  imports CidStorage
begin

text \<open>
  The trie prefetcher, \<open>trie_by_cid/state/trie_prefetcher.go\<close>. Every trie that is prefetched has a \<open>subfetcher\<close>, whose goroutine \<open>loop\<close> runs beside the
  caller. A subfetcher is a state machine: \<open>sf_loop\<close> is where the goroutine is, the buffered channel \<open>wake\<close> a flag, and a closed
  channel (\<open>stop\<close>, \<open>term\<close>) a flag too; \<open>sf_copy\<close> says that a caller waits in \<open>peek\<close> with its request. \<open>loop_step\<close> has one
  rule per case of the \<open>select\<close> statements: a case can be taken when its channel is ready, \<open>default\<close> only when none is. Receiving from
  \<open>wake\<close> and taking the tasks is one step, which is no restriction: tasks that are appended in between are taken either way.
  A lookup is two steps, its call (\<open>Loading\<close>) and its return, so that callers act while it runs; one that does not return leaves
  the goroutine at \<open>Loading\<close>.
  \<open>sf_step\<close> adds the steps of the callers. Metrics and logs are left out.
\<close>

section \<open>Subfetchers\<close>

datatype loopState = Opening | Waiting | Fetching "bytes list" | Loading bytes "bytes list" | Terminated | Crashed panic

record subfetcher =
  sf_state :: hash
  sf_owner :: hash
  sf_root :: hash
  sf_trie :: "StateTrie option"
  sf_tasks :: "bytes list"
  sf_wake :: bool
  sf_stop :: bool
  sf_term :: bool
  sf_copy :: bool
  sf_seen :: "bytes set"
  sf_dups :: int
  sf_used :: "bytes list"
  sf_loop :: loopState

definition newSubfetcher :: "hash \<Rightarrow> hash \<Rightarrow> hash \<Rightarrow> subfetcher" where
  "newSubfetcher st own rt =
     \<lparr>sf_state = st, sf_owner = own, sf_root = rt, sf_trie = None, sf_tasks = [], sf_wake = False, sf_stop = False, sf_term = False, sf_copy = False,
      sf_seen = {}, sf_dups = 0, sf_used = [], sf_loop = Opening\<rparr>"

text \<open>The two halves of \<open>schedule\<close>; sending to \<open>wake\<close> when it is full does nothing.\<close>

definition scheduleAppend :: "bytes list \<Rightarrow> subfetcher \<Rightarrow> subfetcher" where
  "scheduleAppend keys sf = sf\<lparr>sf_tasks := sf_tasks sf @ keys\<rparr>"

definition scheduleNotify :: "subfetcher \<Rightarrow> subfetcher" where
  "scheduleNotify sf = sf\<lparr>sf_wake := True\<rparr>"

definition schedule :: "bytes list \<Rightarrow> subfetcher \<Rightarrow> subfetcher" where
  "schedule keys sf = scheduleNotify (scheduleAppend keys sf)"

text \<open>\<open>peek\<close> offers a request, or answers itself when the goroutine has ended; \<open>abort\<close> closes \<open>stop\<close> and waits for \<open>term\<close>.\<close>

definition peekRequest :: "subfetcher \<Rightarrow> subfetcher" where
  "peekRequest sf = sf\<lparr>sf_copy := True\<rparr>"

definition peekTerminated :: "Database \<Rightarrow> subfetcher \<Rightarrow> StateTrie option" where
  "peekTerminated db sf = map_option (CopyTrie db) (sf_trie sf)"

definition abortRequest :: "subfetcher \<Rightarrow> subfetcher" where
  "abortRequest sf = sf\<lparr>sf_stop := True\<rparr>"

section \<open>The goroutine\<close>

definition loopOpen :: "Database \<Rightarrow> subfetcher \<Rightarrow> panic + trieError + StateTrie" where
  "loopOpen db sf = (if sf_owner sf = 0 then OpenTrie db (sf_root sf) else OpenStorageTrie db (sf_state sf) (sf_owner sf) (sf_root sf))"

definition loopReturn :: "subfetcher \<Rightarrow> subfetcher" where
  "loopReturn sf = sf\<lparr>sf_term := True, sf_loop := Terminated\<rparr>"

definition fetchTask :: "geth \<Rightarrow> StateTrie \<Rightarrow> bytes \<Rightarrow> subfetcher \<Rightarrow> subfetcher res" where
  "fetchTask G tr task sf =
     (if task \<in> sf_seen sf then okR (sf\<lparr>sf_dups := sf_dups sf + 1\<rparr>)
      else bindR (StateTrie_TryGet G tr task) (\<lambda>(_, tr1). okR (sf\<lparr>sf_trie := Some tr1, sf_seen := insert task (sf_seen sf)\<rparr>)))"

text \<open>What a step hands out: nothing, or a copy of the trie and the tasks the loop moves past while it does so.\<close>

type_synonym grant = "(StateTrie \<times> bytes list) option"

inductive loop_step :: "geth \<Rightarrow> Database \<Rightarrow> subfetcher \<Rightarrow> grant \<Rightarrow> subfetcher \<Rightarrow> bool" for G :: geth and db :: Database where
  open_ok: "sf_loop sf = Opening \<Longrightarrow> loopOpen db sf = Inr (Inr tr) \<Longrightarrow> loop_step G db sf None (sf\<lparr>sf_trie := Some tr, sf_loop := Waiting\<rparr>)"
| open_err: "sf_loop sf = Opening \<Longrightarrow> loopOpen db sf = Inr (Inl e) \<Longrightarrow> loop_step G db sf None (loopReturn sf)"
| open_panic: "sf_loop sf = Opening \<Longrightarrow> loopOpen db sf = Inl p \<Longrightarrow> loop_step G db sf None (sf\<lparr>sf_loop := Crashed p\<rparr>)"
| wait_wake: "sf_loop sf = Waiting \<Longrightarrow> sf_wake sf \<Longrightarrow>
    loop_step G db sf None (sf\<lparr>sf_wake := False, sf_tasks := [], sf_loop := Fetching (sf_tasks sf)\<rparr>)"
| wait_copy: "sf_loop sf = Waiting \<Longrightarrow> sf_copy sf \<Longrightarrow> sf_trie sf = Some tr \<Longrightarrow>
    loop_step G db sf (Some (CopyTrie db tr, [])) (sf\<lparr>sf_copy := False\<rparr>)"
| wait_stop: "sf_loop sf = Waiting \<Longrightarrow> sf_stop sf \<Longrightarrow> loop_step G db sf None (loopReturn sf)"
| fetch_stop: "sf_loop sf = Fetching (task # tasks) \<Longrightarrow> sf_stop sf \<Longrightarrow>
    loop_step G db sf None (loopReturn (sf\<lparr>sf_tasks := sf_tasks sf @ task # tasks\<rparr>))"
| fetch_copy: "sf_loop sf = Fetching (task # tasks) \<Longrightarrow> sf_copy sf \<Longrightarrow> sf_trie sf = Some tr \<Longrightarrow>
    loop_step G db sf (Some (CopyTrie db tr, [task])) (sf\<lparr>sf_copy := False, sf_loop := Fetching tasks\<rparr>)"
| fetch_begin: "sf_loop sf = Fetching (task # tasks) \<Longrightarrow> \<not> sf_stop sf \<Longrightarrow> \<not> sf_copy sf \<Longrightarrow>
    loop_step G db sf None (sf\<lparr>sf_loop := Loading task tasks\<rparr>)"
| fetch_done: "sf_loop sf = Loading task tasks \<Longrightarrow> sf_trie sf = Some tr \<Longrightarrow>
    fetchTask G tr task sf = okR sf' \<Longrightarrow> loop_step G db sf None (sf'\<lparr>sf_loop := Fetching tasks\<rparr>)"
| fetch_panic: "sf_loop sf = Loading task tasks \<Longrightarrow> sf_trie sf = Some tr \<Longrightarrow>
    fetchTask G tr task sf = Some (Inl p) \<Longrightarrow> loop_step G db sf None (sf\<lparr>sf_loop := Crashed p\<rparr>)"
| fetch_end: "sf_loop sf = Fetching [] \<Longrightarrow> loop_step G db sf None (sf\<lparr>sf_loop := Waiting\<rparr>)"

text \<open>Runs of the goroutine alone.\<close>

inductive loop_run :: "geth \<Rightarrow> Database \<Rightarrow> nat \<Rightarrow> subfetcher \<Rightarrow> subfetcher \<Rightarrow> bool" for G :: geth and db :: Database where
  run_none: "loop_run G db 0 sf sf"
| run_step: "loop_step G db sf g sf1 \<Longrightarrow> loop_run G db n sf1 sf2 \<Longrightarrow> loop_run G db (Suc n) sf sf2"

section \<open>The system\<close>

datatype sfEvent = Scheduled "bytes list" | Notified | Requested | Aborted | Delivered "StateTrie option" "bytes list" | Internal

inductive sf_step :: "geth \<Rightarrow> Database \<Rightarrow> subfetcher \<Rightarrow> sfEvent \<Rightarrow> subfetcher \<Rightarrow> bool" for G :: geth and db :: Database where
  s_append: "sf_step G db sf (Scheduled keys) (scheduleAppend keys sf)"
| s_notify: "sf_step G db sf Notified (scheduleNotify sf)"
| s_request: "sf_step G db sf Requested (peekRequest sf)"
| s_abort: "sf_step G db sf Aborted (abortRequest sf)"
| s_loop: "loop_step G db sf None sf' \<Longrightarrow> sf_step G db sf Internal sf'"
| s_grant: "loop_step G db sf (Some (tr, skipped)) sf' \<Longrightarrow> sf_step G db sf (Delivered (Some tr) skipped) sf'"
| s_peek: "sf_copy sf \<Longrightarrow> sf_term sf \<Longrightarrow> sf_step G db sf (Delivered (peekTerminated db sf) []) (sf\<lparr>sf_copy := False\<rparr>)"

inductive sf_run :: "geth \<Rightarrow> Database \<Rightarrow> subfetcher \<Rightarrow> sfEvent list \<Rightarrow> subfetcher \<Rightarrow> bool" for G :: geth and db :: Database where
  run_nil: "sf_run G db sf [] sf"
| run_snoc: "sf_run G db sf evs sf1 \<Longrightarrow> sf_step G db sf1 e sf2 \<Longrightarrow> sf_run G db sf (evs @ [e]) sf2"

section \<open>The prefetcher\<close>

record triePrefetcher =
  tp_root :: hash
  tp_fetches :: "(bytes \<rightharpoonup> StateTrie) option"
  tp_fetchers :: "(bytes \<rightharpoonup> subfetcher) option"

definition newTriePrefetcher :: "hash \<Rightarrow> triePrefetcher" where
  "newTriePrefetcher rt = \<lparr>tp_root = rt, tp_fetches = None, tp_fetchers = Some Map.empty\<rparr>"

definition trieID :: "hash \<Rightarrow> hash \<Rightarrow> bytes" where
  "trieID own rt = hash_bytes own @ hash_bytes rt"

text \<open>Reading from a nil map finds nothing, writing to it panics.\<close>

definition fetcherOf :: "triePrefetcher \<Rightarrow> bytes \<Rightarrow> subfetcher option" where
  "fetcherOf p i = Option.bind (tp_fetchers p) (\<lambda>m. m i)"

definition prefetch :: "triePrefetcher \<Rightarrow> hash \<Rightarrow> hash \<Rightarrow> bytes list \<Rightarrow> panic + triePrefetcher" where
  "prefetch p own rt keys =
     (if tp_fetches p \<noteq> None then Inr p
      else let i = trieID own rt
           in case fetcherOf p i of
                Some sf \<Rightarrow> Inr (p\<lparr>tp_fetchers := map_option (\<lambda>m. m(i \<mapsto> schedule keys sf)) (tp_fetchers p)\<rparr>)
              | None \<Rightarrow>
                  (case tp_fetchers p of
                     None \<Rightarrow> Inl (PanicMsg ''assignment to entry in nil map'')
                   | Some m \<Rightarrow> Inr (p\<lparr>tp_fetchers := Some (m(i \<mapsto> schedule keys (newSubfetcher (tp_root p) own rt)))\<rparr>)))"

definition prefetcher_used :: "triePrefetcher \<Rightarrow> hash \<Rightarrow> hash \<Rightarrow> bytes list \<Rightarrow> triePrefetcher" where
  "prefetcher_used p own rt us =
     (let i = trieID own rt
      in case fetcherOf p i of
           None \<Rightarrow> p
         | Some sf \<Rightarrow> p\<lparr>tp_fetchers := map_option (\<lambda>m. m(i \<mapsto> sf\<lparr>sf_used := us\<rparr>)) (tp_fetchers p)\<rparr>)"

text \<open>\<open>abort\<close> returns when the goroutine has ended.\<close>

definition aborts :: "geth \<Rightarrow> Database \<Rightarrow> subfetcher \<Rightarrow> subfetcher \<Rightarrow> bool" where
  "aborts G db sf sf' \<longleftrightarrow> (\<exists>n. loop_run G db n (abortRequest sf) sf') \<and> sf_term sf'"

text \<open>\<open>peek\<close>: a copy from the goroutine while it runs, or from the trie it left.\<close>

inductive peeks :: "geth \<Rightarrow> Database \<Rightarrow> subfetcher \<Rightarrow> StateTrie option \<Rightarrow> subfetcher \<Rightarrow> bool" for G :: geth and db :: Database where
  peek_granted: "loop_run G db n (peekRequest sf) sf1 \<Longrightarrow> loop_step G db sf1 (Some (tr, skipped)) sf' \<Longrightarrow> peeks G db sf (Some tr) sf'"
| peek_terminated: "loop_run G db n (peekRequest sf) sf1 \<Longrightarrow> sf_term sf1 \<Longrightarrow> peeks G db sf (peekTerminated db sf1) (sf1\<lparr>sf_copy := False\<rparr>)"

inductive prefetcher_trie :: "geth \<Rightarrow> Database \<Rightarrow> triePrefetcher \<Rightarrow> hash \<Rightarrow> hash \<Rightarrow> StateTrie option \<Rightarrow> triePrefetcher \<Rightarrow> bool"
  for G :: geth and db :: Database where
  trie_inactive: "tp_fetches p = Some F \<Longrightarrow> prefetcher_trie G db p own rt (map_option (CopyTrie db) (F (trieID own rt))) p"
| trie_unknown: "tp_fetches p = None \<Longrightarrow> fetcherOf p (trieID own rt) = None \<Longrightarrow> prefetcher_trie G db p own rt None p"
| trie_active: "tp_fetches p = None \<Longrightarrow> fetcherOf p (trieID own rt) = Some sf \<Longrightarrow> aborts G db sf sf1 \<Longrightarrow> peeks G db sf1 r sf2 \<Longrightarrow>
    prefetcher_trie G db p own rt r (p\<lparr>tp_fetchers := map_option (\<lambda>m. m(trieID own rt \<mapsto> sf2)) (tp_fetchers p)\<rparr>)"

inductive prefetcher_copy :: "geth \<Rightarrow> Database \<Rightarrow> triePrefetcher \<Rightarrow> triePrefetcher \<Rightarrow> triePrefetcher \<Rightarrow> bool" for G :: geth and db :: Database where
  copy_inactive: "tp_fetches p = Some F \<Longrightarrow>
    prefetcher_copy G db p \<lparr>tp_root = tp_root p, tp_fetches = Some (\<lambda>i. map_option (CopyTrie db) (F i)), tp_fetchers = None\<rparr> p"
| copy_active: "tp_fetches p = None \<Longrightarrow> (\<forall>i sf. fetcherOf p i = Some sf \<longrightarrow> (\<exists>sf'. m' i = Some sf' \<and> peeks G db sf (F i) sf')) \<Longrightarrow>
    (\<forall>i. fetcherOf p i = None \<longrightarrow> m' i = None \<and> F i = None) \<Longrightarrow>
    prefetcher_copy G db p \<lparr>tp_root = tp_root p, tp_fetches = Some F, tp_fetchers = None\<rparr> (p\<lparr>tp_fetchers := map_option (\<lambda>_. m') (tp_fetchers p)\<rparr>)"

text \<open>\<open>close\<close> returns when all goroutines have ended.\<close>

inductive prefetcher_close :: "geth \<Rightarrow> Database \<Rightarrow> triePrefetcher \<Rightarrow> triePrefetcher \<Rightarrow> bool" for G :: geth and db :: Database where
  close_all: "(\<forall>i sf. fetcherOf p i = Some sf \<longrightarrow> (\<exists>sf'. aborts G db sf sf')) \<Longrightarrow> prefetcher_close G db p (p\<lparr>tp_fetchers := None\<rparr>)"

section \<open>What a run keeps\<close>

inductive_cases loop_stepE: "loop_step G db sf g sf'"
inductive_cases sf_stepE: "sf_step G db sf e sf'"

text \<open>The task that is being looked up, and the rest of the batch the loop has taken from the queue.\<close>

definition inFlight :: "subfetcher \<Rightarrow> bytes list" where
  "inFlight sf = (case sf_loop sf of Loading task _ \<Rightarrow> [task] | _ \<Rightarrow> [])"

definition batch :: "subfetcher \<Rightarrow> bytes list" where
  "batch sf = (case sf_loop sf of Fetching tasks \<Rightarrow> tasks | Loading _ tasks \<Rightarrow> tasks | _ \<Rightarrow> [])"

definition pending :: "subfetcher \<Rightarrow> bytes list" where
  "pending sf = inFlight sf @ batch sf"

lemmas pending_defs = pending_def inFlight_def batch_def

fun scheduledKeys :: "sfEvent list \<Rightarrow> bytes list" where
  "scheduledKeys (Scheduled keys # evs) = keys @ scheduledKeys evs"
| "scheduledKeys (_ # evs) = scheduledKeys evs"
| "scheduledKeys [] = []"

fun skippedKeys :: "sfEvent list \<Rightarrow> bytes list" where
  "skippedKeys (Delivered _ skipped # evs) = skipped @ skippedKeys evs"
| "skippedKeys (_ # evs) = skippedKeys evs"
| "skippedKeys [] = []"

lemma keys_append [simp]:
  "scheduledKeys (evs @ evs') = scheduledKeys evs @ scheduledKeys evs'" "skippedKeys (evs @ evs') = skippedKeys evs @ skippedKeys evs'"
  by (induction evs rule: scheduledKeys.induct) simp_all

text \<open>The trie that is prefetched answers as it did when it was opened, and the loop has one exactly from then on.\<close>

definition fetcher_ok :: "geth \<Rightarrow> (bytes \<rightharpoonup> bytes) \<Rightarrow> subfetcher \<Rightarrow> bool" where
  "fetcher_ok G m sf \<longleftrightarrow> (\<forall>tr. sf_trie sf = Some tr \<longrightarrow> secured G tr m) \<and> (\<forall>p. sf_loop sf \<noteq> Crashed p)
     \<and> (sf_loop sf = Waiting \<or> (\<exists>ts. sf_loop sf = Fetching ts) \<or> (\<exists>t ts. sf_loop sf = Loading t ts) \<longrightarrow> sf_trie sf \<noteq> None)"

lemma fetchTask_secured:
  assumes "secured G tr m"
  shows "\<exists>sf'. fetchTask G tr task sf = okR sf' \<and> sf_seen sf' = insert task (sf_seen sf) \<and> sf_tasks sf' = sf_tasks sf
    \<and> (sf_trie sf' = sf_trie sf \<or> (\<exists>tr'. sf_trie sf' = Some tr' \<and> secured G tr' m))"
proof (cases "task \<in> sf_seen sf")
  case True
  then show ?thesis by (simp add: fetchTask_def insert_absorb)
next
  case False
  obtain tr' where "StateTrie_TryGet G tr task = okR ((m (hashKey G task), None), tr')" "secured G tr' m" using secured_get [OF assms] by blast
  then show ?thesis using False by (simp add: fetchTask_def)
qed

lemma loop_keeps:
  assumes "loop_step G db sf g sf'" "fetcher_ok G m sf"
    and "\<And>tr. loopOpen db sf = Inr (Inr tr) \<Longrightarrow> secured G tr m" "\<And>tr. secured G tr m \<Longrightarrow> secured G (CopyTrie db tr) m" "\<And>p. loopOpen db sf \<noteq> Inl p"
  shows "fetcher_ok G m sf' \<and> (\<forall>tr sk. g = Some (tr, sk) \<longrightarrow> secured G tr m)
    \<and> sf_seen sf \<union> set (sf_tasks sf) \<union> set (pending sf) \<subseteq> sf_seen sf' \<union> set (sf_tasks sf') \<union> set (pending sf') \<union> (case g of None \<Rightarrow> {} | Some (_, sk) \<Rightarrow> set sk)"
  using assms(1)
proof (cases rule: loop_step.cases)
  case (fetch_done task tasks tr sf1)
  then have "secured G tr m" using assms(2) by (simp add: fetcher_ok_def)
  from fetchTask_secured [OF this, of task sf] fetch_done assms(2) show ?thesis by (auto simp: fetcher_ok_def pending_defs)
next
  case (fetch_panic task tasks tr p)
  then have "secured G tr m" using assms(2) by (simp add: fetcher_ok_def)
  from fetchTask_secured [OF this, of task sf] fetch_panic show ?thesis by auto
qed (use assms(2-5) in \<open>auto simp: fetcher_ok_def pending_defs loopReturn_def\<close>)

text \<open>Where the loop is and which trie it opens.\<close>

definition same_target :: "subfetcher \<Rightarrow> subfetcher \<Rightarrow> bool" where
  "same_target sf sf' \<longleftrightarrow> sf_state sf' = sf_state sf \<and> sf_owner sf' = sf_owner sf \<and> sf_root sf' = sf_root sf"

lemma target_open: "same_target sf sf' \<Longrightarrow> loopOpen db sf' = loopOpen db sf"
  by (simp add: same_target_def loopOpen_def)

lemma fetchTask_fields:
  "fetchTask G tr task sf = okR sf' \<Longrightarrow> same_target sf sf' \<and> sf_term sf' = sf_term sf \<and> sf_stop sf' = sf_stop sf \<and> sf_copy sf' = sf_copy sf \<and> sf_wake sf' = sf_wake sf"
  by (auto simp: fetchTask_def same_target_def bindR_def split: if_splits option.splits sum.splits)

lemma loop_fields:
  "loop_step G db sf g sf' \<Longrightarrow> (sf_term sf \<longleftrightarrow> sf_loop sf = Terminated) \<Longrightarrow>
   same_target sf sf' \<and> (sf_term sf' \<longleftrightarrow> sf_loop sf' = Terminated) \<and> sf_stop sf' = sf_stop sf \<and> (sf_copy sf' \<longrightarrow> sf_copy sf)"
  by (induction rule: loop_step.induct) (auto simp: same_target_def loopReturn_def dest!: fetchTask_fields)

lemma run_fields:
  "sf_run G db sf evs sf' \<Longrightarrow> (sf_term sf \<longleftrightarrow> sf_loop sf = Terminated) \<Longrightarrow> same_target sf sf' \<and> (sf_term sf' \<longleftrightarrow> sf_loop sf' = Terminated)"
proof (induction rule: sf_run.induct)
  case (run_snoc sf evs sf1 e sf2)
  have "same_target sf1 sf2 \<and> (sf_term sf2 \<longleftrightarrow> sf_loop sf2 = Terminated)"
    using run_snoc.hyps(2) run_snoc.IH [OF run_snoc.prems] loop_fields
    by (cases rule: sf_step.cases) (auto simp: same_target_def scheduleAppend_def scheduleNotify_def peekRequest_def abortRequest_def)
  then show ?case using run_snoc by (auto simp: same_target_def)
qed (simp add: same_target_def)

lemma new_fields [simp]: "sf_term (newSubfetcher st own rt) \<longleftrightarrow> sf_loop (newSubfetcher st own rt) = Terminated"
  by (simp add: newSubfetcher_def)

lemma run_keeps:
  assumes "sf_run G db sf0 evs sf" "sf0 = newSubfetcher st own rt"
    and "\<And>tr. loopOpen db sf0 = Inr (Inr tr) \<Longrightarrow> secured G tr m" "\<And>tr. secured G tr m \<Longrightarrow> secured G (CopyTrie db tr) m" "\<And>p. loopOpen db sf0 \<noteq> Inl p"
  shows "fetcher_ok G m sf \<and> (\<forall>tr sk. Delivered (Some tr) sk \<in> set evs \<longrightarrow> secured G tr m)
    \<and> set (scheduledKeys evs) \<subseteq> sf_seen sf \<union> set (sf_tasks sf) \<union> set (pending sf) \<union> set (skippedKeys evs)"
  using assms
proof (induction rule: sf_run.induct)
  case (run_nil sf)
  then show ?case by (simp add: fetcher_ok_def newSubfetcher_def)
next
  case (run_snoc sf evs sf1 e sf2)
  note ih = run_snoc.IH [OF run_snoc.prems]
  have o: "loopOpen db sf1 = loopOpen db sf" using target_open run_fields [OF run_snoc.hyps(1)] run_snoc.prems(1) by simp
  have lk: "fetcher_ok G m sf' \<and> (\<forall>tr sk. g = Some (tr, sk) \<longrightarrow> secured G tr m)
      \<and> sf_seen sf1 \<union> set (sf_tasks sf1) \<union> set (pending sf1) \<subseteq> sf_seen sf' \<union> set (sf_tasks sf') \<union> set (pending sf') \<union> (case g of None \<Rightarrow> {} | Some (_, sk) \<Rightarrow> set sk)"
    if "loop_step G db sf1 g sf'" for g sf'
    using loop_keeps [OF that] ih run_snoc.prems o by auto
  from run_snoc.hyps(2) show ?case
  proof (cases rule: sf_step.cases)
    case s_loop
    then show ?thesis using lk [of None sf2] ih by auto
  next
    case (s_grant tr sk)
    then show ?thesis using lk [of "Some (tr, sk)" sf2] ih by auto
  next
    case s_peek
    then show ?thesis using ih run_snoc.prems(3) by (cases "sf_trie sf1") (auto simp: peekTerminated_def fetcher_ok_def pending_defs)
  qed (use ih run_snoc.prems in \<open>auto simp: scheduleAppend_def scheduleNotify_def peekRequest_def abortRequest_def peekTerminated_def fetcher_ok_def pending_defs\<close>)
qed

section \<open>Aborting\<close>

fun rank :: "loopState \<Rightarrow> bool \<Rightarrow> nat" where
  "rank Opening w = (if w then 4 else 2)"
| "rank Waiting w = (if w then 3 else 1)"
| "rank (Fetching []) w = (if w then 4 else 2)"
| "rank (Fetching (_ # _)) w = 1"
| "rank (Loading _ _) w = (if w then 5 else 3)"
| "rank Terminated w = 0"
| "rank (Crashed p) w = 0"

lemma rank_le: "rank l w \<le> 5"
  by (cases "(l, w)" rule: rank.cases) auto

text \<open>
  The goroutine of a subfetcher that has been told to stop, with no request waiting: its lookups return, so it has a step until it has
  ended, and it moves tasks back to the queue only.
\<close>

definition opens_to :: "geth \<Rightarrow> Database \<Rightarrow> (bytes \<rightharpoonup> bytes) \<Rightarrow> subfetcher \<Rightarrow> bool" where
  "opens_to G db m sf \<longleftrightarrow> (\<forall>tr. loopOpen db sf = Inr (Inr tr) \<longrightarrow> secured G tr m) \<and> (\<forall>tr. secured G tr m \<longrightarrow> secured G (CopyTrie db tr) m)
     \<and> (\<forall>p. loopOpen db sf \<noteq> Inl p)"

definition stopping :: "geth \<Rightarrow> Database \<Rightarrow> (bytes \<rightharpoonup> bytes) \<Rightarrow> subfetcher \<Rightarrow> bool" where
  "stopping G db m sf \<longleftrightarrow> sf_stop sf \<and> \<not> sf_copy sf \<and> (sf_term sf \<longleftrightarrow> sf_loop sf = Terminated) \<and> fetcher_ok G m sf \<and> opens_to G db m sf"

definition same_work :: "subfetcher \<Rightarrow> subfetcher \<Rightarrow> bool" where
  "same_work sf sf' \<longleftrightarrow> sf_tasks sf' @ batch sf' = sf_tasks sf @ batch sf \<and> sf_seen sf' \<union> set (inFlight sf') = sf_seen sf \<union> set (inFlight sf)"

lemma same_work_trans: "same_work a b \<Longrightarrow> same_work b c \<Longrightarrow> same_work a c"
  by (simp add: same_work_def)

lemma stopping_step:
  assumes "loop_step G db sf g sf'" "stopping G db m sf"
  shows "stopping G db m sf' \<and> same_work sf sf' \<and> rank (sf_loop sf') (sf_wake sf') < rank (sf_loop sf) (sf_wake sf)"
proof -
  have f: "same_target sf sf'" "sf_term sf' \<longleftrightarrow> sf_loop sf' = Terminated" "sf_stop sf' = sf_stop sf" "sf_copy sf' \<longrightarrow> sf_copy sf"
    using loop_fields [OF assms(1)] assms(2) by (simp_all add: stopping_def)
  have k: "fetcher_ok G m sf'" using loop_keeps [OF assms(1), of m] assms(2) by (simp add: stopping_def opens_to_def)
  have "same_work sf sf' \<and> rank (sf_loop sf') (sf_wake sf') < rank (sf_loop sf) (sf_wake sf)"
    using assms
  proof (cases rule: loop_step.cases)
    case wait_wake
    then show ?thesis by (cases "sf_tasks sf") (simp_all add: same_work_def inFlight_def batch_def)
  next
    case (fetch_done task tasks tr sf1)
    then have "secured G tr m" using assms(2) by (simp add: stopping_def fetcher_ok_def)
    from fetchTask_secured [OF this, of task sf] fetch_done fetchTask_fields [of G tr task sf sf1]
    show ?thesis by (cases tasks) (auto simp: same_work_def inFlight_def batch_def)
  next
    case fetch_panic
    then show ?thesis using k by (simp add: fetcher_ok_def)
  qed (auto simp: stopping_def same_work_def inFlight_def batch_def loopReturn_def)
  moreover have "opens_to G db m sf'" using assms(2) target_open [OF f(1)] by (simp add: stopping_def opens_to_def)
  ultimately show ?thesis using f k assms(2) by (simp add: stopping_def)
qed

lemma stopping_progress:
  assumes "stopping G db m sf" "\<not> sf_term sf" shows "\<exists>g sf'. loop_step G db sf g sf'"
proof (cases "sf_loop sf")
  case Opening
  then show ?thesis using assms loop_step.open_ok loop_step.open_err unfolding stopping_def opens_to_def
    by (cases "loopOpen db sf"; cases "projr (loopOpen db sf)") fastforce+
next
  case (Fetching ts)
  then show ?thesis using assms loop_step.fetch_stop loop_step.fetch_end unfolding stopping_def by (cases ts) blast+
next
  case (Loading task ts)
  then obtain tr where tr: "sf_trie sf = Some tr" "secured G tr m" using assms(1) by (auto simp: stopping_def fetcher_ok_def)
  obtain sf' where "fetchTask G tr task sf = okR sf'" using fetchTask_secured [OF tr(2)] by blast
  then show ?thesis using loop_step.fetch_done [OF Loading tr(1)] by blast
next
  case Waiting
  then show ?thesis using assms(1) loop_step.wait_stop unfolding stopping_def by blast
qed (use assms in \<open>auto simp: stopping_def fetcher_ok_def\<close>)

lemma stopping_run:
  "loop_run G db n sf sf' \<Longrightarrow> stopping G db m sf \<Longrightarrow>
   stopping G db m sf' \<and> same_work sf sf' \<and> n + rank (sf_loop sf') (sf_wake sf') \<le> rank (sf_loop sf) (sf_wake sf)"
proof (induction rule: loop_run.induct)
  case (run_step sf g sf1 n sf2)
  note s = stopping_step [OF run_step.hyps(1) run_step.prems]
  then show ?case using run_step.IH same_work_trans by fastforce
qed (simp add: same_work_def)

lemma stopping_ends: "stopping G db m sf \<Longrightarrow> \<exists>n sf'. loop_run G db n sf sf' \<and> sf_term sf'"
proof (induction "rank (sf_loop sf) (sf_wake sf)" arbitrary: sf rule: less_induct)
  case less
  show ?case
  proof (cases "sf_term sf")
    case True
    then show ?thesis using run_none by blast
  next
    case False
    then obtain g sf1 where s: "loop_step G db sf g sf1" using stopping_progress [OF less.prems] by blast
    then show ?thesis using less.hyps [of sf1] stopping_step [OF s less.prems] run_step by blast
  qed
qed

section \<open>Properties\<close>

text \<open>C39: Prefetching is safe. In every run of a subfetcher, whatever its callers do and however their steps interleave with the goroutine, every trie that
  \<open>peek\<close> delivers stands for the same map as the trie that was opened, and the goroutine does not panic. Every key that was scheduled has
  been fetched, or is still queued or about to be fetched, or was skipped while the loop granted a copy: only
  serving \<open>peek\<close> between two tasks loses a task.\<close>

theorem prefetch_safe:
  assumes "sf_run G db (newSubfetcher st own rt) evs sf" "\<forall>tr. loopOpen db (newSubfetcher st own rt) = Inr (Inr tr) \<longrightarrow> secured G tr m"
    and "\<forall>tr. secured G tr m \<longrightarrow> secured G (CopyTrie db tr) m" "\<forall>p. loopOpen db (newSubfetcher st own rt) \<noteq> Inl p"
  shows "(\<forall>tr sk. Delivered (Some tr) sk \<in> set evs \<longrightarrow> secured G tr m) \<and> (\<forall>p. sf_loop sf \<noteq> Crashed p)
    \<and> set (scheduledKeys evs) \<subseteq> sf_seen sf \<union> set (sf_tasks sf) \<union> set (pending sf) \<union> set (skippedKeys evs)"
  using run_keeps [OF assms(1) refl, of m] assms(2-4) by (simp add: fetcher_ok_def)

text \<open>An example: one task is scheduled, a caller asks for a copy, and the task is neither fetched nor queued any more.\<close>

definition skippingRun :: "sfEvent list" where
  "skippingRun = [Internal, Scheduled [[1]], Notified, Internal, Requested, Delivered (Some (StateTrie_Copy blankStateTrie)) [[1]], Internal, Aborted, Internal]"

lemma snoc_run: "sf_run G db sf evs sf1 \<Longrightarrow> sf_step G db sf1 e sf2 \<Longrightarrow> evs' = evs @ [e] \<Longrightarrow> sf_run G db sf evs' sf2"
  using run_snoc by blast

lemma copy_secured: "secured G tr m \<Longrightarrow> secured G (StateTrie_Copy tr) m"
  by (simp add: secured_def StateTrie_Copy_def Trie_Copy_def durable_def content_def)

lemma peek_skips_task:
  "\<exists>sf. sf_run ref_geth (sdb emptyEnv) (newSubfetcher 0 0 0) skippingRun sf \<and> sf_term sf \<and> sf_seen sf = {} \<and> sf_tasks sf = [] \<and> pending sf = []"
proof -
  let ?db = "sdb emptyEnv" and ?s0 = "newSubfetcher 0 0 0"
  let ?s1 = "?s0\<lparr>sf_trie := Some blankStateTrie, sf_loop := Waiting\<rparr>"
  let ?s2 = "scheduleAppend [[1]] ?s1"
  let ?s3 = "scheduleNotify ?s2"
  let ?s4 = "?s3\<lparr>sf_wake := False, sf_tasks := [], sf_loop := Fetching [[1]]\<rparr>"
  let ?s5 = "peekRequest ?s4"
  let ?s6 = "?s5\<lparr>sf_copy := False, sf_loop := Fetching []\<rparr>"
  let ?s7 = "?s6\<lparr>sf_loop := Waiting\<rparr>"
  let ?s8 = "abortRequest ?s7"
  note defs = newSubfetcher_def scheduleAppend_def scheduleNotify_def peekRequest_def abortRequest_def loopOpen_def emptyEnv_def
  have s: "loop_step ref_geth ?db ?s0 None ?s1" "loop_step ref_geth ?db ?s3 None ?s4"
    "loop_step ref_geth ?db ?s5 (Some (StateTrie_Copy blankStateTrie, [[1]])) ?s6" "loop_step ref_geth ?db ?s6 None ?s7" "loop_step ref_geth ?db ?s8 None (loopReturn ?s8)"
    using loop_step.open_ok [of ?s0 ?db blankStateTrie ref_geth] loop_step.wait_wake [of ?s3 ref_geth ?db] loop_step.fetch_copy [of ?s5 "[1]" "[]" blankStateTrie ref_geth ?db]
      loop_step.fetch_end [of ?s6 ref_geth ?db] loop_step.wait_stop [of ?s8 ref_geth ?db] by (simp_all add: defs)
  have "sf_run ref_geth ?db ?s0 [Internal] ?s1" by (rule snoc_run [OF run_nil sf_step.s_loop [OF s(1)]]) simp
  then have "sf_run ref_geth ?db ?s0 [Internal, Scheduled [[1]]] ?s2" by (rule snoc_run [OF _ sf_step.s_append]) simp
  then have "sf_run ref_geth ?db ?s0 [Internal, Scheduled [[1]], Notified] ?s3" by (rule snoc_run [OF _ sf_step.s_notify]) simp
  then have "sf_run ref_geth ?db ?s0 [Internal, Scheduled [[1]], Notified, Internal] ?s4" by (rule snoc_run [OF _ sf_step.s_loop [OF s(2)]]) simp
  then have "sf_run ref_geth ?db ?s0 [Internal, Scheduled [[1]], Notified, Internal, Requested] ?s5" by (rule snoc_run [OF _ sf_step.s_request]) simp
  then have "sf_run ref_geth ?db ?s0 [Internal, Scheduled [[1]], Notified, Internal, Requested, Delivered (Some (StateTrie_Copy blankStateTrie)) [[1]]] ?s6"
    by (rule snoc_run [OF _ sf_step.s_grant [OF s(3)]]) simp
  then have "sf_run ref_geth ?db ?s0 [Internal, Scheduled [[1]], Notified, Internal, Requested, Delivered (Some (StateTrie_Copy blankStateTrie)) [[1]], Internal] ?s7"
    by (rule snoc_run [OF _ sf_step.s_loop [OF s(4)]]) simp
  then have "sf_run ref_geth ?db ?s0 [Internal, Scheduled [[1]], Notified, Internal, Requested, Delivered (Some (StateTrie_Copy blankStateTrie)) [[1]], Internal, Aborted] ?s8"
    by (rule snoc_run [OF _ sf_step.s_abort]) simp
  then have "sf_run ref_geth ?db ?s0 skippingRun (loopReturn ?s8)" by (rule snoc_run [OF _ sf_step.s_loop [OF s(5)]]) (simp add: skippingRun_def)
  then show ?thesis by (intro exI [of _ "loopReturn ?s8"] conjI) (simp_all add: defs loopReturn_def pending_defs)
qed

theorem prefetch_safe_witness:
  "\<exists>sf. sf_run ref_geth (sdb emptyEnv) (newSubfetcher 0 0 0) skippingRun sf \<and> secured ref_geth (StateTrie_Copy blankStateTrie) Map.empty
     \<and> {[1]} \<subseteq> sf_seen sf \<union> set (sf_tasks sf) \<union> set (pending sf) \<union> set (skippedKeys skippingRun)"
proof -
  obtain sf where r: "sf_run ref_geth (sdb emptyEnv) (newSubfetcher 0 0 0) skippingRun sf" using peek_skips_task by blast
  have o: "loopOpen (sdb emptyEnv) (newSubfetcher 0 0 0) = Inr (Inr blankStateTrie)" by (simp add: loopOpen_def newSubfetcher_def emptyEnv_def)
  have c: "CopyTrie (sdb emptyEnv) = StateTrie_Copy" by (simp add: emptyEnv_def)
  have "(\<forall>tr sk. Delivered (Some tr) sk \<in> set skippingRun \<longrightarrow> secured ref_geth tr Map.empty)
      \<and> set (scheduledKeys skippingRun) \<subseteq> sf_seen sf \<union> set (sf_tasks sf) \<union> set (pending sf) \<union> set (skippedKeys skippingRun)"
    using prefetch_safe [OF r, of Map.empty] o c copy_secured blank_secured by auto
  then show ?thesis using r by (auto simp: skippingRun_def)
qed

text \<open>C40: \<open>abort\<close> returns and loses no task. From every state a subfetcher can be in, one with a lookup running included, once \<open>stop\<close> is closed and while no
  copy is requested, the goroutine can always make a step before it has ended, makes at most five, and so ends. Then
  the queue holds exactly what it held, followed by the tasks of the batch that were not started, in order, and
  exactly the task whose lookup was running has been fetched in addition.\<close>

theorem abort_returns:
  assumes "sf_run G db (newSubfetcher st own rt) evs sf" "\<not> sf_copy sf" "\<forall>tr. loopOpen db (newSubfetcher st own rt) = Inr (Inr tr) \<longrightarrow> secured G tr m"
    and "\<forall>tr. secured G tr m \<longrightarrow> secured G (CopyTrie db tr) m" "\<forall>p. loopOpen db (newSubfetcher st own rt) \<noteq> Inl p"
  shows "(\<exists>sf'. aborts G db sf sf')
    \<and> (\<forall>n sf'. loop_run G db n (abortRequest sf) sf' \<longrightarrow> n \<le> 5
         \<and> (if sf_term sf' then sf_tasks sf' = sf_tasks sf @ batch sf \<and> sf_seen sf' = sf_seen sf \<union> set (inFlight sf)
            else (\<exists>g sf''. loop_step G db sf' g sf'')))"
proof -
  have f: "same_target (newSubfetcher st own rt) sf" "sf_term sf \<longleftrightarrow> sf_loop sf = Terminated" using run_fields [OF assms(1)] by simp_all
  have k: "fetcher_ok G m sf" using run_keeps [OF assms(1) refl, of m] assms(3-5) by simp
  have "same_target (newSubfetcher st own rt) (abortRequest sf)" using f(1) by (simp add: same_target_def abortRequest_def)
  from target_open [OF this] have s: "stopping G db m (abortRequest sf)"
    using assms(2-5) f(2) k by (simp add: stopping_def opens_to_def fetcher_ok_def abortRequest_def)
  have e: "sf_tasks sf' = sf_tasks sf @ batch sf \<and> sf_seen sf' = sf_seen sf \<union> set (inFlight sf)"
    if "stopping G db m sf'" "same_work (abortRequest sf) sf'" "sf_term sf'" for sf'
    using that by (simp add: stopping_def same_work_def inFlight_def batch_def abortRequest_def)
  have "n \<le> 5 \<and> (if sf_term sf' then sf_tasks sf' = sf_tasks sf @ batch sf \<and> sf_seen sf' = sf_seen sf \<union> set (inFlight sf)
      else (\<exists>g sf''. loop_step G db sf' g sf''))" if "loop_run G db n (abortRequest sf) sf'" for n sf'
    using stopping_run [OF that s] rank_le [of "sf_loop (abortRequest sf)" "sf_wake (abortRequest sf)"] stopping_progress [of G db m sf'] e [of sf'] by auto
  moreover have "\<exists>sf'. aborts G db sf sf'" using stopping_ends [OF s] by (auto simp: aborts_def)
  ultimately show ?thesis by blast
qed

text \<open>An example: the loop has taken a batch of two and looks up the first when \<open>stop\<close> is closed.\<close>

definition busyRun :: "sfEvent list" where
  "busyRun = [Internal, Scheduled [[1], [2]], Notified, Internal, Internal]"

lemma busy_run:
  "\<exists>sf. sf_run ref_geth (sdb emptyEnv) (newSubfetcher 0 0 0) busyRun sf \<and> \<not> sf_copy sf \<and> sf_tasks sf = [] \<and> sf_seen sf = {} \<and> sf_loop sf = Loading [1] [[2]]"
proof -
  let ?db = "sdb emptyEnv" and ?s0 = "newSubfetcher 0 0 0"
  let ?s1 = "?s0\<lparr>sf_trie := Some blankStateTrie, sf_loop := Waiting\<rparr>"
  let ?s3 = "scheduleNotify (scheduleAppend [[1], [2]] ?s1)"
  let ?s4 = "?s3\<lparr>sf_wake := False, sf_tasks := [], sf_loop := Fetching [[1], [2]]\<rparr>"
  let ?s5 = "?s4\<lparr>sf_loop := Loading [1] [[2]]\<rparr>"
  note defs = newSubfetcher_def scheduleAppend_def scheduleNotify_def loopOpen_def emptyEnv_def
  have s: "loop_step ref_geth ?db ?s0 None ?s1" "loop_step ref_geth ?db ?s3 None ?s4" "loop_step ref_geth ?db ?s4 None ?s5"
    using loop_step.open_ok [of ?s0 ?db blankStateTrie ref_geth] loop_step.wait_wake [of ?s3 ref_geth ?db] loop_step.fetch_begin [of ?s4 "[1]" "[[2]]" ref_geth ?db]
    by (simp_all add: defs)
  have "sf_run ref_geth ?db ?s0 [Internal] ?s1" by (rule snoc_run [OF run_nil sf_step.s_loop [OF s(1)]]) simp
  then have "sf_run ref_geth ?db ?s0 [Internal, Scheduled [[1], [2]]] (scheduleAppend [[1], [2]] ?s1)" by (rule snoc_run [OF _ sf_step.s_append]) simp
  then have "sf_run ref_geth ?db ?s0 [Internal, Scheduled [[1], [2]], Notified] ?s3" by (rule snoc_run [OF _ sf_step.s_notify]) simp
  then have "sf_run ref_geth ?db ?s0 [Internal, Scheduled [[1], [2]], Notified, Internal] ?s4" by (rule snoc_run [OF _ sf_step.s_loop [OF s(2)]]) simp
  then have "sf_run ref_geth ?db ?s0 busyRun ?s5" by (rule snoc_run [OF _ sf_step.s_loop [OF s(3)]]) (simp add: busyRun_def)
  then show ?thesis by (intro exI [of _ ?s5] conjI) (simp_all add: defs)
qed

theorem abort_returns_witness:
  "\<exists>sf sf'. sf_run ref_geth (sdb emptyEnv) (newSubfetcher 0 0 0) busyRun sf \<and> aborts ref_geth (sdb emptyEnv) sf sf' \<and> sf_tasks sf' = [[2]] \<and> sf_seen sf' = {[1]}"
proof -
  obtain sf where r: "sf_run ref_geth (sdb emptyEnv) (newSubfetcher 0 0 0) busyRun sf" "\<not> sf_copy sf" "sf_tasks sf = []" "sf_seen sf = {}"
    "sf_loop sf = Loading [1] [[2]]" using busy_run by blast
  have o: "loopOpen (sdb emptyEnv) (newSubfetcher 0 0 0) = Inr (Inr blankStateTrie)" by (simp add: loopOpen_def newSubfetcher_def emptyEnv_def)
  have c: "CopyTrie (sdb emptyEnv) = StateTrie_Copy" by (simp add: emptyEnv_def)
  have "\<exists>sf'. aborts ref_geth (sdb emptyEnv) sf sf'"
    "\<And>n sf'. loop_run ref_geth (sdb emptyEnv) n (abortRequest sf) sf' \<Longrightarrow> sf_term sf' \<Longrightarrow> sf_tasks sf' = [[2]] \<and> sf_seen sf' = {[1]}"
    using abort_returns [OF r(1,2), of Map.empty] o c copy_secured blank_secured r(3-5) by (auto simp: batch_def inFlight_def)
  then show ?thesis using r(1) unfolding aborts_def by blast
qed

text \<open>A closed prefetcher can be closed again: ranging over the nil map finds no fetcher.\<close>

lemma close_again: "prefetcher_close G db p p' \<Longrightarrow> prefetcher_close G db p' p'"
  by (erule prefetcher_close.cases) (use prefetcher_close.close_all [of "p\<lparr>tp_fetchers := None\<rparr>" G db] in \<open>simp add: fetcherOf_def\<close>)

text \<open>Scheduling on it is what panics.\<close>

lemma prefetch_closed:
  "prefetcher_close G db p p' \<Longrightarrow> tp_fetches p = None \<Longrightarrow> \<exists>e. prefetch p' own rt keys = Inl e"
  by (erule prefetcher_close.cases) (simp add: prefetch_def fetcherOf_def Let_def)

end
