(* ===== verification/Spec2Isabelle.thy ===== *)
theory Spec2Isabelle
  imports DirectTx CidRoot CachingDB CidQueries Prefetcher
begin

text \<open>
  Verification of \<open>ipld-eth-statedb\<close>: the Ethereum state interface over IPLD data.

  \<^bold>\<open>The program.\<close> The repository gives an EVM access to chain state that an indexer has written to
  Postgres as IPLD blocks. It has two implementations of the \<open>StateDB\<close> of go-ethereum.
  \<open>src/direct_by_leaf\<close> reads accounts and slots as rows of tables. \<open>src/trie_by_cid\<close> reads the nodes of
  the Merkle Patricia tries, each by its CID: \<open>trie_by_cid/trie\<close> is the trie (nodes, hex-prefix paths,
  lookup, insertion, deletion, hashing, committing, the secure trie that hashes its keys,
  the node database with its caches and reference counts, proofs and iterators),
  \<open>trie_by_cid/state\<close> the state objects and the \<open>StateDB\<close> on top of it, and a prefetcher. Both keep a journal for
  snapshots, an access list and transient storage.

  \<^bold>\<open>Conventions.\<close> A Go value that may be nil is an \<open>option\<close>; a call that may panic returns \<open>panic + 'a\<close>
  with \<open>Inl\<close> the panic; a call that may also not return (a lookup in a node store with a cycle) is a
  \<open>partial_function\<close> into \<open>option\<close>, where \<open>None\<close> is not returning, and the theorems say that it
  returns. Errors are values (\<open>goerr\<close>, \<open>trieError\<close>, \<open>accountError\<close>) next to the result, as in Go. State is passed
  and returned. A loop over a Go map takes the order in which the map is visited as an argument
  constrained by \<open>range_of\<close>, and the theorems hold for every order. \<open>uint64\<close> and hashes are words;
  \<open>big.Int\<close> is \<open>int\<close>. The decoder of trie nodes recurses on embedded nodes with
  fuel one more than the length of the buffer; every embedded node is shorter than
  the buffer around it, so the fuel is not used up (\<open>TrieNode\<close>).
  Code that is not in the repository is a parameter: \<open>geth\<close> collects keccak256, \<open>BytesToHash\<close>, the empty
  hashes and the RLP functions, with their documented laws in the locale \<open>rlp\<close> and in \<open>hash_laws\<close>, both
  shown to hold of an executable instance (\<open>ref_geth\<close>) that the witnesses run on; the account codec, the
  rows of the database, the snapshot tree and the caches' eviction policy are arguments too. Hash collisions are
  excluded only where a property needs it, and only among the keys or encodings in question. RLP encodes no negative
  integer and \<open>SubBalance\<close> does not refuse to make one, so what is said of \<open>IntermediateRoot\<close> is said of states
  in which no account that is written back has a negative balance.

  \<^bold>\<open>Theories.\<close>
  \<^item> \<open>Prelude\<close>: bytes, hashes, errors, ranging over maps, \<open>sort.Search\<close>; \<open>Encoding\<close>: \<open>trie/encoding.go\<close>, with the
    round trips of the compact and hex encodings.
  \<^item> \<open>AccessList\<close>, \<open>TransientStorage\<close>, \<open>Journal\<close>, \<open>StateCommon\<close>: \<open>access_list.go\<close>, \<open>transient_storage.go\<close>, \<open>journal.go\<close> and the
    parts of \<open>statedb.go\<close> that both packages share (logs, preimages, refunds, snapshots, \<open>Prepare\<close>).
    The access list refines a pair of sets and is undone exactly by the journal.
  \<^item> \<open>Ipld\<close>: \<open>internal/util.go\<close>, the CID of a hash. \<open>CodeCache\<close>: the contract of two caches of contract code,
    which \<open>DirectDatabase\<close> (\<open>direct_by_leaf/state_database.go\<close>) and \<open>CachingDB\<close> interpret; the caches cannot be observed.
    \<open>DirectState\<close>: \<open>statedb.go\<close>, \<open>state_object.go\<close>, \<open>journal.go\<close> of \<open>direct_by_leaf\<close>. \<open>DirectView\<close>, \<open>DirectOps\<close>, \<open>DirectRevert\<close>,
    \<open>DirectSnapshot\<close>, \<open>DirectSpec\<close>, \<open>DirectFinalise\<close>, \<open>DirectProps\<close>, \<open>DirectTx\<close>: the abstract world a state stands for, that every
    operation refines its specification on worlds, the invariant of reachable states, that reverting
    restores every observation, and what \<open>Finalise\<close> and \<open>Copy\<close> do.
  \<^item> \<open>Rlp\<close>: the contract of the RLP package and an instance. \<open>TrieNode\<close>: \<open>node.go\<close>, \<open>node_enc.go\<close>, \<open>database_node.go\<close>.
    \<open>TrieOps\<close>: \<open>trie.go\<close>, \<open>tracer.go\<close>, \<open>trie_reader.go\<close>, \<open>trie_id.go\<close>, \<open>errors.go\<close>. \<open>TrieHash\<close>, \<open>TrieCommit\<close>: \<open>hasher.go\<close>,
    \<open>committer.go\<close>, \<open>nodeset.go\<close>. \<open>SecureTrie\<close>: \<open>secure_trie.go\<close>, \<open>preimages.go\<close>.
  \<^item> \<open>TrieCorrect\<close>, \<open>TrieCanonical\<close>, \<open>TrieMap\<close>, \<open>TrieInvariant\<close>, \<open>TrieProps\<close>: the map a node stands for, references into the store
    included (\<open>tnode\<close>); lookup, update and deletion return and are those of the map; the shape
    depends on the map only; errors are missing nodes.
  \<^item> \<open>TrieMerkle\<close>, \<open>TrieReload\<close>, \<open>TriePersist\<close>, \<open>TrieReopen\<close>, \<open>TrieDurable\<close>: the root hash is a function of the content and binds it, and
    what \<open>Commit\<close> hands out opens again as a trie with the same content.
  \<^item> \<open>CidObject\<close>, \<open>CidState\<close>: \<open>trie_by_cid/state/state_object.go\<close>, \<open>statedb.go\<close>, \<open>journal.go\<close>. \<open>CidStorage\<close>: the storage
    of an object refines a function from slots to values. \<open>CidRoot\<close>: \<open>IntermediateRoot\<close> returns the root of the
    account trie the finalised state calls for, in every order of its loops.
  \<^item> \<open>TrieDatabase\<close>: \<open>trie/database.go\<close>, the node database between the tries and the block store. \<open>NodeStoreInv\<close>, \<open>NodeStore\<close>: its
    invariant (the linked list of nodes and its size), that \<open>Update\<close> makes the nodes of a commit readable and loses none, that
    a dereference ends and collects exactly the nodes whose references run out, and the size from which the sixteen-bit sum in \<open>insert\<close> wraps. \<open>CachingDB\<close>: \<open>state/database.go\<close>; accounts that were written and committed are read back
    by a trie that is opened through it.
  \<^item> \<open>TrieProof\<close>: \<open>trie/proof.go\<close>; the blobs of a proof answer a lookup as the trie does. \<open>TrieIterator\<close>, \<open>IteratorProps\<close>:
    \<open>trie/iterator.go\<close>; iteration ends and visits every key exactly once, in the order of their paths. \<open>CidQueries\<close>: the proofs of accounts and slots and
    \<open>ForEachStorage\<close> of \<open>statedb.go\<close>.
  \<^item> \<open>Prefetcher\<close>: \<open>state/trie_prefetcher.go\<close>. A subfetcher is a step relation in which the goroutine interleaves with its
    callers; by rule induction every trie it delivers has the content that was opened, and when it is aborted it ends within
    five steps and leaves every task it had not started in the queue.

  \<^bold>\<open>Not modelled.\<close> The difference and union iterators; writing the clean cache to a file; metrics,
  logs and the pretty printing of nodes; the SQL drivers, whose answers are parameters; the test helpers in \<open>trie_by_cid/helper\<close>; what
  is only re-exported from go-ethereum (\<open>VerifyProof\<close>). The \<open>StateDB\<close> is modelled with no prefetcher attached
  (\<open>StartPrefetcher\<close> and \<open>StopPrefetcher\<close> set that field): nothing in the repository attaches one.
\<close>

end
